(* ===== verification/Prelude.thy ===== *)
theory Prelude
  imports Main "HOL-Library.Word"
begin

unbundle bit_operations_syntax

text \<open>
  Shared vocabulary of the development: the machine types of the C code, the exit codes of
  \<^verbatim>\<open>errcode.h\<close>, fallible results and byte-stream readers, and the generic facts on slices of
  lists and on single bytes that the component theories share.
\<close>

section \<open>Types\<close>

type_synonym byte = "8 word"
type_synonym uint32 = "32 word"
type_synonym uint64 = "64 word"

text \<open>
  A call of \<^verbatim>\<open>exit_cleanup(code)\<close> ends the process. In the model it is the left value of a
  sum, carrying the exit code of \<^verbatim>\<open>errcode.h\<close>.
\<close>

datatype rerr = RERR_SYNTAX | RERR_PROTOCOL | RERR_FILESELECT | RERR_UNSUPPORTED
  | RERR_STARTCLIENT | RERR_SOCKETIO | RERR_FILEIO | RERR_STREAMIO | RERR_MESSAGEIO
  | RERR_IPC | RERR_CRASHED | RERR_TERMINATED | RERR_SIGNAL1 | RERR_SIGNAL | RERR_WAITCHILD
  | RERR_MALLOC | RERR_PARTIAL | RERR_VANISHED | RERR_DEL_LIMIT | RERR_TIMEOUT | RERR_CONTIMEOUT
  | RERR_CMD_FAILED | RERR_CMD_KILLED | RERR_CMD_RUN | RERR_CMD_NOTFOUND

type_synonym 'a result = "rerr + 'a"

text \<open>A reader consumes bytes from the front of the incoming stream.\<close>

type_synonym 'a reader = "byte list \<Rightarrow> rerr + ('a \<times> byte list)"

definition rd_return :: "'a \<Rightarrow> 'a reader" where
  "rd_return x = (\<lambda>s. Inr (x, s))"

definition rd_fail :: "rerr \<Rightarrow> 'a reader" where
  "rd_fail e = (\<lambda>s. Inl e)"

definition rd_bind :: "'a reader \<Rightarrow> ('a \<Rightarrow> 'b reader) \<Rightarrow> 'b reader" where
  "rd_bind m f = (\<lambda>s. case m s of Inl e \<Rightarrow> Inl e | Inr (x, s') \<Rightarrow> f x s')"

text \<open>
  A computation that may run forever, with fuel: \<open>None\<close> is a loop that has not returned, an exit code
  is the left value.
\<close>

type_synonym 'a run = "(rerr + 'a) option"

definition run_bind :: "'a run \<Rightarrow> ('a \<Rightarrow> 'b run) \<Rightarrow> 'b run" where
  "run_bind m f = (case m of None \<Rightarrow> None | Some (Inl e) \<Rightarrow> Some (Inl e) | Some (Inr x) \<Rightarrow> f x)"

section \<open>Proof collections\<close>

named_theorems reader_simps \<open>unfolding rules of the reader combinators\<close>
named_theorems wire_rt \<open>a written value followed by any bytes is read back\<close>

lemma rd_return_apply [reader_simps]: "rd_return x s = Inr (x, s)"
  by (simp add: rd_return_def)

lemma rd_fail_apply [reader_simps]: "rd_fail e s = Inl e"
  by (simp add: rd_fail_def)

lemma rd_bind_Inr [reader_simps]: "m s = Inr (x, s') \<Longrightarrow> rd_bind m f s = f x s'"
  by (simp add: rd_bind_def)

lemma rd_bind_Inl [reader_simps]: "m s = Inl e \<Longrightarrow> rd_bind m f s = Inl e"
  by (simp add: rd_bind_def)

lemma rd_bind_eq_Inr:
  "rd_bind m f s = Inr r \<longleftrightarrow> (\<exists>x s'. m s = Inr (x, s') \<and> f x s' = Inr r)"
  by (auto simp: rd_bind_def split: sum.splits prod.splits)

lemma run_bind_simps [simp]:
  "run_bind None f = None" "run_bind (Some (Inl e)) f = Some (Inl e)" "run_bind (Some (Inr x)) f = f x"
  by (simp_all add: run_bind_def)

section \<open>Slices of a byte sequence\<close>

text \<open>\<open>seg xs off n\<close> is the \<open>n\<close> bytes of a buffer from \<open>off\<close> on, what \<^verbatim>\<open>buf + off\<close>, \<^verbatim>\<open>n\<close> names in C.\<close>

definition seg :: "'a list \<Rightarrow> nat \<Rightarrow> nat \<Rightarrow> 'a list" where
  "seg xs off n = take n (drop off xs)"

lemma length_seg [simp]: "off + n \<le> length xs \<Longrightarrow> length (seg xs off n) = n"
  by (simp add: seg_def)

lemma length_seg_min: "length (seg xs off n) = min n (length xs - off)"
  by (simp add: seg_def)

lemma seg_0 [simp]: "seg xs off 0 = []"
  by (simp add: seg_def)

lemma seg_all [simp]: "seg xs 0 (length xs) = xs"
  by (simp add: seg_def)

lemma seg_append: "seg xs off m @ seg xs (off + m) n = seg xs off (m + n)"
  by (simp add: seg_def take_add add.commute)

lemma nth_seg [simp]: "i < n \<Longrightarrow> off + i < length xs \<Longrightarrow> seg xs off n ! i = xs ! (off + i)"
  by (simp add: seg_def)

lemma seg_Suc: "off < length xs \<Longrightarrow> seg xs off (Suc n) = xs ! off # seg xs (Suc off) n"
  by (simp add: seg_def Cons_nth_drop_Suc [symmetric])

lemma seg_snoc: "off + n < length xs \<Longrightarrow> seg xs off (Suc n) = seg xs off n @ [xs ! (off + n)]"
  by (simp add: seg_def take_Suc_conv_app_nth)

lemma seg_seg: "a + m \<le> n \<Longrightarrow> seg (seg xs off n) a m = seg xs (off + a) m"
  by (simp add: seg_def drop_take add.commute)

lemma seg_take: "off + n \<le> m \<Longrightarrow> seg (take m xs) off n = seg xs off n"
  by (simp add: seg_def drop_take)

lemma take_seg_append: "take off xs @ seg xs off n = take (off + n) xs"
  by (simp add: seg_def take_add)

text \<open>
  \<open>map_view F off n\<close> is what a window onto a file shows: the bytes of the file, and zeros past its
  end. \<open>blit\<close> overwrites part of an array.
\<close>

definition map_view :: "byte list \<Rightarrow> nat \<Rightarrow> nat \<Rightarrow> byte list" where
  "map_view F off n = take n (drop off F @ replicate n 0)"

definition blit :: "'a list \<Rightarrow> nat \<Rightarrow> 'a list \<Rightarrow> 'a list" where
  "blit arr off xs = take off arr @ xs @ drop (off + length xs) arr"

lemma length_map_view [simp]: "length (map_view F off n) = n"
  by (simp add: map_view_def)

lemma map_view_seg: "off + n \<le> length F \<Longrightarrow> map_view F off n = seg F off n"
  by (simp add: map_view_def seg_def)

lemma length_blit [simp]: "off + length xs \<le> length arr \<Longrightarrow> length (blit arr off xs) = length arr"
  by (simp add: blit_def)

lemma seg_blit_same [simp]: "off + length xs \<le> length arr \<Longrightarrow> seg (blit arr off xs) off (length xs) = xs"
  by (simp add: blit_def seg_def)

lemma seg_blit_before: "a + n \<le> off \<Longrightarrow> off \<le> length arr \<Longrightarrow> seg (blit arr off xs) a n = seg arr a n"
  by (simp add: blit_def seg_def drop_take)

lemma seg_blit_after: "off + length xs \<le> a \<Longrightarrow> off \<le> length arr \<Longrightarrow> seg (blit arr off xs) a n = seg arr a n"
  by (simp add: blit_def seg_def)

section \<open>Strings\<close>

text \<open>A string is the list of its bytes without the final zero; reading one byte past its end gives that zero.\<close>

definition bytes_of :: "string \<Rightarrow> byte list" where
  "bytes_of s = map (\<lambda>c. word_of_nat (of_char c)) s"

definition str_at :: "byte list \<Rightarrow> nat \<Rightarrow> byte" where
  "str_at s i = (if i < length s then s ! i else 0)"

definition C_SLASH :: byte where "C_SLASH = 47"
definition C_DOT :: byte where "C_DOT = 46"

section \<open>Facts on single bytes by enumeration\<close>

text \<open>A statement on one byte is checked on its 256 values.\<close>

lemma byte_enum:
  assumes "list_all (\<lambda>n. P (word_of_nat n :: byte)) [0..<256]"
  shows "P b"
proof -
  have "unat b \<in> set [0..<256]"
    using unsigned_less [of b, where ?'a = nat] by simp
  then have "P (word_of_nat (unat b))"
    using assms by (simp only: list_all_iff Ball_def)
  then show ?thesis by simp
qed

section \<open>Self-delimiting codes\<close>

text \<open>
  The contract of a writer and reader pair on the wire: the reader takes back exactly the value
  written and leaves what follows it. A client may then send any number of values back to back.
\<close>

primrec read_many :: "nat \<Rightarrow> 'a reader \<Rightarrow> 'a list reader" where
  "read_many 0 rd = rd_return []"
| "read_many (Suc n) rd = rd_bind rd (\<lambda>x. rd_bind (read_many n rd) (\<lambda>xs. rd_return (x # xs)))"

locale codec =
  fixes enc :: "'a \<Rightarrow> byte list"
    and dec :: "'a reader"
    and ok :: "'a \<Rightarrow> bool"
  assumes dec_enc: "ok x \<Longrightarrow> dec (enc x @ r) = Inr (x, r)"
begin

lemma prefix_free:
  assumes "ok x" "ok y" "enc x @ r = enc y @ s"
  shows "x = y \<and> r = s"
proof -
  have "Inr (x, r) = (Inr (y, s) :: rerr + 'a \<times> byte list)"
    unfolding dec_enc [OF assms(1), symmetric] dec_enc [OF assms(2), symmetric] assms(3) ..
  then show ?thesis by simp
qed

lemma stream: "list_all ok xs \<Longrightarrow> read_many (length xs) dec (concat (map enc xs) @ r) = Inr (xs, r)"
  by (induction xs) (simp_all add: reader_simps dec_enc)

end

end
