(* ===== verification/WireIO.thy ===== *)
theory WireIO
  imports Prelude
begin

unbundle bit_operations_syntax

text \<open>
  The integer, string and index encodings of the protocol stream: \<^verbatim>\<open>byteorder.h\<close> and the
  \<^verbatim>\<open>read_*\<close>/\<^verbatim>\<open>write_*\<close> routines at the end of \<^verbatim>\<open>io.c\<close>. A writer returns the bytes it hands to
  \<^verbatim>\<open>write_buf\<close>; a reader consumes them from the front of the stream, and ends the process with
  the exit code of the source on every rejected value. C's \<^verbatim>\<open>int32\<close> and \<^verbatim>\<open>int64\<close> values are
  integers in range; where the C code narrows or wraps a value the model does so too.
\<close>

section \<open>Definitions\<close>

subsection \<open>byteorder.h\<close>

definition UVAL :: "byte list \<Rightarrow> nat \<Rightarrow> uint32" where
  "UVAL buf pos = ucast (buf ! pos)"

definition IVALu :: "byte list \<Rightarrow> nat \<Rightarrow> uint32" where
  "IVALu buf pos = UVAL buf pos OR push_bit 8 (UVAL buf (pos + 1))
     OR push_bit 16 (UVAL buf (pos + 2)) OR push_bit 24 (UVAL buf (pos + 3))"

definition SIVALu :: "byte list \<Rightarrow> nat \<Rightarrow> uint32 \<Rightarrow> byte list" where
  "SIVALu buf pos val = buf[pos := ucast val, pos + 1 := ucast (drop_bit 8 val),
     pos + 2 := ucast (drop_bit 16 val), pos + 3 := ucast (drop_bit 24 val)]"

definition IVAL64 :: "byte list \<Rightarrow> nat \<Rightarrow> uint64" where
  "IVAL64 buf pos = ucast (IVALu buf pos) OR push_bit 32 (ucast (IVALu buf (pos + 4)))"

definition SIVAL64 :: "byte list \<Rightarrow> nat \<Rightarrow> uint64 \<Rightarrow> byte list" where
  "SIVAL64 buf pos val = SIVALu (SIVALu buf pos (ucast val)) (pos + 4) (ucast (drop_bit 32 val))"

text \<open>Conversion of a C integer expression to \<^verbatim>\<open>int32\<close>, and the ranges of the signed types.\<close>

definition to_int32 :: "int \<Rightarrow> int" where
  "to_int32 x = sint (word_of_int x :: uint32)"

definition in_int32 :: "int \<Rightarrow> bool" where
  "in_int32 x \<longleftrightarrow> - (2 ^ 31) \<le> x \<and> x < 2 ^ 31"

definition in_int64 :: "int \<Rightarrow> bool" where
  "in_int64 x \<longleftrightarrow> - (2 ^ 63) \<le> x \<and> x < 2 ^ 63"

subsection \<open>Raw reads\<close>

text \<open>
  \<^verbatim>\<open>read_buf\<close> as seen from above the transport: the next \<open>n\<close> bytes of the data stream. A stream
  that ends early reaches \<^verbatim>\<open>whine_about_eof\<close>, which exits with \<open>RERR_STREAMIO\<close>.
\<close>

definition read_buf :: "nat \<Rightarrow> byte list reader" where
  "read_buf n = (\<lambda>s. if length s < n then Inl RERR_STREAMIO else Inr (take n s, drop n s))"

definition read_byte :: "byte reader" where
  "read_byte = rd_bind (read_buf 1) (\<lambda>b. rd_return (b ! 0))"

definition write_byte :: "byte \<Rightarrow> byte list" where
  "write_byte c = [c]"

subsection \<open>Fixed-width integers\<close>

definition read_shortint :: "nat reader" where
  "read_shortint = rd_bind (read_buf 2)
     (\<lambda>b. rd_return (unat (push_bit 8 (UVAL b 1) + UVAL b 0)))"

definition write_shortint :: "nat \<Rightarrow> byte list" where
  "write_shortint x = [word_of_nat x, word_of_nat (x div 2 ^ 8)]"

definition read_int :: "int reader" where
  "read_int = rd_bind (read_buf 4) (\<lambda>b. rd_return (sint (IVALu b 0)))"

definition write_int :: "int \<Rightarrow> byte list" where
  "write_int x = SIVALu (replicate 4 0) 0 (word_of_int x)"

definition read_uint :: "uint32 reader" where
  "read_uint = rd_bind (read_buf 4) (\<lambda>b. rd_return (IVALu b 0))"

definition read_int_bounded :: "int \<Rightarrow> int \<Rightarrow> int reader" where
  "read_int_bounded lo hi = rd_bind read_int
     (\<lambda>v. if v < lo \<or> v > hi then rd_fail RERR_PROTOCOL else rd_return v)"

definition read_longint :: "int reader" where
  "read_longint = rd_bind read_int (\<lambda>num.
     if num \<noteq> -1 then rd_return num
     else rd_bind (read_buf 8) (\<lambda>b. rd_return
       (sint (ucast (IVALu b 0) OR push_bit 32 (ucast (IVALu b 4)) :: uint64))))"

definition write_longint :: "int \<Rightarrow> byte list" where
  "write_longint x =
     (let s = SIVALu (replicate 8 0) 0 (word_of_int x)
      in if x \<le> 0x7FFFFFFF \<and> x \<ge> 0 then take 4 s
         else replicate 4 0xFF @ SIVALu s 4 (ucast (drop_bit 32 (word_of_int x :: uint64))))"

subsection \<open>Variable-width integers\<close>

definition int_byte_extra :: "nat list" where
  "int_byte_extra =
    [0,0,0,0,0,0,0,0,0,0,0,0,0,0,0,0,
     0,0,0,0,0,0,0,0,0,0,0,0,0,0,0,0,
     1,1,1,1,1,1,1,1,1,1,1,1,1,1,1,1,
     2,2,2,2,2,2,2,2,3,3,3,3,4,4,5,6]"

text \<open>The loop \<^verbatim>\<open>while (cnt > lo && b[cnt] == 0) cnt--\<close> of both writers.\<close>

fun trim_cnt :: "byte list \<Rightarrow> nat \<Rightarrow> nat \<Rightarrow> nat" where
  "trim_cnt b lo cnt = (if cnt > lo \<and> b ! cnt = 0 then trim_cnt b lo (cnt - 1) else cnt)"

declare trim_cnt.simps [simp del]

definition write_varint :: "int \<Rightarrow> byte list" where
  "write_varint x =
     (let b = SIVALu (replicate 5 0) 1 (word_of_int x);
          cnt = trim_cnt b 1 4;
          bit = (push_bit (7 - cnt + 1) 1 :: byte)
      in if b ! cnt \<ge> bit then take (cnt + 1) (b[0 := NOT (bit - 1)])
         else if cnt > 1 then take cnt (b[0 := b ! cnt OR NOT (bit * 2 - 1)])
         else take cnt (b[0 := b ! 1]))"

definition read_varint :: "int reader" where
  "read_varint = rd_bind read_byte (\<lambda>ch.
     let extra = int_byte_extra ! (unat ch div 4) in
     if extra \<noteq> 0 then
       let bit = (push_bit (8 - extra) 1 :: byte) in
       if extra \<ge> 5 then rd_fail RERR_STREAMIO
       else rd_bind (read_buf extra) (\<lambda>r.
         let ub = (r @ replicate (5 - extra) 0)[extra := ch AND (bit - 1)]
         in rd_return (sint (IVALu ub 0)))
     else rd_return (sint (IVALu ((replicate 5 0)[0 := ch]) 0)))"

definition write_varlong :: "int \<Rightarrow> nat \<Rightarrow> byte list" where
  "write_varlong x min_bytes =
     (let b = SIVAL64 (replicate 9 0) 1 (word_of_int x);
          cnt = trim_cnt b min_bytes 8;
          bit = (push_bit (7 + min_bytes - cnt) 1 :: byte)
      in if b ! cnt \<ge> bit then take (cnt + 1) (b[0 := NOT (bit - 1)])
         else if cnt > min_bytes then take cnt (b[0 := b ! cnt OR NOT (bit * 2 - 1)])
         else take cnt (b[0 := b ! cnt]))"

definition read_varlong :: "nat \<Rightarrow> int reader" where
  "read_varlong min_bytes = rd_bind (read_buf min_bytes) (\<lambda>b2.
     let ub0 = drop 1 b2;
         extra = int_byte_extra ! (unat (b2 ! 0) div 4) in
     if extra \<noteq> 0 then
       let bit = (push_bit (8 - extra) 1 :: byte) in
       if min_bytes + extra > 9 then rd_fail RERR_STREAMIO
       else rd_bind (read_buf extra) (\<lambda>r.
         let ub = ub0 @ r @ [b2 ! 0 AND (bit - 1)]
         in rd_return (sint (IVAL64 (ub @ replicate (9 - length ub) 0) 0)))
     else
       let ub = ub0 @ [b2 ! 0]
       in rd_return (sint (IVAL64 (ub @ replicate (9 - length ub) 0) 0)))"

definition read_varint_bounded :: "int \<Rightarrow> int \<Rightarrow> int reader" where
  "read_varint_bounded lo hi = rd_bind read_varint
     (\<lambda>v. if v < lo \<or> v > hi then rd_fail RERR_PROTOCOL else rd_return v)"

definition read_varint_size :: "nat \<Rightarrow> nat reader" where
  "read_varint_size max_size = rd_bind read_varint
     (\<lambda>v. if v < 0 \<or> nat v > max_size then rd_fail RERR_PROTOCOL else rd_return (nat v))"

subsection \<open>Strings\<close>

text \<open>
  \<^verbatim>\<open>write_vstring\<close> refuses a string longer than \<open>0x7FFF\<close>. \<^verbatim>\<open>read_vstring\<close> with a buffer of
  \<open>bufsize\<close> bytes returns \<^verbatim>\<open>-1\<close>, here \<open>None\<close>, on a length that does not fit, and then leaves
  the string's bytes unread.
\<close>

definition write_vstring :: "byte list \<Rightarrow> rerr + byte list" where
  "write_vstring str =
     (let len = length str in
      if len > 0x7F then
        if len > 0x7FFF then Inl RERR_PROTOCOL
        else Inr ([word_of_nat (len div 0x100 + 0x80), word_of_nat len] @ str)
      else Inr ([word_of_nat len] @ str))"

definition read_vstring :: "nat \<Rightarrow> byte list option reader" where
  "read_vstring bufsize = rd_bind read_byte (\<lambda>c.
     rd_bind (if c AND 0x80 \<noteq> 0
              then rd_bind read_byte (\<lambda>d. rd_return (unat (c AND NOT 0x80) * 0x100 + unat d))
              else rd_return (unat c)) (\<lambda>len.
       if len \<ge> bufsize then rd_return None
       else if len \<noteq> 0 then rd_bind (read_buf len) (\<lambda>b. rd_return (Some b))
       else rd_return (Some [])))"

subsection \<open>File-list indexes\<close>

text \<open>The two static variables that \<^verbatim>\<open>write_ndx\<close> and \<^verbatim>\<open>read_ndx\<close> each keep.\<close>

record ndx_state =
  prev_positive :: int
  prev_negative :: int

definition ndx_init :: ndx_state where
  "ndx_init = \<lparr>prev_positive = -1, prev_negative = 1\<rparr>"

definition NDX_DONE :: int where "NDX_DONE = -1"

definition ndx_bytes :: "int \<Rightarrow> int \<Rightarrow> byte list" where
  "ndx_bytes ndx diff =
     (if diff < 0xFE \<and> diff > 0 then [word_of_int diff]
      else if diff < 0 \<or> diff > 0x7FFF then
        [0xFE, word_of_int (ndx div 2 ^ 24) OR 0x80, word_of_int ndx,
         word_of_int (ndx div 2 ^ 8), word_of_int (ndx div 2 ^ 16)]
      else [0xFE, word_of_int (diff div 2 ^ 8), word_of_int diff])"

definition write_ndx :: "int \<Rightarrow> bool \<Rightarrow> ndx_state \<Rightarrow> int \<Rightarrow> byte list \<times> ndx_state" where
  "write_ndx protocol_version read_batch st ndx =
     (if protocol_version < 30 \<or> read_batch then (write_int ndx, st)
      else if ndx \<ge> 0 then
        (ndx_bytes ndx (to_int32 (ndx - prev_positive st)), st\<lparr>prev_positive := ndx\<rparr>)
      else if ndx = NDX_DONE then ([0], st)
      else (let n = to_int32 (- ndx)
            in (0xFF # ndx_bytes n (to_int32 (n - prev_negative st)), st\<lparr>prev_negative := n\<rparr>)))"

text \<open>The part of \<^verbatim>\<open>read_ndx\<close> after the sign prefix: \<open>c\<close> is the byte in \<^verbatim>\<open>b[0]\<close>.\<close>

definition read_ndx_num :: "byte \<Rightarrow> int \<Rightarrow> int reader" where
  "read_ndx_num c prev =
     (if c = 0xFE then rd_bind (read_buf 2) (\<lambda>b.
        if b ! 0 AND 0x80 \<noteq> 0 then rd_bind (read_buf 2) (\<lambda>b'.
          rd_return (sint (IVALu [b ! 1, b' ! 0, b' ! 1, b ! 0 AND NOT 0x80] 0)))
        else rd_return (to_int32 (uint (push_bit 8 (UVAL b 0) + UVAL b 1) + prev)))
      else rd_return (to_int32 (uint c + prev)))"

definition read_ndx :: "int \<Rightarrow> ndx_state \<Rightarrow> (int \<times> ndx_state) reader" where
  "read_ndx protocol_version st =
     (if protocol_version < 30 then rd_bind read_int (\<lambda>n. rd_return (n, st))
      else rd_bind read_byte (\<lambda>c.
        if c = 0xFF then rd_bind read_byte (\<lambda>d.
          rd_bind (read_ndx_num d (prev_negative st)) (\<lambda>num.
            rd_return (to_int32 (- num), st\<lparr>prev_negative := num\<rparr>)))
        else if c = 0 then rd_return (NDX_DONE, st)
        else rd_bind (read_ndx_num c (prev_positive st)) (\<lambda>num.
            rd_return (num, st\<lparr>prev_positive := num\<rparr>))))"

definition ndx_ok :: "int \<Rightarrow> bool" where
  "ndx_ok ndx \<longleftrightarrow> - (2 ^ 31) < ndx \<and> ndx < 2 ^ 31"

text \<open>A sequence of indexes, each side carrying its own static variables.\<close>

fun write_ndxs :: "int \<Rightarrow> ndx_state \<Rightarrow> int list \<Rightarrow> byte list" where
  "write_ndxs pv st [] = []"
| "write_ndxs pv st (n # ns) =
     (case write_ndx pv False st n of (b, st') \<Rightarrow> b @ write_ndxs pv st' ns)"

fun read_ndxs :: "int \<Rightarrow> ndx_state \<Rightarrow> nat \<Rightarrow> int list reader" where
  "read_ndxs pv st 0 = rd_return []"
| "read_ndxs pv st (Suc k) = rd_bind (read_ndx pv st)
     (\<lambda>(n, st'). rd_bind (read_ndxs pv st' k) (\<lambda>ns. rd_return (n # ns)))"

section \<open>Byte order\<close>

lemma bit_byte_ge [simp]: "8 \<le> n \<Longrightarrow> \<not> bit (b :: byte) n"
  using bit_imp_le_length [of b n] by auto

lemma IVALu_bytes:
  "IVALu (b0 # b1 # b2 # b3 # r) 0 =
     ucast b0 OR push_bit 8 (ucast b1) OR push_bit 16 (ucast b2) OR push_bit 24 (ucast b3)"
  by (simp add: IVALu_def UVAL_def numeral_eq_Suc)

lemma ucast_bytes_uint32:
  "(ucast (ucast v :: byte) :: uint32) OR push_bit 8 (ucast (ucast (drop_bit 8 v) :: byte))
    OR push_bit 16 (ucast (ucast (drop_bit 16 v) :: byte))
    OR push_bit 24 (ucast (ucast (drop_bit 24 v) :: byte)) = v"
proof (rule bit_word_eqI)
  fix n assume "n < LENGTH(32)"
  then show "bit ((ucast (ucast v :: byte) :: uint32) OR push_bit 8 (ucast (ucast (drop_bit 8 v) :: byte))
    OR push_bit 16 (ucast (ucast (drop_bit 16 v) :: byte))
    OR push_bit 24 (ucast (ucast (drop_bit 24 v) :: byte))) n = bit v n"
    by (cases "n < 24"; cases "n < 16") (auto simp: bit_simps)
qed

lemma ucast_uint32_uint64:
  "(ucast (ucast v :: uint32) :: uint64) OR push_bit 32 (ucast (ucast (drop_bit 32 v) :: uint32)) = v"
proof (rule bit_word_eqI)
  fix n assume "n < LENGTH(64)"
  then show "bit ((ucast (ucast v :: uint32) :: uint64)
      OR push_bit 32 (ucast (ucast (drop_bit 32 v) :: uint32))) n = bit v n"
    by (auto simp: bit_simps)
qed

lemma length_SIVALu [simp]: "length (SIVALu buf pos v) = length buf"
  by (simp add: SIVALu_def)

lemma length_SIVAL64 [simp]: "length (SIVAL64 buf pos v) = length buf"
  by (simp add: SIVAL64_def)

lemma IVALu_SIVALu: "pos + 3 < length buf \<Longrightarrow> IVALu (SIVALu buf pos v) pos = v"
  by (simp add: IVALu_def SIVALu_def UVAL_def nth_list_update ucast_bytes_uint32)

lemma IVALu_SIVALu_below:
  "pos + 3 < pos' \<Longrightarrow> IVALu (SIVALu buf pos' v) pos = IVALu buf pos"
  by (simp add: IVALu_def SIVALu_def UVAL_def)

lemma IVAL64_SIVAL64: "pos + 7 < length buf \<Longrightarrow> IVAL64 (SIVAL64 buf pos v) pos = v"
  by (simp add: IVAL64_def SIVAL64_def IVALu_SIVALu IVALu_SIVALu_below ucast_uint32_uint64)

lemma sint_word_of_int32: "in_int32 x \<Longrightarrow> sint (word_of_int x :: uint32) = x"
  by (simp add: in_int32_def signed_of_int signed_take_bit_int_eq_self)

lemma sint_word_of_int64: "in_int64 x \<Longrightarrow> sint (word_of_int x :: uint64) = x"
  by (simp add: in_int64_def signed_of_int signed_take_bit_int_eq_self)

lemma to_int32_id: "in_int32 x \<Longrightarrow> to_int32 x = x"
  by (simp add: to_int32_def sint_word_of_int32)

section \<open>Fixed-width round trips\<close>

lemma read_buf_app [wire_rt]: "n = length b \<Longrightarrow> read_buf n (b @ r) = Inr (b, r)"
  by (simp add: read_buf_def)

lemma read_byte_Cons [wire_rt]: "read_byte (c # r) = Inr (c, r)"
  by (simp add: read_byte_def read_buf_def rd_bind_def rd_return_def)

lemma read_byte_write_byte [wire_rt]: "read_byte (write_byte c @ r) = Inr (c, r)"
  by (simp add: write_byte_def wire_rt)

lemma length_write_int [simp]: "length (write_int x) = 4"
  by (simp add: write_int_def)

lemma read_int_write_int [wire_rt]:
  "in_int32 x \<Longrightarrow> read_int (write_int x @ r) = Inr (x, r)"
  by (simp add: read_int_def reader_simps read_buf_app)
     (simp add: write_int_def IVALu_SIVALu sint_word_of_int32)

lemma read_uint_write_int [wire_rt]:
  "read_uint (write_int x @ r) = Inr (word_of_int x, r)"
  by (simp add: read_uint_def reader_simps read_buf_app) (simp add: write_int_def IVALu_SIVALu)

lemma read_int_bounded_write_int [wire_rt]:
  "in_int32 x \<Longrightarrow> lo \<le> x \<Longrightarrow> x \<le> hi \<Longrightarrow> read_int_bounded lo hi (write_int x @ r) = Inr (x, r)"
  by (simp add: read_int_bounded_def reader_simps wire_rt)


section \<open>Variable-width round trips\<close>

text \<open>
  The head byte of a variable-width integer, for \<open>d\<close> bytes beyond the minimum and a top byte
  \<open>c\<close>: the byte written, the number of extra bytes it announces, and the payload bits it
  carries. The same six values of \<open>d\<close> cover the 32-bit and the 64-bit encodings.
\<close>

definition vhead :: "byte \<Rightarrow> nat \<Rightarrow> byte \<times> nat \<times> byte" where
  "vhead c d =
     (let bit = (push_bit (7 - d) 1 :: byte) in
      if c \<ge> bit then (NOT (bit - 1), d + 1, 0)
      else if d > 0 then (c OR NOT (bit * 2 - 1), d, c)
      else (c, 0, c))"

definition vhead_ok :: "byte \<Rightarrow> nat \<Rightarrow> bool" where
  "vhead_ok c d =
     (case vhead c d of (h, e, v) \<Rightarrow> int_byte_extra ! (unat h div 4) = e
        \<and> (if e = 0 then h = v else h AND (push_bit (8 - e) 1 - 1) = v))"

lemma vhead_ok_low_all:
  "list_all (\<lambda>d. list_all (\<lambda>n. vhead_ok (word_of_nat n) d) [0..<2 ^ (7 - d)]) [1..<6]"
  by code_simp

lemma vhead_ok_high_all: "list_all (\<lambda>d. vhead_ok (push_bit (7 - d) 1) d) [0..<6]"
  by code_simp

lemma int_byte_extra_low_all: "list_all (\<lambda>i. int_byte_extra ! i = 0) [0..<32]"
  by code_simp

lemma unat_push_bit_1: "d < 6 \<Longrightarrow> unat (push_bit (7 - d) 1 :: byte) = 2 ^ (7 - d)"
proof -
  assume "d < 6"
  then have "d = 0 \<or> d = 1 \<or> d = 2 \<or> d = 3 \<or> d = 4 \<or> d = 5" by arith
  then show ?thesis by (elim disjE) simp_all
qed

lemma vhead_ok:
  assumes "d < 6"
  shows "vhead_ok c d"
proof -
  let ?bit = "push_bit (7 - d) 1 :: byte"
  consider "c \<ge> ?bit" | "c < ?bit" "d = 0" | "c < ?bit" "0 < d"
    by fastforce
  then show ?thesis
  proof cases
    case 1
    have "vhead_ok ?bit d"
      using vhead_ok_high_all assms by (simp only: list_all_iff) simp
    moreover have "vhead c d = vhead ?bit d"
      using 1 by (simp add: vhead_def)
    ultimately show ?thesis by (simp add: vhead_ok_def)
  next
    case 2
    then have "unat c < 128" by (simp add: word_less_nat_alt)
    then have "int_byte_extra ! (unat c div 4) = 0"
      using int_byte_extra_low_all by (simp only: list_all_iff) simp
    with 2 show ?thesis by (auto simp: vhead_ok_def vhead_def dest: leD)
  next
    case 3
    have "unat c \<in> set [0..<2 ^ (7 - d)]" "d \<in> set [1..<6]"
      using 3 assms unat_push_bit_1 by (simp_all add: word_less_nat_alt)
    then have "vhead_ok (word_of_nat (unat c)) d"
      using vhead_ok_low_all by (simp only: list_all_iff Ball_def)
    then show ?thesis by simp
  qed
qed

lemma trim_cnt_bounds: "lo \<le> cnt \<Longrightarrow> lo \<le> trim_cnt b lo cnt \<and> trim_cnt b lo cnt \<le> cnt"
proof (induction b lo cnt rule: trim_cnt.induct)
  case (1 b lo cnt)
  show ?case
  proof (cases "lo < cnt \<and> b ! cnt = 0")
    case True
    then have "lo \<le> cnt - 1" by linarith
    with True "1.IH" have "lo \<le> trim_cnt b lo (cnt - 1) \<and> trim_cnt b lo (cnt - 1) \<le> cnt - 1" by blast
    with True show ?thesis by (auto simp: trim_cnt.simps [of b lo cnt])
  qed (use "1.prems" in \<open>auto simp: trim_cnt.simps [of b lo cnt]\<close>)
qed

lemma trim_cnt_zero: "trim_cnt b lo cnt < j \<Longrightarrow> j \<le> cnt \<Longrightarrow> b ! j = 0"
proof (induction b lo cnt rule: trim_cnt.induct)
  case (1 b lo cnt)
  show ?case
  proof (cases "lo < cnt \<and> b ! cnt = 0")
    case True
    with 1 show ?thesis by (cases "j = cnt") (auto simp: trim_cnt.simps [of b lo cnt])
  qed (use "1.prems" in \<open>auto simp: trim_cnt.simps [of b lo cnt]\<close>)
qed

text \<open>
  Both writers produce a head byte and then the low bytes of the number. The list \<open>cs\<close> holds
  the number's bytes, least significant first.
\<close>

definition venc :: "byte list \<Rightarrow> nat \<Rightarrow> byte list" where
  "venc cs lo =
     (let cnt = trim_cnt (0 # cs) lo (length cs); c = (0 # cs) ! cnt
      in case vhead c (cnt - lo) of (h, e, v) \<Rightarrow> h # take (lo - 1 + e) cs)"

definition vdec :: "byte \<Rightarrow> byte list \<Rightarrow> byte list" where
  "vdec h low =
     (let e = int_byte_extra ! (unat h div 4)
      in low @ [if e = 0 then h else h AND (push_bit (8 - e) 1 - 1)])"

lemma vdec_venc:
  assumes cs: "length cs = n" and lo: "1 \<le> lo" "lo \<le> n" "n < lo + 6"
    and cnt: "cnt = trim_cnt (0 # cs) lo n" and vh: "vhead ((0 # cs) ! cnt) (cnt - lo) = (h, e, v)"
  shows "int_byte_extra ! (unat h div 4) = e" and "lo - 1 + e \<le> n"
    and "vdec h (take (lo - 1 + e) cs) @ replicate (n + 1 - (lo + e)) 0 = cs @ [0]"
proof -
  have b: "lo \<le> cnt" "cnt \<le> n"
    using trim_cnt_bounds [of lo n "0 # cs"] lo cnt by auto
  have ok: "vhead_ok ((0 # cs) ! cnt) (cnt - lo)"
    using b lo by (intro vhead_ok) linarith
  from ok vh show e: "int_byte_extra ! (unat h div 4) = e" by (simp add: vhead_ok_def)
  from ok vh e have v: "vdec h low = low @ [v]" for low
    by (simp add: vhead_ok_def vdec_def split: if_splits)
  have z: "drop cnt cs = replicate (n - cnt) 0"
  proof (rule nth_equalityI)
    fix i assume "i < length (drop cnt cs)"
    then show "drop cnt cs ! i = replicate (n - cnt) 0 ! i"
      using trim_cnt_zero [of "0 # cs" lo n "Suc (cnt + i)"] cnt cs by (simp add: less_diff_conv)
  qed (use cs in simp)
  have cs_split: "cs = take cnt cs @ replicate (n - cnt) 0"
    using z by (metis append_take_drop_id)
  have cases: "(e = cnt - lo + 1 \<and> v = 0) \<or> (e = cnt - lo \<and> v = (0 # cs) ! cnt)"
    using vh by (auto simp: vhead_def Let_def split: if_splits)
  then show n: "lo - 1 + e \<le> n" using b lo by auto
  from cases have "\<exists>z. vdec h (take (lo - 1 + e) cs) @ replicate z 0 = cs @ [0]"
  proof
    assume 1: "e = cnt - lo + 1 \<and> v = 0"
    have "vdec h (take (lo - 1 + e) cs) @ replicate (n - cnt) 0 = take cnt cs @ 0 # replicate (n - cnt) 0"
      using 1 b lo by (simp add: v)
    also have "\<dots> = (take cnt cs @ replicate (n - cnt) 0) @ [0]"
      by (simp add: replicate_append_same)
    finally show ?thesis using cs_split by (metis append.assoc)
  next
    assume 2: "e = cnt - lo \<and> v = (0 # cs) ! cnt"
    have "take cnt cs = take (cnt - 1) cs @ [cs ! (cnt - 1)]"
      using b lo cs by (metis One_nat_def Suc_pred diff_less le_zero_eq less_one
          not_gr_zero order_less_le_trans take_Suc_conv_app_nth)
    then have "vdec h (take (lo - 1 + e) cs) @ replicate (n - cnt + 1) 0
        = take cnt cs @ replicate (n - cnt) 0 @ [0]"
      using 2 b lo by (simp add: v nth_Cons' replicate_append_same)
    then show ?thesis using cs_split by (metis append.assoc)
  qed
  then obtain z where z: "vdec h (take (lo - 1 + e) cs) @ replicate z 0 = cs @ [0]" by blast
  have "length (vdec h (take (lo - 1 + e) cs)) + z = n + 1"
    using arg_cong [OF z, of length] cs by simp
  then have "z = n + 1 - (lo + e)"
    using n lo cs by (simp add: v)
  with z show "vdec h (take (lo - 1 + e) cs) @ replicate (n + 1 - (lo + e)) 0 = cs @ [0]" by simp
qed

lemma SIVALu_5: "SIVALu (replicate 5 0) 1 w =
    [0, ucast w, ucast (drop_bit 8 w), ucast (drop_bit 16 w), ucast (drop_bit 24 w)]"
  by (simp add: SIVALu_def numeral_eq_Suc)

lemma IVALu_Cons: "IVALu (c # cs) (Suc p) = IVALu cs p"
  by (simp add: IVALu_def UVAL_def add.commute)

lemma IVALu_append: "p + 3 < length cs \<Longrightarrow> IVALu (cs @ r) p = IVALu cs p"
  by (simp add: IVALu_def UVAL_def nth_append)

lemma IVAL64_Cons: "length cs = 8 \<Longrightarrow> IVAL64 (c # cs) 1 = IVAL64 (cs @ r) 0"
  using IVALu_Cons [of c cs 4] by (simp add: IVAL64_def IVALu_Cons IVALu_append)

lemma SIVAL64_9: "\<exists>cs. SIVAL64 (replicate 9 0) 1 w = 0 # cs \<and> length cs = 8 \<and> (\<forall>r. IVAL64 (cs @ r) 0 = w)"
proof -
  let ?b = "SIVAL64 (replicate 9 0) 1 w"
  have "?b ! 0 = 0"
    by (simp add: SIVAL64_def SIVALu_def)
  then have b: "?b = 0 # tl ?b"
    by (metis length_SIVAL64 length_replicate list.collapse list.size(3) nth_Cons_0 zero_neq_numeral)
  have len: "length (tl ?b) = 8" by simp
  have "IVAL64 ?b 1 = w" by (simp add: IVAL64_SIVAL64)
  then have "IVAL64 (tl ?b @ r) 0 = w" for r
    using IVAL64_Cons [OF len, of 0 r] b by metis
  with b len show ?thesis by blast
qed

lemma venc_core:
  assumes cnt: "cnt = trim_cnt (0 # cs) lo (length cs)" and lo: "1 \<le> lo" "lo \<le> length cs"
    and m: "m = (push_bit (7 - (cnt - lo)) 1 :: byte)"
  shows "venc cs lo =
     (if (0 # cs) ! cnt \<ge> m then take (cnt + 1) ((0 # cs)[0 := NOT (m - 1)])
      else if cnt > lo then take cnt ((0 # cs)[0 := (0 # cs) ! cnt OR NOT (m * 2 - 1)])
      else take cnt ((0 # cs)[0 := (0 # cs) ! cnt]))"
proof -
  have "lo \<le> cnt"
    using trim_cnt_bounds [of lo "length cs" "0 # cs"] lo cnt by auto
  then show ?thesis
    unfolding venc_def vhead_def Let_def cnt [symmetric] m [symmetric]
    using lo by (simp add: take_Cons')
qed

lemma write_varint_venc:
  assumes b: "SIVALu (replicate 5 0) 1 (word_of_int x) = 0 # cs" and cs: "length cs = 4"
  shows "write_varint x = venc cs 1"
proof -
  define cnt where "cnt = trim_cnt (0 # cs) 1 4"
  have c: "1 \<le> cnt" "cnt \<le> 4"
    using trim_cnt_bounds [of 1 4 "0 # cs"] by (auto simp: cnt_def)
  then have m: "7 - cnt + 1 = 7 - (cnt - 1)" by linarith
  have one: "(0 # cs) ! 1 = (0 # cs) ! cnt" if "\<not> 1 < cnt"
    using that c by (simp add: le_antisym)
  have last: "(if 1 < cnt then Y else take cnt ((0 # cs)[0 := (0 # cs) ! 1]))
      = (if 1 < cnt then Y else take cnt ((0 # cs)[0 := (0 # cs) ! cnt]))" for Y
    by (cases "1 < cnt") (simp_all only: one if_True if_False not_False_eq_True)
  have cnt: "cnt = trim_cnt (0 # cs) 1 (length cs)" by (simp only: cnt_def cs)
  show ?thesis
    unfolding write_varint_def b cnt_def [symmetric] Let_def m last
    by (rule venc_core [OF cnt _ _ refl, symmetric]) (use cs in simp_all)
qed

lemma write_varlong_venc:
  assumes b: "SIVAL64 (replicate 9 0) 1 (word_of_int x) = 0 # cs" and cs: "length cs = 8"
    and lo: "1 \<le> lo" "lo \<le> 8"
  shows "write_varlong x lo = venc cs lo"
proof -
  define cnt where "cnt = trim_cnt (0 # cs) lo 8"
  have "lo \<le> cnt" "cnt \<le> 8"
    using trim_cnt_bounds [of lo 8 "0 # cs"] lo by (auto simp: cnt_def)
  then have m: "7 + lo - cnt = 7 - (cnt - lo)" by linarith
  have cnt: "cnt = trim_cnt (0 # cs) lo (length cs)" by (simp only: cnt_def cs)
  show ?thesis
    unfolding write_varlong_def b cnt_def [symmetric] Let_def m
    by (rule venc_core [OF cnt _ _ refl, symmetric]) (use cs lo in simp_all)
qed

lemma read_varint_write_varint [wire_rt]:
  assumes "in_int32 x"
  shows "read_varint (write_varint x @ r) = Inr (x, r)"
proof -
  define w :: uint32 where "w = word_of_int x"
  define cs where "cs = [ucast w, ucast (drop_bit 8 w), ucast (drop_bit 16 w), ucast (drop_bit 24 w) :: byte]"
  define cnt where "cnt = trim_cnt (0 # cs) 1 4"
  have cs4: "length cs = 4" by (simp add: cs_def)
  obtain h e v where vh: "vhead ((0 # cs) ! cnt) (cnt - 1) = (h, e, v)"
    by (metis prod_cases3)
  have enc: "write_varint x = h # take e cs"
    using write_varint_venc [of x cs, OF _ cs4] SIVALu_5 [of w, folded cs_def] vh
    by (simp add: venc_def w_def cnt_def cs4 Let_def)
  note dec = vdec_venc [of cs 4 1 cnt, OF cs4 _ _ _ cnt_def vh, simplified]
  have val: "sint (IVALu (cs @ [0]) 0) = x"
    using assms by (simp add: cs_def IVALu_bytes ucast_bytes_uint32 w_def sint_word_of_int32)
  show ?thesis
  proof (cases "e = 0")
    case True
    have "replicate 5 (0 :: byte) = 0 # replicate 4 0" by (simp add: eval_nat_numeral)
    then have "(replicate 5 0)[0 := h] = vdec h (take e cs) @ replicate 4 0"
      using True dec(1) by (simp add: vdec_def)
    then have "(replicate 5 0)[0 := h] = cs @ [0]"
      using dec(3) True by simp
    then show ?thesis
      using True dec(1) enc val by (simp add: read_varint_def reader_simps read_byte_Cons)
  next
    case False
    have e4: "e \<le> 4" using dec(2) by simp
    then have len: "length (take e cs) = e" using cs4 by simp
    have "5 - e = Suc (4 - e)" using e4 by linarith
    then have r: "replicate (5 - e) (0 :: byte) = 0 # replicate (4 - e) 0" by (simp only: replicate_Suc)
    have "(take e cs @ replicate (5 - e) 0)[e := h AND (push_bit (8 - e) 1 - 1)]
        = vdec h (take e cs) @ replicate (4 - e) 0"
      unfolding r vdec_def dec(1) Let_def using len False by (simp add: list_update_append)
    then have "(take e cs @ replicate (5 - e) 0)[e := h AND (push_bit (8 - e) 1 - 1)] = cs @ [0]"
      using dec(3) e4 by simp
    then show ?thesis
      using False dec(1) enc val e4 len
      by (simp add: read_varint_def reader_simps read_byte_Cons read_buf_app Let_def)
  qed
qed

lemma read_varlong_write_varlong [wire_rt]:
  assumes "in_int64 x" and lo: "3 \<le> lo" "lo \<le> 8"
  shows "read_varlong lo (write_varlong x lo @ r) = Inr (x, r)"
proof -
  define w :: uint64 where "w = word_of_int x"
  obtain cs where b: "SIVAL64 (replicate 9 0) 1 w = 0 # cs" and cs8: "length cs = 8"
    and val64: "\<And>r. IVAL64 (cs @ r) 0 = w"
    using SIVAL64_9 [of w] by blast
  define cnt where "cnt = trim_cnt (0 # cs) lo 8"
  obtain h e v where vh: "vhead ((0 # cs) ! cnt) (cnt - lo) = (h, e, v)"
    by (metis prod_cases3)
  have enc: "write_varlong x lo = h # take (lo - 1 + e) cs"
    using write_varlong_venc [of x cs lo] b cs8 lo vh
    by (simp add: venc_def w_def cnt_def Let_def)
  have dec: "int_byte_extra ! (unat h div 4) = e" "lo - 1 + e \<le> 8"
    "vdec h (take (lo - 1 + e) cs) @ replicate (9 - (lo + e)) 0 = cs @ [0]"
    using vdec_venc [of cs 8 lo cnt, OF cs8 _ _ _ cnt_def vh] lo by auto
  have val: "sint (IVAL64 (cs @ [0]) 0) = x"
    using assms(1) val64 by (simp add: w_def sint_word_of_int64)
  define low where "low = take (lo - 1) cs"
  define ext where "ext = take e (drop (lo - 1) cs)"
  have split: "take (lo - 1 + e) cs = low @ ext"
    by (simp add: low_def ext_def take_add)
  have len: "length low = lo - 1" "length ext = e"
    using dec(2) cs8 lo by (auto simp: low_def ext_def)
  have b2: "read_buf lo (h # low @ ext @ r) = Inr (h # low, ext @ r)"
    using read_buf_app [of lo "h # low" "ext @ r"] len lo by simp
  show ?thesis
  proof (cases "e = 0")
    case True
    have "low @ [h] @ replicate (9 - (lo + e)) 0 = cs @ [0]"
      using dec(3) True split len dec(1) by (simp add: vdec_def)
    then show ?thesis
      using True dec(1) enc val len split b2 lo
      by (simp add: read_varlong_def reader_simps Let_def)
  next
    case False
    have "low @ ext @ [h AND (push_bit (8 - e) 1 - 1)] @ replicate (9 - (lo + e)) 0 = cs @ [0]"
      using dec(3) False split len dec(1) by (simp add: vdec_def)
    moreover have "9 - Suc (lo - Suc 0 + e) = 9 - (lo + e)" using lo by simp
    ultimately show ?thesis
      using False dec(1,2) enc val len split b2 lo
      by (simp add: read_varlong_def reader_simps Let_def read_buf_app)
  qed
qed

lemma read_longint_write_longint [wire_rt]:
  assumes "in_int64 x"
  shows "read_longint (write_longint x @ r) = Inr (x, r)"
proof (cases "x \<le> 0x7FFFFFFF \<and> x \<ge> 0")
  case True
  have "take 4 (SIVALu (replicate 8 0) 0 w) = SIVALu (replicate 4 0) 0 w" for w
    by (simp add: SIVALu_def take_update_swap)
  then have "write_longint x = write_int x"
    using True by (simp add: write_longint_def write_int_def)
  then show ?thesis
    using True by (simp add: read_longint_def reader_simps wire_rt in_int32_def)
next
  case False
  define w :: uint64 where "w = word_of_int x"
  have lo: "(word_of_int x :: uint32) = ucast w"
    unfolding w_def by (rule bit_word_eqI) (simp add: bit_simps)
  have "write_longint x = write_int (-1) @ SIVAL64 (replicate 8 0) 0 w"
  proof -
    have "replicate 4 0xFF = write_int (-1)"
      by code_simp
    then show ?thesis using False lo
      by (auto simp add: write_longint_def SIVAL64_def w_def Let_def)
  qed
  moreover have "sint (IVAL64 (SIVAL64 (replicate 8 0) 0 w) 0) = x"
    using assms by (simp add: IVAL64_SIVAL64 w_def sint_word_of_int64)
  ultimately show ?thesis
    by (simp add: read_longint_def reader_simps wire_rt in_int32_def IVAL64_def)
qed


section \<open>Strings and indexes\<close>

lemma top_bit_all:
  "list_all (\<lambda>n. (word_of_nat n :: byte) AND 0x80 = 0 \<and> (word_of_nat (n + 0x80) :: byte) AND 0x80 \<noteq> 0
     \<and> unat ((word_of_nat (n + 0x80) :: byte) AND NOT 0x80) = n
     \<and> (word_of_nat n OR 0x80 :: byte) AND 0x80 \<noteq> 0
     \<and> (word_of_nat n OR 0x80 :: byte) AND NOT 0x80 = word_of_nat n) [0..<128]"
  by code_simp

lemma top_bit:
  assumes "n < 128"
  shows "(word_of_nat n :: byte) AND 0x80 = 0" "(word_of_nat (n + 0x80) :: byte) AND 0x80 \<noteq> 0"
    "unat ((word_of_nat (n + 0x80) :: byte) AND NOT 0x80) = n"
    "(word_of_nat n OR 0x80 :: byte) AND 0x80 \<noteq> 0"
    "(word_of_nat n OR 0x80 :: byte) AND NOT 0x80 = word_of_nat n"
proof -
  have "n \<in> set [0..<128]" using assms by simp
  then show "(word_of_nat n :: byte) AND 0x80 = 0" "(word_of_nat (n + 0x80) :: byte) AND 0x80 \<noteq> 0"
    "unat ((word_of_nat (n + 0x80) :: byte) AND NOT 0x80) = n"
    "(word_of_nat n OR 0x80 :: byte) AND 0x80 \<noteq> 0"
    "(word_of_nat n OR 0x80 :: byte) AND NOT 0x80 = word_of_nat n"
    using top_bit_all unfolding list_all_iff by blast+
qed

lemma unat_byte_of_nat: "unat (word_of_nat n :: byte) = n mod 0x100"
  by (simp add: unsigned_of_nat take_bit_eq_mod)

lemma unat_two_bytes:
  "unat (push_bit 8 (ucast (b1 :: byte)) + ucast (b0 :: byte) :: uint32) = unat b1 * 0x100 + unat b0"
proof -
  have u: "unat (ucast b :: uint32) = unat b" and lt: "unat b < 0x100" for b :: byte
    using unsigned_less [of b, where ?'a = nat] by (simp_all add: unsigned_ucast_eq take_bit_nat_eq_self)
  have "unat (push_bit 8 (ucast b1) :: uint32) = unat b1 * 0x100"
    using lt [of b1] by (simp add: push_bit_eq_mult unat_word_ariths u)
  moreover have "unat b1 * 0x100 + unat b0 < 2 ^ 32"
    using lt [of b1] lt [of b0] by simp
  ultimately show ?thesis
    by (simp add: unat_word_ariths u)
qed

lemma read_shortint_write_shortint [wire_rt]:
  assumes "x < 2 ^ 16"
  shows "read_shortint (write_shortint x @ r) = Inr (x, r)"
  using assms read_buf_app [of 2 "write_shortint x" r]
  by (simp add: read_shortint_def reader_simps write_shortint_def UVAL_def unat_two_bytes unat_byte_of_nat)

lemma read_vstring_write_vstring [wire_rt]:
  assumes enc: "write_vstring str = Inr b" and fits: "length str < bufsize"
  shows "read_vstring bufsize (b @ r) = Inr (Some str, r)"
proof (cases "length str > 0x7F")
  case True
  define c :: byte where "c = word_of_nat (length str div 0x100 + 0x80)"
  define d :: byte where "d = word_of_nat (length str)"
  from True enc have "length str \<le> 0x7FFF" and b: "b = c # d # str"
    by (auto simp: write_vstring_def Let_def c_def d_def split: if_splits)
  then have bits: "c AND 0x80 \<noteq> 0" "unat (c AND NOT 0x80) = length str div 0x100"
    using top_bit [of "length str div 0x100"] by (simp_all only: c_def) auto
  have len: "unat (c AND NOT 0x80) * 0x100 + unat d = length str"
    unfolding bits(2) d_def unat_byte_of_nat by simp
  show ?thesis
    unfolding b read_vstring_def
    using fits True len
    by (simp only: append_Cons reader_simps read_byte_Cons bits(1) not_False_eq_True if_True)
       (auto simp: reader_simps read_buf_app)
next
  case False
  then have b: "b = word_of_nat (length str) # str"
    using enc by (auto simp: write_vstring_def Let_def)
  have "unat (word_of_nat (length str) :: byte) = length str"
    using False by (simp add: unat_byte_of_nat)
  moreover have "(word_of_nat (length str) :: byte) AND 0x80 = 0"
    using False top_bit by simp
  ultimately show ?thesis
    using b fits by (simp add: read_vstring_def reader_simps read_byte_Cons read_buf_app)
qed

lemma to_int32_add: "to_int32 (to_int32 a + b) = to_int32 (a + b)"
  by (simp add: to_int32_def)

lemma to_int32_minus: "to_int32 (- to_int32 a) = to_int32 (- a)"
  by (simp add: to_int32_def)

lemma byte_of_int_div:
  "n \<le> 24 \<Longrightarrow> (word_of_int (x div 2 ^ n) :: byte) = ucast (drop_bit n (word_of_int x :: uint32))"
  unfolding drop_bit_eq_div [symmetric] by (rule bit_word_eqI) (auto simp: bit_simps)

lemma byte_of_int_ucast: "(word_of_int x :: byte) = ucast (word_of_int x :: uint32)"
  by (rule bit_word_eqI) (auto simp: bit_simps)

lemma word_of_int_nat_div: "0 \<le> x \<Longrightarrow> (word_of_int (x div 2 ^ k) :: byte) = word_of_nat (nat x div 2 ^ k)"
proof -
  assume "0 \<le> x"
  then have "x div 2 ^ k = int (nat x div 2 ^ k)" by (simp add: zdiv_int)
  then show ?thesis by simp
qed

lemma read_ndx_num_ndx_bytes:
  assumes n: "0 \<le> ndx" "ndx < 2 ^ 31" and d: "diff = to_int32 (ndx - prev)"
  shows "\<exists>c rest. ndx_bytes ndx diff = c # rest \<and> c \<noteq> 0 \<and> c \<noteq> 0xFF
      \<and> read_ndx_num c prev (rest @ r) = Inr (ndx, r)"
proof -
  have ndx32: "to_int32 ndx = ndx" using n by (simp add: to_int32_id in_int32_def)
  have bk: "to_int32 (diff + prev) = ndx" by (simp add: d to_int32_add ndx32)
  consider "diff < 0xFE \<and> diff > 0" | "diff < 0 \<or> diff > 0x7FFF"
    | "diff = 0 \<or> (0xFE \<le> diff \<and> diff \<le> 0x7FFF)" by linarith
  then show ?thesis
  proof cases
    case 1
    then have u: "uint (word_of_int diff :: byte) = diff"
      by (simp add: unsigned_of_int take_bit_int_eq_self)
    then have "(word_of_int diff :: byte) \<noteq> 0" "(word_of_int diff :: byte) \<noteq> 0xFF" "(word_of_int diff :: byte) \<noteq> 0xFE"
      using 1 u by force+
    with 1 u show ?thesis
      by (simp add: ndx_bytes_def read_ndx_num_def reader_simps bk)
  next
    case 2
    define w :: uint32 where "w = word_of_int ndx"
    define x0 :: byte where "x0 = word_of_int (ndx div 2 ^ 24) OR 0x80"
    have e: "ndx_bytes ndx diff = [0xFE, x0, ucast w, ucast (drop_bit 8 w), ucast (drop_bit 16 w)]"
    proof -
      have "\<not> (diff < 0xFE \<and> diff > 0)" using 2 by linarith
      with 2 show ?thesis
        unfolding ndx_bytes_def x0_def w_def
        using byte_of_int_div [of 8 ndx] byte_of_int_div [of 16 ndx] byte_of_int_ucast [of ndx]
        by (simp only: if_True if_False)
    qed
    have "nat ndx < 128 * 2 ^ 24" using n by (simp add: nat_less_iff)
    then have "nat ndx div 2 ^ 24 < 128" by (rule less_mult_imp_div_less)
    note tb = top_bit(4,5) [OF this]
    have x0: "x0 AND 0x80 \<noteq> 0"
      unfolding x0_def word_of_int_nat_div [OF n(1)] by (rule tb(1))
    have x0': "x0 AND NOT 0x80 = ucast (drop_bit 24 w)"
      unfolding x0_def w_def byte_of_int_div [OF order_refl, symmetric] word_of_int_nat_div [OF n(1)]
      by (rule tb(2))
    have "read_ndx_num 0xFE prev ([x0, ucast w, ucast (drop_bit 8 w), ucast (drop_bit 16 w)] @ r) = Inr (ndx, r)"
      using read_buf_app [of 2 "[x0, ucast w]" "ucast (drop_bit 8 w) # ucast (drop_bit 16 w) # r"]
        read_buf_app [of 2 "[ucast (drop_bit 8 w), ucast (drop_bit 16 w)]" r]
        sint_word_of_int32 [of ndx, folded w_def] n
      by (simp add: read_ndx_num_def reader_simps x0 x0' [simplified] IVALu_bytes ucast_bytes_uint32 in_int32_def)
    with e show ?thesis by simp
  next
    case 3
    define k where "k = nat diff"
    have k: "diff = int k" "k \<le> 0x7FFF" using 3 by (auto simp: k_def)
    define b0 b1 :: byte where "b0 = word_of_nat (k div 0x100)" and "b1 = word_of_nat k"
    have e: "ndx_bytes ndx diff = [0xFE, b0, b1]"
      using 3 k word_of_int_nat_div [of diff 8] by (auto simp: ndx_bytes_def b0_def b1_def)
    have kd: "k div 0x100 < 128" using k by simp
    then have b0: "b0 AND 0x80 = 0" using top_bit by (simp only: b0_def)
    have "uint (push_bit 8 (ucast b0) + ucast b1 :: uint32) = diff"
      using unat_two_bytes [of b0 b1] kd k
      by (simp add: uint_nat b0_def b1_def unat_byte_of_nat)
    then have "read_ndx_num 0xFE prev ([b0, b1] @ r) = Inr (ndx, r)"
      using read_buf_app [of 2 "[b0, b1]" r] b0 bk
      by (simp add: read_ndx_num_def reader_simps UVAL_def)
    with e show ?thesis by simp
  qed
qed

lemma read_ndx_write_ndx [wire_rt]:
  assumes "30 \<le> protocol_version" "ndx_ok ndx" "write_ndx protocol_version False st ndx = (b, st')"
  shows "read_ndx protocol_version st (b @ r) = Inr ((ndx, st'), r)"
proof -
  consider "0 \<le> ndx" | "ndx = NDX_DONE" | "ndx < 0" "ndx \<noteq> NDX_DONE" by linarith
  then show ?thesis
  proof cases
    case 1
    obtain c rest where c: "ndx_bytes ndx (to_int32 (ndx - prev_positive st)) = c # rest" "c \<noteq> 0" "c \<noteq> 0xFF"
      "read_ndx_num c (prev_positive st) (rest @ r) = Inr (ndx, r)"
      using read_ndx_num_ndx_bytes [OF 1 _ refl, of "prev_positive st" r] assms(2)
      by (auto simp: ndx_ok_def)
    moreover have "b = c # rest" "st' = st\<lparr>prev_positive := ndx\<rparr>"
      using assms 1 c(1) by (simp_all add: write_ndx_def)
    ultimately show ?thesis
      using assms(1) by (simp add: read_ndx_def reader_simps read_byte_Cons)
  next
    case 2
    with assms show ?thesis
      by (auto simp: write_ndx_def read_ndx_def reader_simps read_byte_Cons NDX_DONE_def)
  next
    case 3
    define n where "n = - ndx"
    have n: "0 \<le> n" "n < 2 ^ 31" using assms(2) 3 by (auto simp: ndx_ok_def n_def)
    have i: "to_int32 (- ndx) = n" "to_int32 (- n) = ndx"
      using assms(2) by (simp_all add: n_def ndx_ok_def to_int32_id in_int32_def)
    obtain c rest where c: "ndx_bytes n (to_int32 (n - prev_negative st)) = c # rest"
      "read_ndx_num c (prev_negative st) (rest @ r) = Inr (n, r)"
      using read_ndx_num_ndx_bytes [OF n refl] by blast
    moreover have "b = 0xFF # c # rest" "st' = st\<lparr>prev_negative := n\<rparr>"
      using assms 3 c(1) i by (simp_all add: write_ndx_def Let_def)
    ultimately show ?thesis
      using assms(1) i by (simp add: read_ndx_def reader_simps read_byte_Cons)
  qed
qed

section \<open>Index streams\<close>

text \<open>
  C21: from equal static variables on both sides, any sequence of file-list indexes that
  \<^verbatim>\<open>write_ndx\<close> sends is what \<^verbatim>\<open>read_ndx\<close> returns, through all its delta forms, \<^verbatim>\<open>NDX_DONE\<close> and the
  other negative indexes included.
\<close>

theorem ndx_stream_roundtrip:
  assumes "30 \<le> pv" and "list_all ndx_ok ns"
  shows "read_ndxs pv st (length ns) (write_ndxs pv st ns @ r) = Inr (ns, r)"
  using assms(2)
proof (induction ns arbitrary: st)
  case Nil
  then show ?case by (simp add: reader_simps)
next
  case (Cons n ns)
  obtain b st' where w: "write_ndx pv False st n = (b, st')" by fastforce
  have "read_ndx pv st (b @ write_ndxs pv st' ns @ r) = Inr ((n, st'), write_ndxs pv st' ns @ r)"
    using read_ndx_write_ndx [OF assms(1) _ w] Cons.prems by simp
  with Cons w show ?case by (simp add: reader_simps)
qed

theorem ndx_stream_roundtrip_witness:
  "read_ndxs 31 ndx_init (length [0, 1, -1, 300, 7, 100000, -101, -5 :: int])
     (write_ndxs 31 ndx_init [0, 1, -1, 300, 7, 100000, -101, -5] @ [9])
   = Inr ([0, 1, -1, 300, 7, 100000, -101, -5], [9])"
  by (rule ndx_stream_roundtrip) (simp_all add: ndx_ok_def)

section \<open>The writers and readers as codes\<close>

interpretation int_code: codec write_int read_int in_int32
  by unfold_locales (rule read_int_write_int)

interpretation longint_code: codec write_longint read_longint in_int64
  by unfold_locales (rule read_longint_write_longint)

interpretation varint_code: codec write_varint read_varint in_int32
  by unfold_locales (rule read_varint_write_varint)

interpretation varlong_code: codec "\<lambda>x. write_varlong x 3" "read_varlong 3" in_int64
  by unfold_locales (simp add: read_varlong_write_varlong)

interpretation varlong4_code: codec "\<lambda>x. write_varlong x 4" "read_varlong 4" in_int64
  by unfold_locales (simp add: read_varlong_write_varlong)

section \<open>Properties\<close>

text \<open>
  C30: any number of 32-bit integers written back to back by \<^verbatim>\<open>write_varint\<close> is read back by
  \<^verbatim>\<open>read_varint\<close>, negative ones included, and what follows them on the wire is left in place.
\<close>

theorem varint_stream_roundtrip:
  assumes "list_all in_int32 xs"
  shows "read_many (length xs) read_varint (concat (map write_varint xs) @ r) = Inr (xs, r)"
  by (rule varint_code.stream [OF assms])

theorem varint_stream_roundtrip_witness:
  "list_all in_int32 [0, 127, 128, 65536, -1, 2147483647]
   \<and> read_many (length [0, 127, 128, 65536, -1, 2147483647 :: int]) read_varint
       (concat (map write_varint [0, 127, 128, 65536, -1, 2147483647]) @ [42])
     = Inr ([0, 127, 128, 65536, -1, 2147483647], [42])"
  by (intro conjI varint_stream_roundtrip) (simp_all add: in_int32_def)

text \<open>
  C31: a 64-bit integer written by \<^verbatim>\<open>write_varlong\<close> with a minimum of 3 to 8 bytes is read back by
  \<^verbatim>\<open>read_varlong\<close> with the same minimum.
\<close>

theorem varlong_roundtrip:
  assumes "in_int64 x" "3 \<le> min_bytes" "min_bytes \<le> 8"
  shows "read_varlong min_bytes (write_varlong x min_bytes @ r) = Inr (x, r)"
  using assms by (rule read_varlong_write_varlong)

theorem varlong_roundtrip_witness:
  "read_varlong 3 (write_varlong (-5) 3 @ [7]) = Inr (-5, [7])"
  by (rule varlong_roundtrip) (simp_all add: in_int64_def)

end
