(* ===== verification/Fileio.thy ===== *)
theory Fileio
  imports WireIO
begin

unbundle bit_operations_syntax

text \<open>
  The reading side of \<^verbatim>\<open>fileio.c\<close>: the sliding window behind \<^verbatim>\<open>map_ptr\<close>, in its cached, uncached, mapped and
  synthetic modes. The system calls are arguments: a read may be short.
\<close>

section \<open>Definitions: the read window\<close>

definition ALIGN_BOUNDARY :: int where "ALIGN_BOUNDARY = 1024"
definition DIRECT_ALIGNMENT :: int where "DIRECT_ALIGNMENT = 4096"
definition MAPPED_WINDOW_SIZE :: int where "MAPPED_WINDOW_SIZE = 8 * 1024 * 1024"

definition ALIGNED_OVERSHOOT :: "int \<Rightarrow> int" where
  "ALIGNED_OVERSHOOT oft = oft AND (ALIGN_BOUNDARY - 1)"

definition ALIGNED_LENGTH :: "int \<Rightarrow> int" where
  "ALIGNED_LENGTH len = ((len - 1) OR (ALIGN_BOUNDARY - 1)) + 1"

definition DIRECT_ALIGNED_LENGTH :: "int \<Rightarrow> int" where
  "DIRECT_ALIGNED_LENGTH len = ((len - 1) OR (DIRECT_ALIGNMENT - 1)) + 1"

datatype source_io = SOURCE_IO_CACHED | SOURCE_IO_UNCACHED | SOURCE_IO_MAPPED

text \<open>
  The kernel's side of a file descriptor: what \<^verbatim>\<open>read\<close> and \<^verbatim>\<open>pread\<close> of \<open>n\<close> bytes at a position give (\<open>None\<close>
  is an error, no bytes the end of the file), what a mapping of a range shows, whether a seek to an
  offset works, and the page size. A call interrupted by a signal is retried and not seen here.
\<close>

record rd_env =
  sys_read :: "int \<Rightarrow> int \<Rightarrow> byte list option"
  sys_pread :: "int \<Rightarrow> int \<Rightarrow> byte list option"
  sys_mmap :: "int \<Rightarrow> int \<Rightarrow> byte list option"
  sys_page_size :: int

text \<open>
  \<^verbatim>\<open>struct map_struct\<close>. The buffer \<open>map_p\<close> holds the \<open>map_p_len\<close> bytes of the window; \<open>map_status\<close> tells
  whether an error number has been stored.
\<close>

record map_struct =
  map_file_size :: int
  map_p_offset :: int
  map_p_fd_offset :: int
  map_p :: "byte list"
  map_p_len :: int
  map_def_window_size :: int
  map_status :: bool
  map_io_mode :: source_io
  map_synthetic :: bool

text \<open>The globals that \<^verbatim>\<open>map_file\<close> reads.\<close>

record map_conf =
  mc_am_sender :: bool
  source_io_mode :: source_io
  synthetic_file_size :: int
  disk_read_size :: int

definition map_file :: "map_conf \<Rightarrow> int \<Rightarrow> int \<Rightarrow> int \<Rightarrow> map_struct" where
  "map_file mc len read_size blk_size =
     (let mode = (if mc_am_sender mc then source_io_mode mc else SOURCE_IO_CACHED);
          synth = (mc_am_sender mc \<and> 0 \<le> synthetic_file_size mc);
          rs1 = (if mc_am_sender mc \<and> \<not> synth
                 then (if mode = SOURCE_IO_MAPPED then MAPPED_WINDOW_SIZE
                       else if read_size < disk_read_size mc then disk_read_size mc else read_size)
                 else read_size);
          rs2 = (if blk_size \<noteq> 0 \<and> rs1 mod blk_size \<noteq> 0 then rs1 + (blk_size - rs1 mod blk_size) else rs1)
      in \<lparr>map_file_size = len, map_p_offset = 0, map_p_fd_offset = 0, map_p = [], map_p_len = 0,
          map_def_window_size = ALIGNED_LENGTH rs2, map_status = False, map_io_mode = mode,
          map_synthetic = synth\<rparr>)"

text \<open>The size of the window that starts at \<open>start\<close>, cut at the end of the file.\<close>

definition clip_window :: "map_struct \<Rightarrow> int \<Rightarrow> int" where
  "clip_window mp start =
     (if start + map_def_window_size mp > map_file_size mp then to_int32 (map_file_size mp - start)
      else map_def_window_size mp)"

text \<open>The window stored, and the pointer into it at \<open>fudge\<close>: the \<open>len\<close> bytes the caller may read there.\<close>

definition show_window :: "map_struct \<Rightarrow> int \<Rightarrow> int \<Rightarrow> byte list \<times> map_struct" where
  "show_window mp fudge len = (seg (map_p mp) (nat fudge) (nat len), mp)"

text \<open>The loop that repeats the 256-byte counter pattern, with \<open>j\<close> bytes of \<open>window_size\<close> done.\<close>

definition counter_pattern :: "byte list" where
  "counter_pattern = map word_of_nat [0..<256]"

function fill_pattern :: "int \<Rightarrow> int \<Rightarrow> int \<Rightarrow> byte list" where
  "fill_pattern start j window_size =
     (if j < window_size
      then (let po = (start + j) AND 0xff;
                amount = min (window_size - j) (256 - po)
            in seg counter_pattern (nat po) (nat amount) @ fill_pattern start (j + amount) window_size)
      else [])"
  by pat_completeness auto

lemma and_255_bounds: "0 \<le> (x :: int) AND 255" "(x :: int) AND 255 \<le> 255"
  by simp_all

termination fill_pattern
proof (relation "measure (\<lambda>(start, j, w). nat (w - j))", goal_cases)
  case (2 start j w po amount)
  then have "0 < amount" using and_255_bounds(2) [of "start + j"] by simp
  then show ?case using 2 by simp
qed simp

declare fill_pattern.simps [simp del]

definition map_ptr_synthetic :: "map_struct \<Rightarrow> int \<Rightarrow> int \<Rightarrow> byte list \<times> map_struct" where
  "map_ptr_synthetic mp offset len =
     (let start = offset - ALIGNED_OVERSHOOT offset;
          ws0 = clip_window mp start;
          ws = (if ws0 < len + (offset - start) then ALIGNED_LENGTH (len + (offset - start)) else ws0)
      in show_window (mp\<lparr>map_p := fill_pattern start 0 ws, map_p_offset := start, map_p_len := ws\<rparr>) (offset - start) len)"

definition map_ptr_mapped :: "rd_env \<Rightarrow> map_struct \<Rightarrow> int \<Rightarrow> int \<Rightarrow> rerr + (byte list \<times> map_struct)" where
  "map_ptr_mapped re mp offset len =
     (let page_size = (if sys_page_size re \<le> 0 then 4096 else sys_page_size re);
          fudge = offset mod page_size;
          start = offset - fudge;
          ws0 = clip_window mp start;
          ws = (if ws0 < len + fudge then len + fudge else ws0)
      in case sys_mmap re start ws of
           None \<Rightarrow> Inl RERR_FILEIO
         | Some b \<Rightarrow> Inr (show_window (mp\<lparr>map_p := b, map_p_offset := start, map_p_len := ws\<rparr>) fudge len))"

definition map_ptr_uncached :: "rd_env \<Rightarrow> map_struct \<Rightarrow> int \<Rightarrow> int \<Rightarrow> byte list \<times> map_struct" where
  "map_ptr_uncached re mp offset len =
     (let fudge = offset AND (DIRECT_ALIGNMENT - 1);
          start = offset - fudge;
          ws0 = clip_window mp start;
          ws = (if ws0 < len + fudge then len + fudge else ws0);
          direct_size = DIRECT_ALIGNED_LENGTH ws;
          got = (case sys_pread re start direct_size of None \<Rightarrow> [] | Some b \<Rightarrow> b);
          short = (int (length got) < ws)
      in show_window (mp\<lparr>map_p := take (nat ws) (got @ replicate (nat ws) 0),
                         map_status := (map_status mp \<or> short), map_p_offset := start, map_p_len := ws\<rparr>) fudge len)"

text \<open>The loop \<^verbatim>\<open>while (read_size > 0)\<close>: fills the window from the descriptor's position, zeros after an error.\<close>

function read_loop :: "rd_env \<Rightarrow> map_struct \<Rightarrow> int \<Rightarrow> map_struct" where
  "read_loop re mp read_size =
     (if read_size > 0
      then (case sys_read re (map_p_fd_offset mp) read_size of
              None \<Rightarrow> mp\<lparr>map_p := map_p mp @ replicate (nat read_size) 0, map_status := True\<rparr>
            | Some b \<Rightarrow>
                if b = [] then mp\<lparr>map_p := map_p mp @ replicate (nat read_size) 0, map_status := True\<rparr>
                else read_loop re (mp\<lparr>map_p := map_p mp @ b, map_p_fd_offset := map_p_fd_offset mp + int (length b)\<rparr>)
                       (read_size - int (length b)))
      else mp)"
  by pat_completeness auto
termination by (relation "measure (\<lambda>(re, mp, n). nat n)") auto

declare read_loop.simps [simp del]

definition map_ptr_cached :: "rd_env \<Rightarrow> map_struct \<Rightarrow> int \<Rightarrow> int \<Rightarrow> rerr + (byte list \<times> map_struct)" where
  "map_ptr_cached re mp offset len =
     (let fudge = to_int32 (ALIGNED_OVERSHOOT offset);
          start = offset - fudge;
          ws0 = clip_window mp start;
          ws = (if ws0 < len + fudge then ALIGNED_LENGTH (len + fudge) else ws0);
          p_end = map_p_offset mp + map_p_len mp;
          reuse = (start \<ge> map_p_offset mp \<and> start < p_end \<and> start + ws \<ge> p_end);
          read_start = (if reuse then p_end else start);
          read_offset = (if reuse then to_int32 (p_end - start) else 0);
          kept = (if reuse then seg (map_p mp) (nat (map_p_len mp - read_offset)) (nat read_offset) else []);
          read_size = ws - read_offset
      in if read_size \<le> 0 then Inl RERR_FILEIO
         else if map_p_fd_offset mp \<noteq> read_start \<and> read_start < 0 then Inl RERR_FILEIO
         else Inr (show_window (read_loop re (mp\<lparr>map_p := kept, map_p_fd_offset := read_start,
                                                  map_p_offset := start, map_p_len := ws\<rparr>) read_size) fudge len))"

definition map_ptr :: "rd_env \<Rightarrow> map_struct \<Rightarrow> int \<Rightarrow> int \<Rightarrow> rerr + (byte list \<times> map_struct)" where
  "map_ptr re mp offset len =
     (if len = 0 then Inr ([], mp)
      else if len < 0 then Inl RERR_FILEIO
      else if offset \<ge> map_p_offset mp \<and> offset + len \<le> map_p_offset mp + map_p_len mp
      then Inr (show_window mp (offset - map_p_offset mp) len)
      else if map_synthetic mp then Inr (map_ptr_synthetic mp offset len)
      else case map_io_mode mp of
             SOURCE_IO_MAPPED \<Rightarrow> map_ptr_mapped re mp offset len
           | SOURCE_IO_UNCACHED \<Rightarrow> Inr (map_ptr_uncached re mp offset len)
           | SOURCE_IO_CACHED \<Rightarrow> map_ptr_cached re mp offset len)"

text \<open>\<^verbatim>\<open>unmap_file\<close> frees the window and returns the stored status.\<close>

definition unmap_file :: "map_struct \<Rightarrow> bool" where
  "unmap_file mp = map_status mp"

section \<open>The window shows the file\<close>

text \<open>
  What the window relies on: a read gives a part of the file from its position on, empty only at the
  end of the file; a direct read gives all there is; a mapping inside the file shows it.
\<close>

definition reads_file :: "byte list \<Rightarrow> rd_env \<Rightarrow> bool" where
  "reads_file F re \<longleftrightarrow> (\<forall>pos n. 0 \<le> pos \<longrightarrow> 0 < n \<longrightarrow>
     (\<exists>k. sys_read re pos n = Some (seg F (nat pos) k) \<and> nat pos + k \<le> max (nat pos) (length F) \<and> int k \<le> n
        \<and> (k = 0 \<longrightarrow> length F \<le> nat pos)))"

definition preads_file :: "byte list \<Rightarrow> rd_env \<Rightarrow> bool" where
  "preads_file F re \<longleftrightarrow> (\<forall>pos n. 0 \<le> pos \<longrightarrow> 0 < n \<longrightarrow> sys_pread re pos n = Some (seg F (nat pos) (nat n)))"

definition maps_file :: "byte list \<Rightarrow> rd_env \<Rightarrow> bool" where
  "maps_file F re \<longleftrightarrow> (\<forall>pos n. 0 \<le> pos \<longrightarrow> 0 < n \<longrightarrow> pos + n \<le> int (length F) \<longrightarrow>
     sys_mmap re pos n = Some (seg F (nat pos) (nat n)))"

text \<open>The invariant of an open window onto \<open>F\<close>.\<close>

definition win_ok :: "byte list \<Rightarrow> map_struct \<Rightarrow> bool" where
  "win_ok F mp \<longleftrightarrow> 0 \<le> map_p_offset mp \<and> 0 \<le> map_p_len mp \<and> 0 \<le> map_p_fd_offset mp
     \<and> map_p mp = map_view F (nat (map_p_offset mp)) (nat (map_p_len mp))
     \<and> 0 < map_def_window_size mp \<and> map_def_window_size mp < 2 ^ 31 \<and> \<not> map_synthetic mp
     \<and> map_file_size mp = int (length F)"

definition serves :: "byte list \<Rightarrow> rd_env \<Rightarrow> map_struct \<Rightarrow> bool" where
  "serves F re mp \<longleftrightarrow> win_ok F mp \<and> (case map_io_mode mp of SOURCE_IO_CACHED \<Rightarrow> reads_file F re
     | SOURCE_IO_UNCACHED \<Rightarrow> preads_file F re | SOURCE_IO_MAPPED \<Rightarrow> maps_file F re)"

text \<open>A request the callers make: inside the file, and short enough for 32-bit window arithmetic.\<close>

definition req_ok :: "byte list \<Rightarrow> int \<Rightarrow> int \<Rightarrow> bool" where
  "req_ok F offset len \<longleftrightarrow> 0 \<le> offset \<and> 0 \<le> len \<and> len \<le> 2 ^ 30 \<and> offset + len \<le> int (length F)"

lemma nth_map_view: "i < n \<Longrightarrow> map_view F s n ! i = (if s + i < length F then F ! (s + i) else 0)"
  by (auto simp: map_view_def nth_append)

lemma map_view_append: "map_view F s m @ map_view F (s + m) n = map_view F s (m + n)"
  by (rule nth_equalityI) (simp_all add: nth_map_view nth_append)

lemma map_view_seg_any: "s + k \<le> max s (length F) \<Longrightarrow> map_view F s k = seg F s k"
  by (cases "k = 0") (simp_all add: seg_def max_def map_view_def split: if_splits)

lemma map_view_past: "length F \<le> s \<Longrightarrow> map_view F s n = replicate n 0"
  by (simp add: map_view_def)

lemma seg_map_view: "a + m \<le> n \<Longrightarrow> seg (map_view F s n) a m = map_view F (s + a) m"
  by (rule nth_equalityI) (simp_all add: nth_map_view add.assoc)

lemma map_view_pad: "n \<le> m \<Longrightarrow> map_view F s n = take n (seg F s m @ replicate n 0)"
  by (rule nth_equalityI) (auto simp: nth_map_view nth_append length_seg_min)

lemma overshoot_bounds:
  assumes "0 \<le> x" shows "0 \<le> x AND mask n" "x AND mask n \<le> (x :: int)" "x AND mask n < 2 ^ n"
  using assms by (simp_all add: AND_upper1 take_bit_eq_mask [symmetric] take_bit_int_less_eq_self_iff)

lemma mask_10: "(1023 :: int) = mask 10" and mask_12: "(4095 :: int) = mask 12"
  by (simp_all add: mask_eq_exp_minus_1)

lemma ALIGNED_OVERSHOOT_bounds:
  assumes "0 \<le> x" shows "0 \<le> ALIGNED_OVERSHOOT x" "ALIGNED_OVERSHOOT x \<le> x" "ALIGNED_OVERSHOOT x < 1024"
  using overshoot_bounds [OF assms, of 10] by (simp_all add: ALIGNED_OVERSHOOT_def ALIGN_BOUNDARY_def mask_10 [symmetric] del: mask_numeral)

lemma ALIGNED_LENGTH_bounds:
  assumes "0 < x" "x \<le> 2 ^ 30 + 2 ^ 20"
  shows "x \<le> ALIGNED_LENGTH x" "ALIGNED_LENGTH x < 2 ^ 31"
proof -
  have "x - 1 \<le> (x - 1) OR 1023" by (rule or_greater_eq) simp
  then show "x \<le> ALIGNED_LENGTH x" by (simp add: ALIGNED_LENGTH_def ALIGN_BOUNDARY_def)
  have "(x - 1) OR 1023 = (x - 1) + 1023 - ((x - 1) AND 1023)"
    using plus_and_or [of "x - 1" 1023] by (simp add: algebra_simps)
  moreover have "0 \<le> (x - 1) AND 1023" using assms(1) by (simp only: AND_lower)
  ultimately have "(x - 1) OR 1023 \<le> x + 1022" by linarith
  then show "ALIGNED_LENGTH x < 2 ^ 31" using assms by (simp add: ALIGNED_LENGTH_def ALIGN_BOUNDARY_def)
qed

lemma read_loop_view:
  assumes "reads_file F re" "map_p mp = map_view F s k" "map_p_fd_offset mp = int (s + k)"
  shows "\<exists>fd st. read_loop re mp (int n) = mp\<lparr>map_p := map_view F s (k + n), map_p_fd_offset := fd, map_status := st\<rparr>
           \<and> 0 \<le> fd \<and> (s + k + n \<le> length F \<longrightarrow> st = map_status mp)"
  using assms(2,3)
proof (induction n arbitrary: mp k rule: less_induct)
  case (less n)
  show ?case
  proof (cases "n = 0")
    case True
    then show ?thesis using less.prems
      by (intro exI [of _ "map_p_fd_offset mp"] exI [of _ "map_status mp"]) (simp add: read_loop.simps)
  next
    case False
    have "0 \<le> int (s + k)" "0 < int n" using False by simp_all
    with assms(1) have "\<exists>j. sys_read re (int (s + k)) (int n) = Some (seg F (nat (int (s + k))) j) \<and>
        nat (int (s + k)) + j \<le> max (nat (int (s + k))) (length F) \<and> int j \<le> int n \<and>
        (j = 0 \<longrightarrow> length F \<le> nat (int (s + k)))"
      unfolding reads_file_def by blast
    then obtain j where
      j: "sys_read re (map_p_fd_offset mp) (int n) = Some (seg F (s + k) j)"
        "s + k + j \<le> max (s + k) (length F)" "j \<le> n" "j = 0 \<longrightarrow> length F \<le> s + k"
      unfolding less.prems(2) nat_int of_nat_le_iff by blast
    have seg_eq: "seg F (s + k) j = map_view F (s + k) j" using j(2) by (simp add: map_view_seg_any)
    then have len: "length (seg F (s + k) j) = j" by simp
    show ?thesis
    proof (cases "j = 0")
      case True
      have "map_p mp @ replicate n 0 = map_view F s (k + n)"
        using True j(4) less.prems(1) map_view_append [of F s k n] by (simp add: map_view_past)
      then show ?thesis using True j less.prems False
        by (intro exI [of _ "map_p_fd_offset mp"] exI [of _ True]) (simp add: read_loop.simps)
    next
      case nz: False
      let ?mp = "mp\<lparr>map_p := map_view F s (k + j), map_p_fd_offset := int (s + (k + j))\<rparr>"
      have step: "read_loop re mp (int n) = read_loop re ?mp (int (n - j))"
        using nz j False less.prems len map_view_append [of F s k j] seg_eq
        by (subst read_loop.simps) (simp add: of_nat_diff add.assoc length_0_conv [symmetric] del: length_0_conv)
      have "n - j < n" using nz j(3) by simp
      from less.IH [OF this, of ?mp "k + j"] j(3) obtain fd st where
        "read_loop re ?mp (int (n - j)) = mp\<lparr>map_p := map_view F s (k + n), map_p_fd_offset := fd, map_status := st\<rparr>"
        "0 \<le> fd" "s + k + n \<le> length F \<longrightarrow> st = map_status mp" by (auto simp: add.assoc)
      then show ?thesis unfolding step by blast
    qed
  qed
qed

lemma clip_window_int32:
  assumes "map_def_window_size mp < 2 ^ 31" shows "clip_window mp start < 2 ^ 31"
proof -
  have "to_int32 x < 2 ^ 31" for x
    unfolding to_int32_def using sint_lt [of "word_of_int x :: uint32"] by simp
  then show ?thesis using assms by (simp add: clip_window_def)
qed

lemma window_inside:
  assumes "map_file_size mp = int (length F)" "offset + len \<le> int (length F)" "len + fudge \<le> map_def_window_size mp"
    "0 < len" "0 \<le> fudge" "map_def_window_size mp < 2 ^ 31"
  shows "len + fudge \<le> clip_window mp (offset - fudge)" "offset - fudge + clip_window mp (offset - fudge) \<le> int (length F)"
proof -
  have "to_int32 (int (length F) - (offset - fudge)) = int (length F) - (offset - fudge)"
    if "int (length F) < offset - fudge + map_def_window_size mp"
    using that assms by (intro to_int32_id) (simp add: in_int32_def)
  then show "len + fudge \<le> clip_window mp (offset - fudge)"
      "offset - fudge + clip_window mp (offset - fudge) \<le> int (length F)"
    using assms by (auto simp: clip_window_def)
qed

lemma win_okD:
  assumes "win_ok F mp"
  shows "map_p mp = map_view F (nat (map_p_offset mp)) (nat (map_p_len mp))" "0 \<le> map_p_offset mp"
    "0 \<le> map_p_len mp" "0 \<le> map_p_fd_offset mp" "map_def_window_size mp < 2 ^ 31"
    "map_file_size mp = int (length F)" "\<not> map_synthetic mp"
  using assms by (simp_all add: win_ok_def)

lemma show_window_view:
  assumes "map_p mp = map_view F (nat s) (nat w)" "0 \<le> s" "0 \<le> fudge" "0 \<le> len" "len + fudge \<le> w"
  shows "show_window mp fudge len = (map_view F (nat (s + fudge)) (nat len), mp)"
  using assms by (simp add: show_window_def seg_map_view nat_add_distrib)

lemma map_ptr_cached_ok:
  assumes ok: "win_ok F mp" and rd: "reads_file F re" and req: "0 \<le> offset" "0 < len" "len \<le> 2 ^ 30"
    and new: "\<not> (offset \<ge> map_p_offset mp \<and> offset + len \<le> map_p_offset mp + map_p_len mp)"
  shows "\<exists>mp'. map_ptr_cached re mp offset len = Inr (map_view F (nat offset) (nat len), mp') \<and> win_ok F mp'
           \<and> map_io_mode mp' = map_io_mode mp \<and> map_def_window_size mp' = map_def_window_size mp
           \<and> (offset + len \<le> int (length F) \<and> len + 1023 \<le> map_def_window_size mp \<longrightarrow> map_status mp' = map_status mp)"
proof -
  note w = win_okD [OF ok]
  define fudge where "fudge = ALIGNED_OVERSHOOT offset"
  have f: "0 \<le> fudge" "fudge \<le> offset" "fudge < 1024"
    using ALIGNED_OVERSHOOT_bounds [OF req(1)] by (simp_all add: fudge_def)
  have f32: "to_int32 (ALIGNED_OVERSHOOT offset) = fudge"
    using f by (auto simp: fudge_def in_int32_def intro: to_int32_id)
  define start where "start = offset - fudge"
  define ws where "ws = (if clip_window mp start < len + fudge then ALIGNED_LENGTH (len + fudge) else clip_window mp start)"
  have ws: "len + fudge \<le> ws" "ws < 2 ^ 31"
    using ALIGNED_LENGTH_bounds [of "len + fudge"] clip_window_int32 [OF w(5)] f req by (auto simp: ws_def)
  define p_end where "p_end = map_p_offset mp + map_p_len mp"
  define reuse where "reuse \<longleftrightarrow> start \<ge> map_p_offset mp \<and> start < p_end \<and> start + ws \<ge> p_end"
  define ro where "ro = (if reuse then p_end - start else 0)"
  have ro: "0 \<le> ro" "ro < ws" "ro \<le> map_p_len mp"
    using new ws f req w(2,3) by (auto simp: ro_def reuse_def p_end_def start_def)
  have kept: "(if reuse then seg (map_p mp) (nat (map_p_len mp - ro)) (nat ro) else []) = map_view F (nat start) (nat ro)"
  proof (cases reuse)
    case True
    then have "nat (map_p_offset mp) + nat (map_p_len mp - ro) = nat start" "nat (map_p_len mp - ro) + nat ro \<le> nat (map_p_len mp)"
      using ro w(2,3) by (simp_all add: ro_def p_end_def)
    then show ?thesis using True by (simp add: w(1) seg_map_view)
  qed (simp add: ro_def map_view_def)
  have start: "0 \<le> start" using f by (simp add: start_def)
  have rs: "(if reuse then p_end else start) = int (nat start + nat ro)"
    using start ro(1) by (auto simp: ro_def)
  let ?m0 = "mp\<lparr>map_p := map_view F (nat start) (nat ro), map_p_fd_offset := int (nat start + nat ro),
      map_p_offset := start, map_p_len := ws\<rparr>"
  obtain fd st where loop: "read_loop re ?m0 (ws - ro) = ?m0\<lparr>map_p := map_view F (nat start) (nat ws), map_p_fd_offset := fd, map_status := st\<rparr>"
    and fd: "0 \<le> fd" "start + ws \<le> int (length F) \<longrightarrow> st = map_status mp"
    using read_loop_view [OF rd, of ?m0 "nat start" "nat ro" "nat (ws - ro)"] ro start
    by (auto simp: nat_add_distrib [symmetric] nat_le_iff)
  let ?m1 = "?m0\<lparr>map_p := map_view F (nat start) (nat ws), map_p_fd_offset := fd, map_status := st\<rparr>"
  have ro32: "to_int32 (p_end - start) = ro" if reuse
    using that ro ws by (simp add: ro_def) (intro to_int32_id, simp add: in_int32_def)
  have "map_ptr_cached re mp offset len = Inr (show_window ?m1 fudge len)"
    using ro ro32 kept rs loop start
    unfolding map_ptr_cached_def Let_def f32 start_def [symmetric] ws_def [symmetric] p_end_def [symmetric] reuse_def [symmetric]
    by (cases reuse) (simp_all add: ro_def)
  moreover have "show_window ?m1 fudge len = (map_view F (nat offset) (nat len), ?m1)"
    using show_window_view [of ?m1 F start ws fudge len] f ws req start by (simp add: start_def)
  moreover have "win_ok F ?m1" using ok fd(1) start ws f req by (simp add: win_ok_def)
  moreover have "map_status ?m1 = map_status mp" if "offset + len \<le> int (length F)" "len + 1023 \<le> map_def_window_size mp"
    using window_inside [OF w(6) that(1), of fudge] that f req w(5) fd(2)
    by (simp add: ws_def start_def)
  ultimately show ?thesis by (intro exI [of _ ?m1]) simp
qed

lemma map_ptr_uncached_ok:
  assumes ok: "win_ok F mp" and rd: "preads_file F re" and req: "0 \<le> offset" "0 < len" "len \<le> 2 ^ 30"
    "offset + len \<le> int (length F)" "len + 4095 \<le> map_def_window_size mp"
  shows "\<exists>mp'. map_ptr_uncached re mp offset len = (map_view F (nat offset) (nat len), mp') \<and> win_ok F mp'
           \<and> map_io_mode mp' = map_io_mode mp \<and> map_def_window_size mp' = map_def_window_size mp
           \<and> map_status mp' = map_status mp"
proof -
  note w = win_okD [OF ok]
  define fudge where "fudge = offset AND (DIRECT_ALIGNMENT - 1)"
  have f: "0 \<le> fudge" "fudge \<le> offset" "fudge < 4096"
    using overshoot_bounds [OF req(1), of 12]
    by (simp_all add: fudge_def DIRECT_ALIGNMENT_def mask_12 [symmetric] del: mask_numeral)
  define start where "start = offset - fudge"
  define ws where "ws = clip_window mp start"
  have ws: "len + fudge \<le> ws" "start + ws \<le> int (length F)"
    using window_inside [OF w(6) req(4), of fudge] req f w(5) by (simp_all add: ws_def start_def)
  have start: "0 \<le> start" using f by (simp add: start_def)
  have "ws - 1 \<le> (ws - 1) OR 4095" by (rule or_greater_eq) simp
  then have ds: "ws \<le> DIRECT_ALIGNED_LENGTH ws" by (simp add: DIRECT_ALIGNED_LENGTH_def DIRECT_ALIGNMENT_def)
  have wspos: "0 < ws" using ws(1) req(2) f(1) by linarith
  then have got: "sys_pread re start (DIRECT_ALIGNED_LENGTH ws) = Some (seg F (nat start) (nat (DIRECT_ALIGNED_LENGTH ws)))"
    using rd start ds by (simp add: preads_file_def)
  have view: "take (nat ws) (seg F (nat start) (nat (DIRECT_ALIGNED_LENGTH ws)) @ replicate (nat ws) 0) = map_view F (nat start) (nat ws)"
    by (rule map_view_pad [symmetric]) (use ds in simp)
  have nshort: "\<not> int (length (seg F (nat start) (nat (DIRECT_ALIGNED_LENGTH ws)))) < ws"
    using ws(2) start ds by (simp add: length_seg_min)
  let ?m = "mp\<lparr>map_p := map_view F (nat start) (nat ws), map_p_offset := start, map_p_len := ws\<rparr>"
  have "map_ptr_uncached re mp offset len = show_window ?m fudge len"
    using ws nshort unfolding map_ptr_uncached_def Let_def fudge_def [symmetric] start_def [symmetric] ws_def [symmetric]
    by (simp add: got view del: take_append)
  moreover have "show_window ?m fudge len = (map_view F (nat offset) (nat len), ?m)"
    using show_window_view [of ?m F start ws fudge len] f ws req start by (simp add: start_def)
  moreover have "win_ok F ?m" using ok start wspos by (simp add: win_ok_def)
  ultimately show ?thesis by (intro exI [of _ ?m]) simp
qed

definition page_of :: "rd_env \<Rightarrow> int" where
  "page_of re = (if sys_page_size re \<le> 0 then 4096 else sys_page_size re)"

lemma map_ptr_mapped_ok:
  assumes ok: "win_ok F mp" and rd: "maps_file F re" and req: "0 \<le> offset" "0 < len" "len \<le> 2 ^ 30"
    "offset + len \<le> int (length F)" "len + page_of re \<le> map_def_window_size mp"
  shows "\<exists>mp'. map_ptr_mapped re mp offset len = Inr (map_view F (nat offset) (nat len), mp') \<and> win_ok F mp'
           \<and> map_io_mode mp' = map_io_mode mp \<and> map_def_window_size mp' = map_def_window_size mp
           \<and> map_status mp' = map_status mp"
proof -
  note w = win_okD [OF ok]
  have page: "0 < page_of re" by (simp add: page_of_def)
  define fudge where "fudge = offset mod page_of re"
  have f: "0 \<le> fudge" "fudge < page_of re" "fudge \<le> offset"
    using page req(1) zmod_le_nonneg_dividend [of offset "page_of re"] by (simp_all add: fudge_def)
  define start where "start = offset - fudge"
  define ws where "ws = clip_window mp start"
  have ws: "len + fudge \<le> ws" "start + ws \<le> int (length F)"
    using window_inside [OF w(6) req(4), of fudge] req f w(5) by (simp_all add: ws_def start_def)
  have start: "0 \<le> start" using f by (simp add: start_def)
  have wspos: "0 < ws" using ws(1) req(2) f(1) by linarith
  have view: "sys_mmap re start ws = Some (map_view F (nat start) (nat ws))"
    using rd start wspos ws(2) by (simp add: maps_file_def map_view_seg)
  let ?m = "mp\<lparr>map_p := map_view F (nat start) (nat ws), map_p_offset := start, map_p_len := ws\<rparr>"
  have "map_ptr_mapped re mp offset len = Inr (show_window ?m fudge len)"
    using ws unfolding map_ptr_mapped_def Let_def page_of_def [symmetric] fudge_def [symmetric] start_def [symmetric] ws_def [symmetric]
    by (simp add: view)
  moreover have "show_window ?m fudge len = (map_view F (nat offset) (nat len), ?m)"
    using show_window_view [of ?m F start ws fudge len] f ws req start by (simp add: start_def)
  moreover have "win_ok F ?m" using ok start wspos by (simp add: win_ok_def)
  ultimately show ?thesis by (intro exI [of _ ?m]) simp
qed

text \<open>The contract of a window for its clients, and what any sequence of requests then gives.\<close>

primrec get_many :: "('s \<Rightarrow> int \<Rightarrow> int \<Rightarrow> rerr + (byte list \<times> 's)) \<Rightarrow> 's \<Rightarrow> (int \<times> int) list \<Rightarrow> rerr + (byte list list \<times> 's)" where
  "get_many get s [] = Inr ([], s)"
| "get_many get s (r # rs) =
     (case get s (fst r) (snd r) of Inl e \<Rightarrow> Inl e
      | Inr (b, s1) \<Rightarrow> (case get_many get s1 rs of Inl e \<Rightarrow> Inl e | Inr (bs, s2) \<Rightarrow> Inr (b # bs, s2)))"

locale file_window =
  fixes get :: "'s \<Rightarrow> int \<Rightarrow> int \<Rightarrow> rerr + (byte list \<times> 's)"
    and inv :: "byte list \<Rightarrow> int \<Rightarrow> 's \<Rightarrow> bool"
  assumes get_ok: "inv F m s \<Longrightarrow> req_ok F off n \<Longrightarrow> n \<le> m \<Longrightarrow>
    \<exists>s'. get s off n = Inr (seg F (nat off) (nat n), s') \<and> inv F m s'"
begin

lemma get_many_ok:
  "inv F m s \<Longrightarrow> list_all (\<lambda>(off, n). req_ok F off n \<and> n \<le> m) rs \<Longrightarrow>
   \<exists>s'. get_many get s rs = Inr (map (\<lambda>(off, n). seg F (nat off) (nat n)) rs, s') \<and> inv F m s'"
proof (induction rs arbitrary: s)
  case (Cons r rs)
  obtain off n where r: "r = (off, n)" by (cases r)
  from Cons.prems get_ok [of F m s off n] r obtain s1 where
    1: "get s off n = Inr (seg F (nat off) (nat n), s1)" "inv F m s1" by auto
  from Cons.IH [OF 1(2)] Cons.prems(2) obtain s2 where
    "get_many get s1 rs = Inr (map (\<lambda>(off, n). seg F (nat off) (nat n)) rs, s2)" "inv F m s2" by auto
  with 1 r show ?case by simp
qed simp

end

definition win_inv :: "rd_env \<Rightarrow> byte list \<Rightarrow> int \<Rightarrow> map_struct \<Rightarrow> bool" where
  "win_inv re F m mp \<longleftrightarrow> serves F re mp \<and> m + max 4095 (page_of re) \<le> map_def_window_size mp \<and> \<not> map_status mp"

lemma map_ptr_ok:
  assumes inv: "win_inv re F m mp" and req: "req_ok F offset len" "len \<le> m"
  shows "\<exists>mp'. map_ptr re mp offset len = Inr (seg F (nat offset) (nat len), mp') \<and> win_inv re F m mp'"
proof -
  have ok: "win_ok F mp" using inv by (simp add: win_inv_def serves_def)
  note w = win_okD [OF ok]
  have r: "0 \<le> offset" "0 \<le> len" "len \<le> 2 ^ 30" "offset + len \<le> int (length F)" using req by (simp_all add: req_ok_def)
  have mv: "map_view F (nat offset) (nat len) = seg F (nat offset) (nat len)"
    using r by (intro map_view_seg) simp
  consider "len = 0" | "0 < len" "offset \<ge> map_p_offset mp \<and> offset + len \<le> map_p_offset mp + map_p_len mp"
    | "0 < len" "\<not> (offset \<ge> map_p_offset mp \<and> offset + len \<le> map_p_offset mp + map_p_len mp)"
    using r(2) by linarith
  then show ?thesis
  proof cases
    case 1
    then show ?thesis using inv by (simp add: map_ptr_def)
  next
    case 2
    then show ?thesis using inv show_window_view [OF w(1,2), of "offset - map_p_offset mp" len] r mv
      by (simp add: map_ptr_def)
  next
    case 3
    show ?thesis
    proof (cases "map_io_mode mp")
      case SOURCE_IO_CACHED
      with inv have "reads_file F re" by (simp add: win_inv_def serves_def)
      from map_ptr_cached_ok [OF ok this r(1) 3(1) r(3) 3(2)] SOURCE_IO_CACHED inv r(4) req(2) mv show ?thesis
        using 3 w(7) by (auto simp: map_ptr_def win_inv_def serves_def)
    next
      case SOURCE_IO_UNCACHED
      with inv have "preads_file F re" by (simp add: win_inv_def serves_def)
      moreover have "len + 4095 \<le> map_def_window_size mp" using inv req(2) by (auto simp: win_inv_def max_def split: if_splits)
      ultimately show ?thesis
        using map_ptr_uncached_ok [OF ok _ r(1) 3(1) r(3,4)] SOURCE_IO_UNCACHED inv mv 3 w(7)
        by (fastforce simp: map_ptr_def win_inv_def serves_def)
    next
      case SOURCE_IO_MAPPED
      with inv have "maps_file F re" by (simp add: win_inv_def serves_def)
      moreover have "len + page_of re \<le> map_def_window_size mp" using inv req(2) by (auto simp: win_inv_def max_def split: if_splits)
      ultimately show ?thesis
        using map_ptr_mapped_ok [OF ok _ r(1) 3(1) r(3,4)] SOURCE_IO_MAPPED inv mv 3 w(7)
        by (fastforce simp: map_ptr_def win_inv_def serves_def)
    qed
  qed
qed

interpretation window: file_window "map_ptr re" "win_inv re" for re
  by unfold_locales (rule map_ptr_ok)

text \<open>A fresh window has the invariant.\<close>

lemma ALIGNED_LENGTH_ge: "x \<le> ALIGNED_LENGTH x"
proof -
  have "x - 1 \<le> (x - 1) OR 1023" by (rule or_greater_eq) simp
  then show ?thesis by (simp add: ALIGNED_LENGTH_def ALIGN_BOUNDARY_def)
qed

definition conf_fits :: "map_conf \<Rightarrow> int \<Rightarrow> int \<Rightarrow> bool" where
  "conf_fits mc read_size blk_size \<longleftrightarrow> 0 < read_size \<and> read_size \<le> 2 ^ 29 \<and> 0 \<le> blk_size \<and> blk_size \<le> 2 ^ 29
     \<and> disk_read_size mc \<le> 2 ^ 29 \<and> \<not> (mc_am_sender mc \<and> 0 \<le> synthetic_file_size mc)"

definition serves_mode :: "byte list \<Rightarrow> rd_env \<Rightarrow> source_io \<Rightarrow> bool" where
  "serves_mode F re mode \<longleftrightarrow> (case mode of SOURCE_IO_CACHED \<Rightarrow> reads_file F re
     | SOURCE_IO_UNCACHED \<Rightarrow> preads_file F re | SOURCE_IO_MAPPED \<Rightarrow> maps_file F re)"

lemma map_file_inv:
  assumes fit: "conf_fits mc read_size blk_size" and m: "m + max 4095 (page_of re) \<le> min read_size MAPPED_WINDOW_SIZE"
    and sv: "serves_mode F re (if mc_am_sender mc then source_io_mode mc else SOURCE_IO_CACHED)"
  shows "win_inv re F m (map_file mc (int (length F)) read_size blk_size)"
proof -
  define mode where "mode = (if mc_am_sender mc then source_io_mode mc else SOURCE_IO_CACHED)"
  define rs1 where "rs1 = (if mc_am_sender mc then (if mode = SOURCE_IO_MAPPED then MAPPED_WINDOW_SIZE
      else if read_size < disk_read_size mc then disk_read_size mc else read_size) else read_size)"
  define rs2 where "rs2 = (if blk_size \<noteq> 0 \<and> rs1 mod blk_size \<noteq> 0 then rs1 + (blk_size - rs1 mod blk_size) else rs1)"
  have rs1: "min read_size MAPPED_WINDOW_SIZE \<le> rs1" "0 < rs1" "rs1 \<le> 2 ^ 29"
    using fit by (auto simp: rs1_def conf_fits_def MAPPED_WINDOW_SIZE_def)
  have b: "0 \<le> rs1 mod blk_size" "rs1 mod blk_size < blk_size" if "blk_size \<noteq> 0"
    using that fit by (simp_all add: conf_fits_def)
  have blk: "blk_size \<le> 2 ^ 29" using fit by (simp add: conf_fits_def)
  have rs2: "rs1 \<le> rs2" "rs2 \<le> 2 ^ 30"
    using b rs1 blk by (cases "blk_size = 0"; simp add: rs2_def)+
  have al: "rs2 \<le> ALIGNED_LENGTH rs2" "ALIGNED_LENGTH rs2 < 2 ^ 31"
    using ALIGNED_LENGTH_bounds [of rs2] rs1 rs2 by simp_all
  have mp: "map_file mc (int (length F)) read_size blk_size =
      \<lparr>map_file_size = int (length F), map_p_offset = 0, map_p_fd_offset = 0, map_p = [], map_p_len = 0,
       map_def_window_size = ALIGNED_LENGTH rs2, map_status = False, map_io_mode = mode, map_synthetic = False\<rparr>"
    using fit unfolding map_file_def Let_def mode_def [symmetric] rs1_def rs2_def conf_fits_def by auto
  have "m + max 4095 (page_of re) \<le> ALIGNED_LENGTH rs2" using m rs1(1) rs2(1) al(1) by linarith
  then show ?thesis using sv al rs1 rs2
    by (simp add: mp win_inv_def serves_def serves_mode_def win_ok_def mode_def map_view_def)
qed

text \<open>A kernel whose reads stop after \<open>k\<close> bytes.\<close>

definition short_reads :: "nat \<Rightarrow> byte list \<Rightarrow> rd_env" where
  "short_reads k F = \<lparr>sys_read = (\<lambda>pos n. Some (seg F (nat pos) (min k (nat n)))),
     sys_pread = (\<lambda>pos n. Some (seg F (nat pos) (nat n))),
     sys_mmap = (\<lambda>pos n. Some (seg F (nat pos) (nat n))), sys_page_size = 4096\<rparr>"

lemma short_reads_file: "0 < k \<Longrightarrow> reads_file F (short_reads k F)"
proof (unfold reads_file_def, intro allI impI)
  fix pos n :: int
  assume a: "0 < k" "0 \<le> pos" "0 < n"
  let ?j = "min (min k (nat n)) (length F - nat pos)"
  have "seg F (nat pos) (min k (nat n)) = seg F (nat pos) ?j" by (auto simp: seg_def min_def)
  then show "\<exists>j. sys_read (short_reads k F) pos n = Some (seg F (nat pos) j) \<and> nat pos + j \<le> max (nat pos) (length F)
      \<and> int j \<le> n \<and> (j = 0 \<longrightarrow> length F \<le> nat pos)"
    using a by (intro exI [of _ ?j]) (auto simp: short_reads_def)
qed

section \<open>Properties of the window\<close>

text \<open>
  C15: opening a file of any mode but synthetic with \<^verbatim>\<open>map_file\<close> and then asking \<^verbatim>\<open>map_ptr\<close> for any sequence of ranges inside
  the file gives exactly the bytes of the file, whatever window was left by earlier requests and
  however short the reads are, and \<^verbatim>\<open>unmap_file\<close> reports no error. The ranges are no longer than \<open>m\<close>, which leaves room in the read
  size, and in the 8 MiB of a mapped window, for the alignment of a request: 4095 bytes or a page. A longer range can make the window pass the
  end of the file, which is then counted as a read error; the callers ask for less than their read size.
\<close>

theorem map_ptr_sequence:
  assumes "conf_fits mc read_size blk_size"
    and "serves_mode F re (if mc_am_sender mc then source_io_mode mc else SOURCE_IO_CACHED)"
    and "m + max 4095 (page_of re) \<le> min read_size MAPPED_WINDOW_SIZE"
    and "list_all (\<lambda>(off, n). req_ok F off n \<and> n \<le> m) rs"
  shows "\<exists>mp. get_many (map_ptr re) (map_file mc (int (length F)) read_size blk_size) rs
                = Inr (map (\<lambda>(off, n). seg F (nat off) (nat n)) rs, mp) \<and> \<not> unmap_file mp"
  using window.get_many_ok [OF map_file_inv [OF assms(1,3,2)] assms(4)]
  by (auto simp: win_inv_def unmap_file_def)

theorem map_ptr_sequence_witness:
  "\<exists>mp. get_many (map_ptr (short_reads 2 [7, 8, 9, 10, 11]))
           (map_file \<lparr>mc_am_sender = False, source_io_mode = SOURCE_IO_CACHED, synthetic_file_size = -1, disk_read_size = 0\<rparr>
              5 262144 700) [(3, 2), (0, 4)]
         = Inr ([[10, 11], [7, 8, 9, 10]], mp) \<and> \<not> unmap_file mp"
  using map_ptr_sequence [of "\<lparr>mc_am_sender = False, source_io_mode = SOURCE_IO_CACHED, synthetic_file_size = -1, disk_read_size = 0\<rparr>"
      262144 700 "[7, 8, 9, 10, 11]" "short_reads 2 [7, 8, 9, 10, 11]" 1000 "[(3, 2), (0, 4)]"]
    short_reads_file [of 2 "[7, 8, 9, 10, 11]"]
  by (simp add: conf_fits_def serves_mode_def page_of_def short_reads_def req_ok_def seg_def MAPPED_WINDOW_SIZE_def)

text \<open>
  C33: a cached window answers every request of positive length, also one past the end of the file,
  where the bytes that are missing read as zeros; the exits for a bad read size or a failed seek are
  never taken.
\<close>

theorem map_ptr_zero_fill:
  assumes "win_ok F mp" "map_io_mode mp = SOURCE_IO_CACHED" "reads_file F re" "0 \<le> offset" "0 < len" "len \<le> 2 ^ 30"
  shows "\<exists>mp'. map_ptr re mp offset len = Inr (map_view F (nat offset) (nat len), mp') \<and> win_ok F mp'"
proof (cases "offset \<ge> map_p_offset mp \<and> offset + len \<le> map_p_offset mp + map_p_len mp")
  case True
  note w = win_okD [OF assms(1)]
  from True show ?thesis using assms show_window_view [OF w(1,2), of "offset - map_p_offset mp" len]
    by (simp add: map_ptr_def)
next
  case False
  from map_ptr_cached_ok [OF assms(1,3,4,5,6) False] show ?thesis
    using assms False win_okD(7) [OF assms(1)] by (auto simp: map_ptr_def)
qed

theorem map_ptr_zero_fill_witness:
  "\<exists>mp'. map_ptr (short_reads 1 [7, 8]) (map_file \<lparr>mc_am_sender = False, source_io_mode = SOURCE_IO_CACHED,
      synthetic_file_size = -1, disk_read_size = 0\<rparr> 2 1024 0) 1 3 = Inr ([8, 0, 0], mp') \<and> win_ok [7, 8] mp'"
proof -
  let ?mp = "map_file \<lparr>mc_am_sender = False, source_io_mode = SOURCE_IO_CACHED,
      synthetic_file_size = -1, disk_read_size = 0\<rparr> 2 1024 0"
  have "win_ok [7, 8] ?mp"
    by (simp add: win_ok_def map_file_def ALIGNED_LENGTH_def ALIGN_BOUNDARY_def map_view_def)
  moreover have "map_io_mode ?mp = SOURCE_IO_CACHED" by (simp add: map_file_def)
  ultimately show ?thesis
    using map_ptr_zero_fill [of "[7, 8]" ?mp "short_reads 1 [7, 8]" 1 3] short_reads_file [of 1 "[7, 8]"]
    by (simp add: map_view_def numeral_eq_Suc)
qed

text \<open>The counter pattern of a synthetic file.\<close>

definition counter_bytes :: "int \<Rightarrow> nat \<Rightarrow> byte list" where
  "counter_bytes s n = map (\<lambda>i. word_of_int (s + int i)) [0..<n]"

lemma length_counter_bytes [simp]: "length (counter_bytes s n) = n"
  by (simp add: counter_bytes_def)

lemma counter_bytes_append: "counter_bytes s m @ counter_bytes (s + int m) n = counter_bytes s (m + n)"
  by (rule nth_equalityI) (auto simp: counter_bytes_def nth_append algebra_simps)

lemma seg_counter_bytes: "a + m \<le> n \<Longrightarrow> seg (counter_bytes s n) a m = counter_bytes (s + int a) m"
  by (rule nth_equalityI) (simp_all add: counter_bytes_def algebra_simps)

lemma length_counter_pattern: "length counter_pattern = 256"
  by (simp only: counter_pattern_def length_map length_upt)

lemma nth_counter_pattern: "i < 256 \<Longrightarrow> counter_pattern ! i = word_of_nat i"
  by (simp only: counter_pattern_def nth_map length_upt nth_upt) simp

lemma seg_counter_pattern:
  assumes "nat (x AND 0xff) + m \<le> 256" shows "seg counter_pattern (nat (x AND 0xff)) m = counter_bytes x m"
proof (rule nth_equalityI)
  have "x AND mask 8 = x mod 256" by (simp add: take_bit_eq_mod flip: take_bit_eq_mask)
  moreover have "mask 8 = (0xff :: int)" by (simp add: mask_eq_exp_minus_1)
  ultimately have and_mod: "x AND 0xff = x mod 256" by (simp only:)
  fix i assume "i < length (seg counter_pattern (nat (x AND 0xff)) m)"
  then have i: "i < m" "nat (x AND 0xff) + i < 256" using assms by (auto simp: length_seg_min length_counter_pattern)
  have "(word_of_int (x mod 256 + int i) :: byte) = word_of_int (x + int i)"
    by (simp add: word_of_int_eq_iff take_bit_eq_mod mod_simps)
  moreover have "(word_of_int (x mod 256 + int i) :: byte) = word_of_nat (nat (x mod 256) + i)"
  proof -
    have "x mod 256 + int i = int (nat (x mod 256) + i)" by simp
    then show ?thesis by (simp only: of_int_of_nat_eq)
  qed
  ultimately show "seg counter_pattern (nat (x AND 0xff)) m ! i = counter_bytes x m ! i"
    using i unfolding and_mod by (simp add: nth_counter_pattern counter_bytes_def length_counter_pattern)
qed (use assms in \<open>simp add: length_counter_pattern length_seg_min\<close>)

lemma fill_pattern_counter: "fill_pattern start j w = counter_bytes (start + j) (nat (w - j))"
proof (induction start j w rule: fill_pattern.induct)
  case (1 start j w)
  show ?case
  proof (cases "j < w")
    case True
    define po where "po = (start + j) AND 0xff"
    define amount where "amount = min (w - j) (256 - po)"
    have po: "0 \<le> po" "po \<le> 255" by (simp_all add: po_def)
    have am: "0 < amount" "amount \<le> w - j" "po + amount \<le> 256" using po True by (auto simp: amount_def)
    have "seg counter_pattern (nat po) (nat amount) = counter_bytes (start + j) (nat amount)"
      unfolding po_def by (rule seg_counter_pattern) (use po am in \<open>simp add: po_def [symmetric]\<close>)
    moreover have "fill_pattern start (j + amount) w = counter_bytes (start + (j + amount)) (nat (w - (j + amount)))"
      by (rule 1) (simp_all add: True po_def amount_def)
    moreover have "counter_bytes (start + j) (nat amount) @ counter_bytes (start + j + int (nat amount)) (nat (w - (j + amount)))
        = counter_bytes (start + j) (nat (w - j))"
      using am by (simp only: counter_bytes_append) (simp add: nat_add_distrib [symmetric])
    ultimately show ?thesis using True am
      by (subst fill_pattern.simps) (simp add: Let_def po_def [symmetric] amount_def [symmetric] add.assoc)
  qed (simp add: fill_pattern.simps counter_bytes_def)
qed

definition synth_ok :: "map_struct \<Rightarrow> bool" where
  "synth_ok mp \<longleftrightarrow> map_synthetic mp \<and> 0 \<le> map_p_len mp
     \<and> map_p mp = counter_bytes (map_p_offset mp) (nat (map_p_len mp))"

text \<open>
  a window onto a synthetic file gives, for every range, the counter pattern: the byte at a file
  position is the position modulo 256, in whatever order the ranges are asked for.
\<close>

theorem synthetic_window:
  assumes "synth_ok mp" "0 \<le> offset" "0 < len"
  shows "\<exists>mp'. map_ptr re mp offset len = Inr (counter_bytes offset (nat len), mp') \<and> synth_ok mp'"
proof (cases "offset \<ge> map_p_offset mp \<and> offset + len \<le> map_p_offset mp + map_p_len mp")
  case True
  then have "seg (map_p mp) (nat (offset - map_p_offset mp)) (nat len) = counter_bytes offset (nat len)"
    using assms by (simp add: synth_ok_def) (subst seg_counter_bytes, auto simp: nat_add_distrib [symmetric] nat_le_iff)
  then show ?thesis using True assms by (simp add: map_ptr_def show_window_def)
next
  case False
  define start where "start = offset - ALIGNED_OVERSHOOT offset"
  have st: "0 \<le> offset - start" using ALIGNED_OVERSHOOT_bounds [OF assms(2)] by (simp add: start_def)
  define ws where "ws = (if clip_window mp start < len + (offset - start)
      then ALIGNED_LENGTH (len + (offset - start)) else clip_window mp start)"
  have ws: "len + (offset - start) \<le> ws"
    using ALIGNED_LENGTH_ge [of "len + (offset - start)"] by (simp add: ws_def)
  let ?m = "mp\<lparr>map_p := counter_bytes start (nat ws), map_p_offset := start, map_p_len := ws\<rparr>"
  have "map_ptr_synthetic mp offset len = (seg (counter_bytes start (nat ws)) (nat (offset - start)) (nat len), ?m)"
    unfolding map_ptr_synthetic_def Let_def start_def [symmetric] ws_def [symmetric]
    by (simp add: show_window_def fill_pattern_counter)
  moreover have "seg (counter_bytes start (nat ws)) (nat (offset - start)) (nat len) = counter_bytes offset (nat len)"
    using ws st assms(3) by (subst seg_counter_bytes) (simp_all add: nat_add_distrib [symmetric])
  moreover have "synth_ok ?m" using assms(1,3) ws st by (simp add: synth_ok_def)
  ultimately show ?thesis using False assms by (intro exI [of _ ?m]) (auto simp: map_ptr_def synth_ok_def)
qed

theorem synthetic_window_witness:
  "\<exists>mp'. map_ptr (short_reads 1 []) (map_file \<lparr>mc_am_sender = True, source_io_mode = SOURCE_IO_CACHED,
      synthetic_file_size = 5000, disk_read_size = 0\<rparr> 5000 1024 0) 254 4 = Inr ([254, 255, 0, 1], mp') \<and> synth_ok mp'"
proof -
  have "counter_bytes 254 (nat 4) = [254, 255, 0, 1]" by code_simp
  then show ?thesis
    using synthetic_window [of "map_file \<lparr>mc_am_sender = True, source_io_mode = SOURCE_IO_CACHED,
        synthetic_file_size = 5000, disk_read_size = 0\<rparr> 5000 1024 0" 254 4 "short_reads 1 []"]
    by (simp add: synth_ok_def map_file_def counter_bytes_def)
qed

end
