(* ===== verification/Rdma.thy ===== *)
theory Rdma
  imports Fileio
begin

unbundle bit_operations_syntax

text \<open>
  The RDMA data path of \<^verbatim>\<open>rdma.c\<close>: the framing of messages, the send ring and its slots, the striping of
  messages over rails and the receiving side. The verbs library and the adapter are not part of the source.
  They are seen through their queues, part of the state of a path: work requests are transmitted and completed in the
  order in which they were posted, and messages arrive in order. Where a call of the library fails is given by
  two functions, fields of the path.
\<close>

section \<open>Definitions\<close>

definition RDMA_CTL_MAGIC :: uint32 where "RDMA_CTL_MAGIC = 0x52444d41"
definition RDMA_CTL_VERSION :: int where "RDMA_CTL_VERSION = 1"
definition RDMA_DATA_MAGIC :: uint32 where "RDMA_DATA_MAGIC = 0x52444244"
definition RDMA_MAX_CANDIDATES :: int where "RDMA_MAX_CANDIDATES = 8"
definition RDMA_MAX_RAILS :: int where "RDMA_MAX_RAILS = 2"
definition RDMA_NAME_LEN :: nat where "RDMA_NAME_LEN = 64"
definition RDMA_REASON_LEN :: nat where "RDMA_REASON_LEN = 240"
definition RDMA_COOKIE_LEN :: nat where "RDMA_COOKIE_LEN = 16"

subsection \<open>Messages\<close>

text \<open>\<^verbatim>\<open>htonl\<close> followed by a copy to memory, and back.\<close>

definition put_u32 :: "uint32 \<Rightarrow> byte list" where
  "put_u32 v = [ucast (drop_bit 24 v), ucast (drop_bit 16 v), ucast (drop_bit 8 v), ucast v]"

definition get_u32 :: "byte list \<Rightarrow> uint32" where
  "get_u32 b = push_bit 24 (ucast (b ! 0)) OR push_bit 16 (ucast (b ! 1)) OR push_bit 8 (ucast (b ! 2)) OR ucast (b ! 3)"

definition header_size :: nat where "header_size = 16"

definition encode_header :: "uint32 \<Rightarrow> uint64 \<Rightarrow> uint32 \<Rightarrow> byte list" where
  "encode_header magic seqn len =
     put_u32 magic @ put_u32 len @ put_u32 (ucast (drop_bit 32 seqn)) @ put_u32 (ucast seqn)"

definition header_magic :: "byte list \<Rightarrow> uint32" where "header_magic h = get_u32 h"
definition header_length :: "byte list \<Rightarrow> uint32" where "header_length h = get_u32 (drop 4 h)"

definition decode_seq :: "byte list \<Rightarrow> uint64" where
  "decode_seq h = push_bit 32 (ucast (get_u32 (drop 8 h))) OR ucast (get_u32 (drop 12 h))"

subsection \<open>The sending side\<close>

text \<open>
  One path: the memory of the ring's slots, the phases of their synthetic contents (\<open>-1\<close> when none), the
  sends not yet seen completed, the counter of slots, a 32-bit number, and the queue pair: the posted
  requests (slot and length) not yet transmitted, and what has gone out on the wire. \<open>cq_fails\<close> and \<open>sq_fails\<close> say
  at which values of the counter the library gives no good completion (\<^verbatim>\<open>ibv_poll_cq\<close> fails, reports a failed request, or
  nothing until the timeout), and at which it refuses a request (\<^verbatim>\<open>ibv_post_send\<close>).
\<close>

record rdma_path =
  rp_ring :: "nat \<Rightarrow> byte list"
  synthetic_phase :: "nat \<Rightarrow> int"
  outstanding :: nat
  next_slot :: uint32
  rp_queue :: "(nat \<times> nat) list"
  rp_wire :: "byte list list"
  cq_fails :: "uint32 \<Rightarrow> bool"
  sq_fails :: "uint32 \<Rightarrow> bool"

text \<open>The adapter transmits the oldest request, reading the slot's memory as it is now.\<close>

definition nic_send :: "rdma_path \<Rightarrow> rdma_path" where
  "nic_send p = (case rp_queue p of [] \<Rightarrow> p
     | (slt, len) # q \<Rightarrow> p\<lparr>rp_queue := q, rp_wire := rp_wire p @ [take len (rp_ring p slt)]\<rparr>)"

text \<open>
  \<^verbatim>\<open>poll_completion\<close>: a request already transmitted is completed at once; otherwise the oldest one is
  waited for. With no request there is only the timeout.
\<close>

definition poll_completion :: "rdma_path \<Rightarrow> rdma_path option" where
  "poll_completion p =
     (if cq_fails p (next_slot p) then None
      else if length (rp_queue p) < outstanding p then Some p
      else if rp_queue p \<noteq> [] then Some (nic_send p)
      else None)"

text \<open>
  \<^verbatim>\<open>fill_counter_data\<close>, with its three stages: up to a full cycle, then doubling. The doubling starts from at
  least one byte, and the chunk size below is at least 4096; the tests for 0 only make the loops total.
\<close>

function double_fill :: "byte list \<Rightarrow> nat \<Rightarrow> byte list" where
  "double_fill buf len =
     (if length buf < len \<and> buf \<noteq> [] then double_fill (buf @ take (min (length buf) (len - length buf)) buf) len else buf)"
  by pat_completeness auto
termination
proof (relation "measure (\<lambda>(buf, len). len - length buf)", goal_cases)
  case (2 buf len)
  then have "0 < length buf" "length buf < len" by simp_all
  then have "len - (length buf + min (length buf) (len - length buf)) < len - length buf" by linarith
  then show ?case by simp
qed simp

declare double_fill.simps [simp del]

definition fill_counter_data :: "int \<Rightarrow> nat \<Rightarrow> byte list" where
  "fill_counter_data offset len =
     (let start = nat (offset AND 0xff);
          initial = min len (256 - start);
          b1 = seg counter_pattern start initial;
          b2 = (if length b1 < len then b1 @ take (min (len - length b1) (256 - length b1)) counter_pattern else b1)
      in double_fill b2 len)"

text \<open>A payload written behind the header leaves the rest of the slot as it was.\<close>

definition fill_slot :: "byte list \<Rightarrow> byte list \<Rightarrow> byte list \<Rightarrow> byte list" where
  "fill_slot old hdr payload = hdr @ payload @ drop (header_size + length payload) old"

text \<open>
  \<^verbatim>\<open>post_data_send\<close> with the data \<open>buf\<close>, or \<open>None\<close> for synthetic data; \<open>None\<close> as result is the error return.
  The failure injected by a test variable is left out.
\<close>

definition post_data_send :: "nat \<Rightarrow> rdma_path \<Rightarrow> byte list option \<Rightarrow> int \<Rightarrow> nat \<Rightarrow> uint64 \<Rightarrow> rdma_path option" where
  "post_data_send depth p buf synthetic_offset len seqn =
     (case (if outstanding p \<ge> depth
            then (case poll_completion p of None \<Rightarrow> None | Some p1 \<Rightarrow> Some (p1\<lparr>outstanding := outstanding p1 - 1\<rparr>))
            else Some p) of
        None \<Rightarrow> None
      | Some p1 \<Rightarrow>
          (let slt = unat (next_slot p1) mod depth;
               hdr = encode_header RDMA_DATA_MAGIC seqn (word_of_nat len);
               old = rp_ring p1 slt;
               phase = synthetic_offset AND 0xff;
               (slot_mem, phases) =
                 (case buf of
                    Some b \<Rightarrow> (fill_slot old hdr b, synthetic_phase p1)
                  | None \<Rightarrow> if synthetic_phase p1 slt \<noteq> phase
                            then (fill_slot old hdr (fill_counter_data synthetic_offset len), (synthetic_phase p1)(slt := phase))
                            else (fill_slot old hdr (seg old header_size len), synthetic_phase p1))
           in if sq_fails p1 (next_slot p1) then None
              else Some (p1\<lparr>next_slot := next_slot p1 + 1, rp_ring := (rp_ring p1)(slt := slot_mem), synthetic_phase := phases,
                            rp_queue := rp_queue p1 @ [(slt, header_size + len)], outstanding := outstanding p1 + 1\<rparr>)))"

text \<open>The sending transport: its tuning, its paths, and the counters.\<close>

record rdma_tx =
  tx_chunk :: nat
  tx_depth :: nat
  tx_rails :: nat
  tx_paths :: "nat \<Rightarrow> rdma_path"
  send_seq :: uint64
  tx_data_bytes :: nat
  tx_data_messages :: nat

definition send_message :: "rdma_tx \<Rightarrow> byte list option \<Rightarrow> int \<Rightarrow> nat \<Rightarrow> rerr + rdma_tx" where
  "send_message t buf off amount =
     (let r = unat (send_seq t) mod tx_rails t
      in case post_data_send (tx_depth t) (tx_paths t r) buf off amount (send_seq t) of
           None \<Rightarrow> Inl RERR_STREAMIO
         | Some p \<Rightarrow> Inr (t\<lparr>tx_paths := (tx_paths t)(r := p), send_seq := send_seq t + 1,
                            tx_data_bytes := tx_data_bytes t + amount, tx_data_messages := tx_data_messages t + 1\<rparr>))"

function rdma_send_data :: "rdma_tx \<Rightarrow> byte list \<Rightarrow> rerr + rdma_tx" where
  "rdma_send_data t buf =
     (if buf \<noteq> [] \<and> tx_chunk t > 0
      then (let amount = min (length buf) (tx_chunk t)
            in case send_message t (Some (take amount buf)) 0 amount of
                 Inl e \<Rightarrow> Inl e | Inr t1 \<Rightarrow> rdma_send_data t1 (drop amount buf))
      else Inr t)"
  by pat_completeness auto
termination by (relation "measure (\<lambda>(t, buf). length buf)") (auto simp: min_def)

function rdma_send_synthetic :: "rdma_tx \<Rightarrow> int \<Rightarrow> nat \<Rightarrow> rerr + rdma_tx" where
  "rdma_send_synthetic t offset len =
     (if len > 0 \<and> tx_chunk t > 0
      then (let amount = min len (tx_chunk t)
            in case send_message t None offset amount of
                 Inl e \<Rightarrow> Inl e | Inr t1 \<Rightarrow> rdma_send_synthetic t1 (offset + int amount) (len - amount))
      else Inr t)"
  by pat_completeness auto
termination by (relation "measure (\<lambda>(t, off, len). len)") auto

declare rdma_send_data.simps [simp del] rdma_send_synthetic.simps [simp del]

subsection \<open>The receiving side\<close>

text \<open>
  One path: the messages that arrive, in order, the slots posted to receive them, the ring's memory,
  and the message being read (\<^verbatim>\<open>current_recv_slot\<close>, \<open>None\<close> for -1). Nothing arriving stands for a timeout or a failed completion; a
  slot can always be posted again.
\<close>

record rdma_rpath =
  rr_arriving :: "byte list list"
  rr_posted :: "nat list"
  rr_ring :: "nat \<Rightarrow> byte list"
  current_recv_slot :: "nat option"
  current_recv_length :: nat
  current_recv_offset :: nat

record rdma_rx =
  rx_chunk :: nat
  rx_depth :: nat
  rx_rails :: nat
  rx_paths :: "nat \<Rightarrow> rdma_rpath"
  recv_seq :: uint64
  rx_data_bytes :: nat
  rx_data_messages :: nat

definition post_receive_slot :: "rdma_rpath \<Rightarrow> nat \<Rightarrow> rdma_rpath" where
  "post_receive_slot p slt = p\<lparr>rr_posted := rr_posted p @ [slt]\<rparr>"

text \<open>A completed receive: the next message lands in the oldest posted slot.\<close>

definition poll_receive :: "rdma_rpath \<Rightarrow> (nat \<times> nat \<times> rdma_rpath) option" where
  "poll_receive p = (case (rr_arriving p, rr_posted p) of
       (msg # ms, slt # ss) \<Rightarrow>
         Some (slt, length msg, p\<lparr>rr_arriving := ms, rr_posted := ss, rr_ring := (rr_ring p)(slt := msg)\<rparr>)
     | _ \<Rightarrow> None)"

definition begin_receive_message :: "nat \<Rightarrow> nat \<Rightarrow> rdma_rpath \<Rightarrow> uint64 \<Rightarrow> rdma_rpath option" where
  "begin_receive_message chunk depth p expected_seq =
     (case poll_receive p of
        None \<Rightarrow> None
      | Some (slt, byte_len, p1) \<Rightarrow>
          if slt \<ge> depth \<or> byte_len < header_size then None
          else (let header = rr_ring p1 slt; len = unat (header_length header)
                in if header_magic header \<noteq> RDMA_DATA_MAGIC \<or> decode_seq header \<noteq> expected_seq
                      \<or> len > chunk \<or> byte_len \<noteq> header_size + len then None
                   else Some (p1\<lparr>current_recv_slot := Some slt, current_recv_length := len, current_recv_offset := 0\<rparr>)))"

definition rx_path :: "rdma_rx \<Rightarrow> nat" where
  "rx_path t = unat (recv_seq t) mod rx_rails t"

definition release_exhausted_receive :: "rdma_rx \<Rightarrow> rdma_rx" where
  "release_exhausted_receive t =
     (let p = rx_paths t (rx_path t)
      in case current_recv_slot p of
           None \<Rightarrow> t
         | Some slt \<Rightarrow>
             if current_recv_offset p \<noteq> current_recv_length p then t
             else t\<lparr>rx_paths := (rx_paths t)(rx_path t := (post_receive_slot p slt)\<lparr>current_recv_slot := None\<rparr>),
                    recv_seq := recv_seq t + 1\<rparr>)"

definition rdma_recv_data_ptr :: "rdma_rx \<Rightarrow> nat \<Rightarrow> rerr + (byte list \<times> rdma_rx)" where
  "rdma_recv_data_ptr t0 len =
     (let t = release_exhausted_receive t0;
          p = rx_paths t (rx_path t);
          begun = (case current_recv_slot p of
                     None \<Rightarrow> (case begin_receive_message (rx_chunk t) (rx_depth t) p (recv_seq t) of
                               None \<Rightarrow> None | Some p1 \<Rightarrow> Some (p1, rx_data_messages t + 1))
                   | Some _ \<Rightarrow> Some (p, rx_data_messages t))
      in case begun of
           None \<Rightarrow> Inl RERR_STREAMIO
         | Some (p1, msgs) \<Rightarrow>
             if len > current_recv_length p1 - current_recv_offset p1 then Inl RERR_PROTOCOL
             else Inr (seg (rr_ring p1 (the (current_recv_slot p1))) (header_size + current_recv_offset p1) len,
                       t\<lparr>rx_paths := (rx_paths t)(rx_path t := p1\<lparr>current_recv_offset := current_recv_offset p1 + len\<rparr>),
                         rx_data_bytes := rx_data_bytes t + len, rx_data_messages := msgs\<rparr>))"

text \<open>The sizes that \<^verbatim>\<open>token.c\<close> asks for.\<close>

definition rdma_literal_chunk_size :: "bool \<Rightarrow> int \<Rightarrow> int" where
  "rdma_literal_chunk_size transport_active rdma_chunk_size = (if transport_active then rdma_chunk_size else 32 * 1024)"

definition rdma_control_flush_interval :: "bool \<Rightarrow> int \<Rightarrow> int" where
  "rdma_control_flush_interval transport_active rdma_queue_depth =
     (if transport_active then max 1 (rdma_queue_depth div 2) else 1)"

section \<open>Framing\<close>

lemma length_put_u32 [simp]: "length (put_u32 v) = 4"
  by (simp add: put_u32_def)

lemma get_u32_put_u32 [simp]: "get_u32 (put_u32 v @ r) = v"
proof -
  have "get_u32 (put_u32 v @ r) = (ucast (ucast v :: byte) :: uint32) OR push_bit 8 (ucast (ucast (drop_bit 8 v) :: byte))
      OR push_bit 16 (ucast (ucast (drop_bit 16 v) :: byte)) OR push_bit 24 (ucast (ucast (drop_bit 24 v) :: byte))"
    by (simp add: get_u32_def put_u32_def numeral_eq_Suc or.commute or.left_commute or.assoc)
  then show ?thesis by (simp only: ucast_bytes_uint32)
qed

lemma length_encode_header [simp]: "length (encode_header m s l) = header_size"
  by (simp add: encode_header_def header_size_def)

lemma header_fields [simp]:
  "header_magic (encode_header m s l @ r) = m" "header_length (encode_header m s l @ r) = l"
  "decode_seq (encode_header m s l @ r) = s"
proof -
  show "header_magic (encode_header m s l @ r) = m"
    by (simp add: header_magic_def encode_header_def)
  have "drop 4 (encode_header m s l @ r) = put_u32 l @ put_u32 (ucast (drop_bit 32 s)) @ put_u32 (ucast s) @ r"
    by (simp add: encode_header_def)
  then show "header_length (encode_header m s l @ r) = l" by (simp add: header_length_def)
  have "drop 8 (encode_header m s l @ r) = put_u32 (ucast (drop_bit 32 s)) @ put_u32 (ucast s) @ r"
    "drop 12 (encode_header m s l @ r) = put_u32 (ucast s) @ r"
    by (simp_all add: encode_header_def)
  then show "decode_seq (encode_header m s l @ r) = s"
    using ucast_uint32_uint64 [of s] by (simp add: decode_seq_def or.commute)
qed

section \<open>Synthetic data\<close>

lemma counter_bytes_period: "256 dvd k \<Longrightarrow> counter_bytes (s + int k) n = counter_bytes s n"
proof -
  assume "256 dvd k"
  then obtain q where "k = 256 * q" by (elim dvdE)
  then have "s + int k + int i = (s + int i) + int q * 2 ^ 8" for i by simp
  then have "(word_of_int (s + int k + int i) :: byte) = word_of_int (s + int i)" for i
    by (simp only: word_of_int_eq_iff take_bit_eq_mod mod_mult_self1 len_bit0 len_num1 len_bit1) simp
  then show ?thesis by (simp only: counter_bytes_def)
qed

lemma take_counter_bytes: "m \<le> n \<Longrightarrow> take m (counter_bytes s n) = counter_bytes s m"
  using seg_counter_bytes [of 0 m n s] by (simp add: seg_def)

lemma double_fill_counter:
  "buf = counter_bytes s k \<Longrightarrow> 0 < k \<Longrightarrow> k \<le> len \<Longrightarrow> k < len \<longrightarrow> 256 dvd k \<Longrightarrow> double_fill buf len = counter_bytes s len"
proof (induction buf len arbitrary: k rule: double_fill.induct)
  case (1 buf len)
  show ?case
  proof (cases "k < len")
    case True
    let ?m = "min k (len - k)"
    have "buf \<noteq> []" using 1(2,3) by (auto simp flip: length_greater_0_conv)
    moreover have "buf @ take ?m buf = counter_bytes s (k + ?m)"
      using counter_bytes_append [of s k ?m] counter_bytes_period [of k s ?m] True 1(2,5)
      by (simp add: take_counter_bytes)
    moreover have "k + ?m < len \<longrightarrow> 256 dvd k + ?m" using True 1(5) by (auto simp: min_def)
    ultimately show ?thesis using 1(1) [of "k + ?m"] 1(2,3) True
      by (subst double_fill.simps) simp
  next
    case False
    then show ?thesis using 1(2,4) by (subst double_fill.simps) simp
  qed
qed

lemma fill_counter_data_eq:
  assumes "0 < len" shows "fill_counter_data offset len = counter_bytes offset len"
proof -
  define start where "start = nat (offset AND 0xff)"
  have start: "start < 256" "int start = offset AND 0xff"
    unfolding start_def using and_255_bounds [of offset] by linarith+
  have mod: "offset AND 0xff = offset mod 256"
    using take_bit_eq_mask [of 8 offset] by (simp add: take_bit_eq_mod mask_eq_exp_minus_1)
  define i where "i = min len (256 - start)"
  have b1: "seg counter_pattern start i = counter_bytes offset i"
    unfolding start_def by (rule seg_counter_pattern) (use start in \<open>simp add: i_def start_def [symmetric]\<close>)
  define j where "j = min (len - i) (256 - i)"
  have b2: "counter_bytes offset i @ take j counter_pattern = counter_bytes offset (i + j)" if "i < len"
  proof -
    have "i = 256 - start" using that by (auto simp: i_def)
    then have "(offset + int i) mod 256 = 0" using start mod by (simp add: mod_simps of_nat_diff) presburger
    then have "(offset + int i) AND 0xff = 0"
      using take_bit_eq_mask [of 8 "offset + int i"] by (simp add: take_bit_eq_mod mask_eq_exp_minus_1)
    then have "take j counter_pattern = counter_bytes (offset + int i) j"
      using seg_counter_pattern [of "offset + int i" j] by (simp add: seg_def j_def)
    then show ?thesis by (simp add: counter_bytes_append)
  qed
  let ?b = "if i < len then counter_bytes offset i @ take j counter_pattern else counter_bytes offset i"
  let ?k = "if i < len then i + j else i"
  have "0 < i" using assms start(1) by (simp add: i_def)
  have "double_fill ?b len = counter_bytes offset len"
    by (rule double_fill_counter [of _ _ ?k]) (use \<open>0 < i\<close> b2 in \<open>auto simp: i_def j_def min_def\<close>)
  then show ?thesis
    unfolding fill_counter_data_def Let_def start_def [symmetric] i_def [symmetric] b1 by (simp only: length_counter_bytes j_def)
qed

section \<open>The send ring\<close>

text \<open>What a path has sent or is about to send, and the invariant that ties it to the messages posted.\<close>

definition on_wire :: "rdma_path \<Rightarrow> byte list list" where
  "on_wire p = rp_wire p @ map (\<lambda>(slt, len). take len (rp_ring p slt)) (rp_queue p)"

definition path_inv :: "nat \<Rightarrow> rdma_path \<Rightarrow> byte list list \<Rightarrow> bool" where
  "path_inv depth p msgs \<longleftrightarrow> next_slot p = word_of_nat (length msgs) \<and> outstanding p \<le> depth
     \<and> length (rp_queue p) \<le> outstanding p \<and> length (rp_queue p) \<le> length msgs
     \<and> map fst (rp_queue p) = map (\<lambda>i. i mod depth) [length msgs - length (rp_queue p)..<length msgs]
     \<and> on_wire p = msgs"

text \<open>The counter of slots is a 32-bit number; it agrees with the number of messages unless it wraps.\<close>

definition counts :: "nat \<Rightarrow> nat \<Rightarrow> bool" where
  "counts depth n \<longleftrightarrow> 0 < depth \<and> (depth dvd 2 ^ 32 \<or> n < 2 ^ 32)"

lemma slot_of_counter: "counts depth n \<Longrightarrow> unat (word_of_nat n :: uint32) mod depth = n mod depth"
  by (auto simp: counts_def unat_of_nat mod_mod_cancel)

lemma nic_send_inv:
  assumes "path_inv depth p msgs" shows "path_inv depth (nic_send p) msgs"
proof (cases "rp_queue p")
  case (Cons x q)
  obtain s l where x: "x = (s, l)" by (cases x)
  let ?n = "length msgs"
  have q: "Suc (length q) \<le> ?n" "s # map fst q = map (\<lambda>i. i mod depth) [?n - Suc (length q)..<?n]"
    using assms Cons x by (simp_all add: path_inv_def)
  have "[?n - Suc (length q)..<?n] = (?n - Suc (length q)) # [?n - length q..<?n]"
    using q(1) by (simp add: upt_conv_Cons Suc_diff_Suc)
  then have "map fst q = map (\<lambda>i. i mod depth) [?n - length q..<?n]" using q(2) by simp
  then show ?thesis using assms Cons x
    by (simp add: nic_send_def path_inv_def on_wire_def)
qed (use assms in \<open>simp add: nic_send_def\<close>)

lemma nic_send_simps [simp]: "outstanding (nic_send p) = outstanding p" "next_slot (nic_send p) = next_slot p"
    "cq_fails (nic_send p) = cq_fails p" "sq_fails (nic_send p) = sq_fails p" "length (rp_queue (nic_send p)) = length (rp_queue p) - 1"
  by (simp_all add: nic_send_def split: list.split prod.split)

lemma poll_completion_inv:
  assumes "poll_completion p = Some p1" "path_inv depth p msgs"
  shows "path_inv depth p1 msgs" "length (rp_queue p1) < outstanding p1" "outstanding p1 = outstanding p" "next_slot p1 = next_slot p"
    "cq_fails p1 = cq_fails p" "sq_fails p1 = sq_fails p"
proof -
  have "length (rp_queue p) \<le> outstanding p" using assms(2) by (simp add: path_inv_def)
  moreover have "p1 = p \<and> length (rp_queue p) < outstanding p \<or> p1 = nic_send p \<and> rp_queue p \<noteq> []"
    using assms(1) by (auto simp: poll_completion_def split: if_splits)
  ultimately show "path_inv depth p1 msgs" "length (rp_queue p1) < outstanding p1" "outstanding p1 = outstanding p" "next_slot p1 = next_slot p"
    "cq_fails p1 = cq_fails p" "sq_fails p1 = sq_fails p"
    using assms(2) nic_send_inv [OF assms(2)] by (auto simp: Suc_le_eq [symmetric] neq_Nil_conv)
qed

text \<open>The first part of \<^verbatim>\<open>post_data_send\<close>: a full queue is made to have room.\<close>

lemma make_room_inv:
  assumes "(if outstanding p \<ge> depth
        then (case poll_completion p of None \<Rightarrow> None | Some p1 \<Rightarrow> Some (p1\<lparr>outstanding := outstanding p1 - 1\<rparr>))
        else Some p) = Some p1" "path_inv depth p msgs" "0 < depth"
  shows "path_inv depth p1 msgs \<and> outstanding p1 < depth \<and> next_slot p1 = next_slot p \<and> cq_fails p1 = cq_fails p \<and> sq_fails p1 = sq_fails p"
proof (cases "depth \<le> outstanding p")
  case True
  then obtain p2 where p2: "poll_completion p = Some p2" "p1 = p2\<lparr>outstanding := outstanding p2 - 1\<rparr>"
    using assms(1) by (auto split: option.splits)
  note i = poll_completion_inv [OF p2(1) assms(2)]
  have "outstanding p \<le> depth" using assms(2) by (simp add: path_inv_def)
  then show ?thesis using i assms(3) by (auto simp: p2(2) path_inv_def on_wire_def)
qed (use assms in simp)

text \<open>The slot that is filled belongs to none of the requests in the queue.\<close>

lemma slot_free:
  assumes "path_inv depth p msgs" "outstanding p < depth" "counts depth (length msgs)"
  shows "unat (next_slot p) mod depth = length msgs mod depth \<and> unat (next_slot p) mod depth \<notin> fst ` set (rp_queue p)"
proof -
  define n where "n = length msgs"
  have i: "length (rp_queue p) \<le> outstanding p" "map fst (rp_queue p) = map (\<lambda>i. i mod depth) [n - length (rp_queue p)..<n]"
    using assms(1) by (simp_all add: path_inv_def n_def)
  have slt: "unat (next_slot p) mod depth = n mod depth" using slot_of_counter [OF assms(3)] assms(1) by (simp add: path_inv_def n_def)
  have "n mod depth \<notin> set (map (\<lambda>i. i mod depth) [n - length (rp_queue p)..<n])"
  proof
    assume "n mod depth \<in> set (map (\<lambda>i. i mod depth) [n - length (rp_queue p)..<n])"
    then obtain j where j: "n - length (rp_queue p) \<le> j" "j < n" "n mod depth = j mod depth" by auto
    then have "depth dvd n - j" by (metis mod_eq_dvd_iff_nat less_imp_le)
    moreover have "0 < n - j" "n - j < depth" using j i(1) assms(2) by linarith+
    ultimately show False by (auto dest: dvd_imp_le)
  qed
  from this [folded i(2)] show ?thesis by (simp add: slt n_def)
qed

lemma post_data_send_inv:
  assumes post: "post_data_send depth p (Some b) off (length b) seqn = Some p'"
    and inv: "path_inv depth p msgs" and cnt: "counts depth (length msgs)"
  shows "path_inv depth p' (msgs @ [encode_header RDMA_DATA_MAGIC seqn (word_of_nat (length b)) @ b])
    \<and> cq_fails p' = cq_fails p \<and> sq_fails p' = sq_fails p"
proof -
  have depth: "0 < depth" using cnt by (simp add: counts_def)
  obtain p1 where p1: "(if outstanding p \<ge> depth
        then (case poll_completion p of None \<Rightarrow> None | Some p1 \<Rightarrow> Some (p1\<lparr>outstanding := outstanding p1 - 1\<rparr>))
        else Some p) = Some p1" using post by (auto simp: post_data_send_def split: option.splits)
  note room = make_room_inv [OF p1 inv depth]
  define n where "n = length msgs"
  define slt where "slt = unat (next_slot p1) mod depth"
  have i: "next_slot p1 = word_of_nat n" "length (rp_queue p1) \<le> outstanding p1" "length (rp_queue p1) \<le> n"
    "map fst (rp_queue p1) = map (\<lambda>i. i mod depth) [n - length (rp_queue p1)..<n]" "on_wire p1 = msgs"
    using room by (simp_all add: path_inv_def n_def)
  have free: "slt = n mod depth" "slt \<notin> fst ` set (rp_queue p1)"
    unfolding slt_def n_def using slot_free [of depth p1 msgs, OF _ _ cnt] room by blast+
  let ?msg = "encode_header RDMA_DATA_MAGIC seqn (word_of_nat (length b)) @ b"
  have p': "p' = p1\<lparr>next_slot := next_slot p1 + 1,
      rp_ring := (rp_ring p1)(slt := fill_slot (rp_ring p1 slt) (encode_header RDMA_DATA_MAGIC seqn (word_of_nat (length b))) b),
      synthetic_phase := synthetic_phase p1,
      rp_queue := rp_queue p1 @ [(slt, header_size + length b)], outstanding := outstanding p1 + 1\<rparr>"
    using post unfolding post_data_send_def p1 by (simp add: Let_def slt_def split: if_splits)
  have keep: "map (\<lambda>(s, l). take l (((rp_ring p1)(slt := x)) s)) (rp_queue p1)
      = map (\<lambda>(s, l). take l (rp_ring p1 s)) (rp_queue p1)" for x
    using free(2) by (intro map_cong refl) (force split: prod.splits)
  have "on_wire p' = msgs @ [?msg]"
    using i(5) keep by (simp add: p' on_wire_def fill_slot_def del: map_eq_conv fun_upd_apply) simp
  moreover have "[Suc n - Suc (length (rp_queue p1))..<Suc n] = [n - length (rp_queue p1)..<n] @ [n]" by simp
  ultimately show ?thesis using i free(1) room by (simp add: path_inv_def n_def [symmetric] p')
qed

text \<open>A path whose library calls succeed takes every message.\<close>

definition path_works :: "rdma_path \<Rightarrow> bool" where
  "path_works p \<longleftrightarrow> (\<forall>c. \<not> cq_fails p c \<and> \<not> sq_fails p c)"

lemma post_data_send_ok:
  assumes inv: "path_inv depth p msgs" and cnt: "counts depth (length msgs)" and works: "path_works p"
  shows "\<exists>p'. post_data_send depth p (Some b) off (length b) seqn = Some p' \<and> path_works p'
           \<and> path_inv depth p' (msgs @ [encode_header RDMA_DATA_MAGIC seqn (word_of_nat (length b)) @ b])"
proof -
  have depth: "0 < depth" using cnt by (simp add: counts_def)
  have "\<exists>p1. (if outstanding p \<ge> depth
        then (case poll_completion p of None \<Rightarrow> None | Some p1 \<Rightarrow> Some (p1\<lparr>outstanding := outstanding p1 - 1\<rparr>))
        else Some p) = Some p1"
    using works depth by (auto simp: poll_completion_def path_works_def)
  then obtain p1 where p1: "(if outstanding p \<ge> depth
        then (case poll_completion p of None \<Rightarrow> None | Some p1 \<Rightarrow> Some (p1\<lparr>outstanding := outstanding p1 - 1\<rparr>))
        else Some p) = Some p1" ..
  have "\<not> sq_fails p1 (next_slot p1)" using make_room_inv [OF p1 inv depth] works by (simp add: path_works_def)
  then obtain p' where p': "post_data_send depth p (Some b) off (length b) seqn = Some p'"
    unfolding post_data_send_def p1 by (simp add: Let_def)
  from post_data_send_inv [OF this inv cnt] p' works show ?thesis by (simp add: path_works_def)
qed

definition fresh_path :: "rdma_path" where
  "fresh_path = \<lparr>rp_ring = (\<lambda>_. replicate 4096 0), synthetic_phase = (\<lambda>_. -1), outstanding = 0, next_slot = 0, rp_queue = [], rp_wire = [],
     cq_fails = (\<lambda>_. False), sq_fails = (\<lambda>_. False)\<rparr>"

lemma fresh_path_inv: "path_inv depth fresh_path []" "path_inv depth (fresh_path\<lparr>cq_fails := f, sq_fails := g\<rparr>) []" "path_works fresh_path"
  by (simp_all add: path_inv_def fresh_path_def on_wire_def path_works_def)

text \<open>
  All interleavings of the sender, which posts messages, and the adapter, which transmits requests
  whenever it likes, with any failures of the library.
\<close>

inductive ring_run :: "nat \<Rightarrow> rdma_path \<Rightarrow> byte list list \<Rightarrow> bool" for depth where
  ring_start: "ring_run depth (fresh_path\<lparr>cq_fails := f, sq_fails := g\<rparr>) []"
| ring_transmit: "ring_run depth p msgs \<Longrightarrow> ring_run depth (nic_send p) msgs"
| ring_post: "ring_run depth p msgs \<Longrightarrow> post_data_send depth p (Some b) off (length b) seqn = Some p' \<Longrightarrow>
    ring_run depth p' (msgs @ [encode_header RDMA_DATA_MAGIC seqn (word_of_nat (length b)) @ b])"

lemma ring_run_inv: "ring_run depth p msgs \<Longrightarrow> 0 < depth \<Longrightarrow> depth dvd 2 ^ 32 \<or> length msgs \<le> 2 ^ 32 \<Longrightarrow> path_inv depth p msgs"
proof (induction rule: ring_run.induct)
  case (ring_post p msgs b off seqn p')
  then have "counts depth (length msgs)" by (auto simp: counts_def)
  moreover have "path_inv depth p msgs" using ring_post by auto
  ultimately show ?case using post_data_send_inv [OF ring_post.hyps(2)] by blast
qed (simp_all add: fresh_path_inv nic_send_inv)

section \<open>Striping over the rails\<close>

text \<open>Of the messages from number \<open>k\<close> on, those that travel on rail \<open>r\<close>.\<close>

definition rail_msgs :: "nat \<Rightarrow> nat \<Rightarrow> 'a list \<Rightarrow> nat \<Rightarrow> 'a list" where
  "rail_msgs R k msgs r = map (\<lambda>i. msgs ! i) (filter (\<lambda>i. i mod R = r) [k..<length msgs])"

lemma rail_msgs_snoc:
  "rail_msgs R 0 (msgs @ [x]) r = (if length msgs mod R = r then rail_msgs R 0 msgs r @ [x] else rail_msgs R 0 msgs r)"
  by (simp add: rail_msgs_def nth_append cong: filter_cong map_cong)

lemma rail_msgs_step:
  "k < length msgs \<Longrightarrow> rail_msgs R k msgs r = (if k mod R = r then [msgs ! k] else []) @ rail_msgs R (Suc k) msgs r"
  by (simp add: rail_msgs_def upt_conv_Cons)

lemma rail_msgs_append: "rail_msgs R 0 (xs @ ys) r = rail_msgs R 0 xs r @ rail_msgs R (length xs) (xs @ ys) r"
proof -
  have "map ((!) (xs @ ys)) (filter (\<lambda>i. i mod R = r) [0..<length xs]) = map ((!) xs) (filter (\<lambda>i. i mod R = r) [0..<length xs])"
    by (simp add: nth_append)
  then show ?thesis
    by (simp add: rail_msgs_def upt_add_eq_append [of 0 "length xs" "length ys", simplified])
qed

lemma length_rail_msgs: "length (rail_msgs R k msgs r) \<le> length msgs"
  using length_filter_le [of "\<lambda>i. i mod R = r" "[k..<length msgs]"] by (simp add: rail_msgs_def)

definition data_msg :: "nat \<Rightarrow> byte list \<Rightarrow> byte list" where
  "data_msg k b = encode_header RDMA_DATA_MAGIC (word_of_nat k) (word_of_nat (length b)) @ b"

definition data_msgs :: "byte list list \<Rightarrow> byte list list" where
  "data_msgs ds = map (\<lambda>k. data_msg k (ds ! k)) [0..<length ds]"

lemma length_data_msgs [simp]: "length (data_msgs ds) = length ds"
  by (simp add: data_msgs_def)

lemma data_msgs_snoc: "data_msgs (ds @ [d]) = data_msgs ds @ [data_msg (length ds) d]"
  by (simp add: data_msgs_def nth_append cong: map_cong)

lemma data_msgs_append: "data_msgs (ds @ es) = data_msgs ds @ map (\<lambda>k. data_msg (length ds + k) (es ! k)) [0..<length es]"
  by (rule nth_equalityI) (auto simp: data_msgs_def nth_append)

text \<open>The invariant of the sending transport after the payloads \<open>ds\<close>.\<close>

definition tx_inv :: "rdma_tx \<Rightarrow> byte list list \<Rightarrow> bool" where
  "tx_inv t ds \<longleftrightarrow> 0 < tx_chunk t \<and> 0 < tx_depth t \<and> 0 < tx_rails t \<and> send_seq t = word_of_nat (length ds)
     \<and> length ds \<le> 2 ^ 32 \<and> (\<forall>d \<in> set ds. length d \<le> tx_chunk t)
     \<and> (\<forall>r < tx_rails t. path_works (tx_paths t r)
          \<and> path_inv (tx_depth t) (tx_paths t r) (rail_msgs (tx_rails t) 0 (data_msgs ds) r))"

lemma send_message_ok:
  assumes inv: "tx_inv t ds" and n: "length ds < 2 ^ 32" and b: "length b \<le> tx_chunk t"
  shows "\<exists>t'. send_message t (Some b) off (length b) = Inr t' \<and> tx_inv t' (ds @ [b]) \<and> tx_chunk t' = tx_chunk t
    \<and> tx_rails t' = tx_rails t \<and> tx_depth t' = tx_depth t"
proof -
  let ?R = "tx_rails t"
  define r where "r = unat (send_seq t) mod ?R"
  have pos: "0 < ?R" "0 < tx_depth t" using inv by (simp_all add: tx_inv_def)
  have "unat (word_of_nat (length ds) :: uint64) = length ds" using n by (simp add: unat_of_nat)
  then have r: "r = length ds mod ?R" using inv by (simp add: r_def tx_inv_def)
  have "r < ?R" using pos(1) by (simp add: r)
  then have p: "path_inv (tx_depth t) (tx_paths t r) (rail_msgs ?R 0 (data_msgs ds) r)" "path_works (tx_paths t r)" using inv by (simp_all add: tx_inv_def)
  have "length (rail_msgs ?R 0 (data_msgs ds) r) < 2 ^ 32"
    using length_rail_msgs [of ?R 0 "data_msgs ds" r] n by simp
  then have "counts (tx_depth t) (length (rail_msgs ?R 0 (data_msgs ds) r))" using pos(2) by (simp add: counts_def)
  from post_data_send_ok [OF p(1) this p(2), of b off "send_seq t"] obtain p' where
    p': "post_data_send (tx_depth t) (tx_paths t r) (Some b) off (length b) (send_seq t) = Some p'"
    "path_inv (tx_depth t) p' (rail_msgs ?R 0 (data_msgs ds) r @ [data_msg (length ds) b])" "path_works p'"
    using inv by (auto simp: tx_inv_def data_msg_def)
  have "path_works (((tx_paths t)(r := p')) q)
      \<and> path_inv (tx_depth t) (((tx_paths t)(r := p')) q) (rail_msgs ?R 0 (data_msgs (ds @ [b])) q)" if "q < ?R" for q
    using p'(2,3) r inv that by (auto simp: tx_inv_def data_msgs_snoc rail_msgs_snoc)
  moreover have "send_message t (Some b) off (length b) = Inr (t\<lparr>tx_paths := (tx_paths t)(r := p'), send_seq := send_seq t + 1,
      tx_data_bytes := tx_data_bytes t + length b, tx_data_messages := tx_data_messages t + 1\<rparr>)"
    unfolding send_message_def Let_def r_def [symmetric] p'(1) by simp
  ultimately show ?thesis using inv n b by (auto simp: tx_inv_def)
qed

text \<open>The pieces in which \<^verbatim>\<open>rdma_send_data\<close> sends a buffer.\<close>

function pieces :: "nat \<Rightarrow> byte list \<Rightarrow> byte list list" where
  "pieces c b = (if b \<noteq> [] \<and> 0 < c then take c b # pieces c (drop c b) else [])"
  by pat_completeness auto
termination by (relation "measure (\<lambda>(c, b). length b)") auto

declare pieces.simps [simp del]

lemma concat_pieces: "0 < c \<Longrightarrow> concat (pieces c b) = b"
  by (induction c b rule: pieces.induct) (subst pieces.simps, auto)

lemma pieces_small: "b \<noteq> [] \<Longrightarrow> length b \<le> c \<Longrightarrow> pieces c b = [b]"
  by (subst pieces.simps) (cases b; simp add: pieces.simps)

lemma rdma_send_data_ok:
  "tx_inv t ds \<Longrightarrow> length ds + length (pieces (tx_chunk t) b) \<le> 2 ^ 32 \<Longrightarrow>
   \<exists>t'. rdma_send_data t b = Inr t' \<and> tx_inv t' (ds @ pieces (tx_chunk t) b) \<and> tx_chunk t' = tx_chunk t
    \<and> tx_rails t' = tx_rails t \<and> tx_depth t' = tx_depth t"
proof (induction "length b" arbitrary: t ds b rule: less_induct)
  case less
  have c: "0 < tx_chunk t" using less.prems(1) by (simp add: tx_inv_def)
  show ?case
  proof (cases "b = []")
    case True
    then show ?thesis using less.prems(1) by (simp add: rdma_send_data.simps pieces.simps)
  next
    case False
    let ?a = "min (length b) (tx_chunk t)"
    have ps: "pieces (tx_chunk t) b = take ?a b # pieces (tx_chunk t) (drop ?a b)"
      using False c by (subst pieces.simps) (auto simp: min_def pieces.simps)
    have "length ds < 2 ^ 32" using less.prems(2) by (simp add: ps)
    moreover have "length (take ?a b) \<le> tx_chunk t" by simp
    ultimately obtain t1 where
      t1: "send_message t (Some (take ?a b)) 0 ?a = Inr t1" "tx_inv t1 (ds @ [take ?a b])"
        "tx_chunk t1 = tx_chunk t" "tx_rails t1 = tx_rails t" "tx_depth t1 = tx_depth t"
      using send_message_ok [OF less.prems(1), of "take ?a b" 0] by auto
    have "length (drop ?a b) < length b" using False c by simp
    from less.hyps [OF this t1(2)] less.prems(2) t1(3) obtain t2 where
      "rdma_send_data t1 (drop ?a b) = Inr t2" "tx_inv t2 ((ds @ [take ?a b]) @ pieces (tx_chunk t1) (drop ?a b))"
      "tx_chunk t2 = tx_chunk t1" "tx_rails t2 = tx_rails t1" "tx_depth t2 = tx_depth t1"
      by (auto simp: ps)
    then show ?thesis using t1 False c by (subst rdma_send_data.simps) (simp add: Let_def ps)
  qed
qed

section \<open>Receiving\<close>

definition rx_conf :: "rdma_rx \<Rightarrow> byte list list \<Rightarrow> bool" where
  "rx_conf t ds \<longleftrightarrow> 0 < rx_rails t \<and> length ds \<le> 2 ^ 32 \<and> rx_chunk t < 2 ^ 32 \<and> (\<forall>d \<in> set ds. length d \<le> rx_chunk t)"

definition posted_ok :: "rdma_rx \<Rightarrow> rdma_rpath \<Rightarrow> bool" where
  "posted_ok t p \<longleftrightarrow> (\<forall>s \<in> set (rr_posted p). s < rx_depth t)"

definition path_idle :: "rdma_rx \<Rightarrow> byte list list \<Rightarrow> nat \<Rightarrow> nat \<Rightarrow> bool" where
  "path_idle t ds k r \<longleftrightarrow> rr_arriving (rx_paths t r) = rail_msgs (rx_rails t) k (data_msgs ds) r
     \<and> current_recv_slot (rx_paths t r) = None \<and> rr_posted (rx_paths t r) \<noteq> [] \<and> posted_ok t (rx_paths t r)"

text \<open>Between messages, with number \<open>k\<close> next; and inside message \<open>k\<close>, with \<open>n\<close> of its bytes taken.\<close>

definition rx_idle :: "rdma_rx \<Rightarrow> byte list list \<Rightarrow> nat \<Rightarrow> bool" where
  "rx_idle t ds k \<longleftrightarrow> rx_conf t ds \<and> recv_seq t = word_of_nat k \<and> k \<le> length ds \<and> (\<forall>r < rx_rails t. path_idle t ds k r)"

definition rx_mid :: "rdma_rx \<Rightarrow> byte list list \<Rightarrow> nat \<Rightarrow> nat \<Rightarrow> bool" where
  "rx_mid t ds k n \<longleftrightarrow> rx_conf t ds \<and> recv_seq t = word_of_nat k \<and> k < length ds \<and> n \<le> length (ds ! k)
     \<and> (\<forall>r < rx_rails t. r \<noteq> k mod rx_rails t \<longrightarrow> path_idle t ds (Suc k) r)
     \<and> (\<exists>slt. slt < rx_depth t \<and> (let p = rx_paths t (k mod rx_rails t) in
          rr_arriving p = rail_msgs (rx_rails t) (Suc k) (data_msgs ds) (k mod rx_rails t) \<and> posted_ok t p
          \<and> current_recv_slot p = Some slt \<and> rr_ring p slt = data_msg k (ds ! k)
          \<and> current_recv_length p = length (ds ! k) \<and> current_recv_offset p = n))"

definition rx_ready :: "rdma_rx \<Rightarrow> byte list list \<Rightarrow> nat \<Rightarrow> bool" where
  "rx_ready t ds k \<longleftrightarrow> rx_idle (release_exhausted_receive t) ds k"

lemma rx_path_eq: "rx_conf t ds \<Longrightarrow> recv_seq t = word_of_nat k \<Longrightarrow> k \<le> length ds \<Longrightarrow> rx_path t = k mod rx_rails t"
  by (simp add: rx_path_def rx_conf_def unat_of_nat)

lemma data_msgs_nth: "k < length ds \<Longrightarrow> data_msgs ds ! k = data_msg k (ds ! k)"
  by (simp add: data_msgs_def)

lemma release_idle: "rx_idle t ds k \<Longrightarrow> release_exhausted_receive t = t"
  using rx_path_eq [of t ds k] by (auto simp: rx_idle_def path_idle_def release_exhausted_receive_def Let_def rx_conf_def)

lemma rx_idle_ready: "rx_idle t ds k \<Longrightarrow> rx_ready t ds k"
  by (simp add: rx_ready_def release_idle)

lemma rx_mid_done:
  assumes "rx_mid t ds k (length (ds ! k))" shows "rx_ready t ds (Suc k)"
proof -
  let ?R = "rx_rails t" and ?p = "rx_paths t (k mod rx_rails t)"
  have k: "k < length ds" and c: "rx_conf t ds" using assms by (simp_all add: rx_mid_def)
  obtain slt where s: "slt < rx_depth t" "current_recv_slot ?p = Some slt" "current_recv_length ?p = length (ds ! k)"
    "current_recv_offset ?p = length (ds ! k)" "posted_ok t ?p"
    "rr_arriving ?p = rail_msgs ?R (Suc k) (data_msgs ds) (k mod ?R)"
    using assms by (auto simp: rx_mid_def Let_def)
  have path: "rx_path t = k mod ?R" using rx_path_eq [OF c _ less_imp_le [OF k]] assms by (simp add: rx_mid_def)
  have rel: "release_exhausted_receive t = t\<lparr>rx_paths := (rx_paths t)(k mod ?R := (post_receive_slot ?p slt)\<lparr>current_recv_slot := None\<rparr>),
      recv_seq := recv_seq t + 1\<rparr>" using s by (simp add: release_exhausted_receive_def Let_def path)
  show ?thesis using assms s k unfolding rx_ready_def rel
    by (auto simp: rx_idle_def rx_mid_def path_idle_def posted_ok_def post_receive_slot_def rx_conf_def)
qed

lemma recv_in_message:
  assumes "rx_mid t ds k off" "off < length (ds ! k)" "n \<le> length (ds ! k) - off"
  shows "\<exists>t'. rdma_recv_data_ptr t n = Inr (seg (ds ! k) off n, t') \<and> rx_mid t' ds k (off + n)
    \<and> rx_rails t' = rx_rails t \<and> rx_chunk t' = rx_chunk t"
proof -
  let ?R = "rx_rails t" and ?p = "rx_paths t (k mod rx_rails t)"
  have k: "k < length ds" and c: "rx_conf t ds" using assms by (simp_all add: rx_mid_def)
  obtain slt where s: "slt < rx_depth t" "current_recv_slot ?p = Some slt" "current_recv_length ?p = length (ds ! k)"
    "current_recv_offset ?p = off" "posted_ok t ?p" "rr_ring ?p slt = data_msg k (ds ! k)"
    "rr_arriving ?p = rail_msgs ?R (Suc k) (data_msgs ds) (k mod ?R)"
    using assms(1) by (auto simp: rx_mid_def Let_def)
  have path: "rx_path t = k mod ?R" using rx_path_eq [OF c _ less_imp_le [OF k]] assms(1) by (simp add: rx_mid_def)
  have rel: "release_exhausted_receive t = t" using s assms(2) by (simp add: release_exhausted_receive_def Let_def path)
  let ?t = "t\<lparr>rx_paths := (rx_paths t)(k mod ?R := ?p\<lparr>current_recv_offset := off + n\<rparr>), rx_data_bytes := rx_data_bytes t + n,
      rx_data_messages := rx_data_messages t\<rparr>"
  have "seg (data_msg k (ds ! k)) (header_size + off) n = seg (ds ! k) off n"
    by (simp add: data_msg_def seg_def)
  then have "rdma_recv_data_ptr t n = Inr (seg (ds ! k) off n, ?t)"
    using assms(3) s by (simp add: rdma_recv_data_ptr_def rel path Let_def)
  moreover have "rx_mid ?t ds k (off + n)" using assms s k
    by (auto simp: rx_mid_def path_idle_def posted_ok_def rx_conf_def Let_def)
  ultimately show ?thesis by simp
qed

lemma recv_new_message:
  assumes rdy: "rx_ready t ds k" and k: "k < length ds" and n: "n \<le> length (ds ! k)"
  shows "\<exists>t'. rdma_recv_data_ptr t n = Inr (take n (ds ! k), t') \<and> rx_mid t' ds k n"
proof -
  define u where "u = release_exhausted_receive t"
  have idle: "rx_idle u ds k" using rdy by (simp add: rx_ready_def u_def)
  let ?R = "rx_rails u"
  define r where "r = k mod ?R"
  let ?p = "rx_paths u r"
  have c: "rx_conf u ds" and seqn: "recv_seq u = word_of_nat k" using idle by (simp_all add: rx_idle_def)
  have "r < ?R" using c by (simp add: r_def rx_conf_def)
  then have p: "rr_arriving ?p = data_msg k (ds ! k) # rail_msgs ?R (Suc k) (data_msgs ds) r" "current_recv_slot ?p = None"
    "rr_posted ?p \<noteq> []" "posted_ok u ?p"
    using idle k rail_msgs_step [of k "data_msgs ds" ?R r] by (simp_all add: rx_idle_def path_idle_def data_msgs_nth r_def)
  obtain slt ss where ps: "rr_posted ?p = slt # ss" using p(3) by (cases "rr_posted ?p") auto
  have slt: "slt < rx_depth u" using p(4) ps by (simp add: posted_ok_def)
  have path: "rx_path u = r" using rx_path_eq [OF c seqn less_imp_le [OF k]] by (simp add: r_def)
  have len: "length (ds ! k) \<le> rx_chunk u" "length (ds ! k) < 2 ^ 32"
    using c k by (auto simp: rx_conf_def) (meson le_less_trans nth_mem)
  let ?p1 = "?p\<lparr>rr_arriving := rail_msgs ?R (Suc k) (data_msgs ds) r, rr_posted := ss, rr_ring := (rr_ring ?p)(slt := data_msg k (ds ! k)),
      current_recv_slot := Some slt, current_recv_length := length (ds ! k), current_recv_offset := 0\<rparr>"
  have begin1: "begin_receive_message (rx_chunk u) (rx_depth u) ?p (recv_seq u) = Some ?p1"
    using p(1) ps slt len
    by (simp add: begin_receive_message_def poll_receive_def Let_def seqn data_msg_def unat_of_nat)
  let ?t = "u\<lparr>rx_paths := (rx_paths u)(r := ?p1\<lparr>current_recv_offset := n\<rparr>), rx_data_bytes := rx_data_bytes u + n,
      rx_data_messages := rx_data_messages u + 1\<rparr>"
  have "seg (data_msg k (ds ! k)) header_size n = take n (ds ! k)" by (simp add: data_msg_def seg_def)
  then have "rdma_recv_data_ptr t n = Inr (take n (ds ! k), ?t)"
    unfolding rdma_recv_data_ptr_def u_def [symmetric] path Let_def p(2) using n by (simp add: begin1)
  moreover have "rx_mid ?t ds k n"
    using idle k n slt p(4) ps rail_msgs_step [of k "data_msgs ds" ?R]
    by (auto simp: rx_mid_def rx_idle_def path_idle_def posted_ok_def rx_conf_def Let_def r_def)
  ultimately show ?thesis by blast
qed

section \<open>Properties of the data path\<close>

text \<open>
  C9: for every interleaving of posting and transmission, what the adapter has sent followed by what it
  will send is exactly the sequence of messages posted: no slot is rewritten while a request that
  uses it is still to be transmitted. This needs a queue depth that divides \<open>2^32\<close>, or at most \<open>2^32\<close> messages
  on the path.
\<close>

theorem ring_interleaving_safe:
  assumes "ring_run depth p msgs" "0 < depth" "depth dvd 2 ^ 32 \<or> length msgs \<le> 2 ^ 32"
  shows "on_wire p = msgs \<and> (rp_queue p = [] \<longrightarrow> rp_wire p = msgs)"
  using ring_run_inv [OF assms] by (auto simp: path_inv_def on_wire_def)

theorem ring_interleaving_safe_witness:
  "\<exists>p. ring_run 2 p [data_msg 0 [7], data_msg 1 [8], data_msg 2 [9]]
     \<and> on_wire p = [data_msg 0 [7], data_msg 1 [8], data_msg 2 [9]]"
proof -
  have "fresh_path\<lparr>cq_fails := (\<lambda>_. False), sq_fails := (\<lambda>_. False)\<rparr> = fresh_path" by (simp add: fresh_path_def)
  then have s0: "ring_run 2 fresh_path []" using ring_start [of 2 "\<lambda>_. False" "\<lambda>_. False"] by simp
  have post: "\<exists>p'. ring_run 2 p' (ms @ [data_msg k [b]]) \<and> path_works p'" if "ring_run 2 p ms" "path_works p" "length ms \<le> 2" for p ms k b
  proof -
    have "path_inv 2 p ms" using ring_run_inv [OF that(1)] that(3) by simp
    moreover have "counts 2 (length ms)" using that(3) by (simp add: counts_def)
    ultimately show ?thesis
      using post_data_send_ok [of 2 p ms "[b]" 0 "word_of_nat k"] ring_post [OF that(1), of "[b]" 0 "word_of_nat k"] that(2)
      by (auto simp: data_msg_def)
  qed
  from post [OF s0 fresh_path_inv(3), of 0 7] obtain p1 where p1: "ring_run 2 p1 [data_msg 0 [7]]" "path_works p1" by auto
  from post [OF ring_transmit [OF p1(1)], of 1 8] p1(2) obtain p2 where
    p2: "ring_run 2 p2 [data_msg 0 [7], data_msg 1 [8]]" "path_works p2" by (auto simp: path_works_def)
  from post [OF p2, of 2 9] obtain p3 where p3: "ring_run 2 p3 [data_msg 0 [7], data_msg 1 [8], data_msg 2 [9]]" by auto
  with ring_interleaving_safe [OF p3] show ?thesis by auto
qed

text \<open>Of the \<open>depth - 1\<close> numbers below one that is no multiple of \<open>depth\<close>, exactly one falls on slot 0.\<close>

lemma slot_zero_iff:
  fixes n depth i :: nat
  assumes "0 < n mod depth" "n - (depth - 1) \<le> i" "i < n" "0 < depth"
  shows "i mod depth = 0 \<longleftrightarrow> i = n - n mod depth"
proof -
  have n: "n - n mod depth = depth * (n div depth)" by (simp add: minus_mod_eq_mult_div)
  show ?thesis
  proof
    assume "i mod depth = 0"
    then obtain q where q: "i = depth * q" by (auto simp: mod_eq_0_iff_dvd)
    have "q \<le> n div depth" using assms(3,4) by (simp add: q less_eq_div_iff_mult_less_eq mult.commute)
    moreover have "n div depth \<le> q"
    proof (rule ccontr)
      assume "\<not> n div depth \<le> q"
      then have "depth * Suc q \<le> depth * (n div depth)" by (intro mult_le_mono2) simp
      also have "\<dots> \<le> n - 1" using n assms(1) mod_less_eq_dividend [of n depth] by linarith
      finally show False using assms(2-4) unfolding q mult_Suc_right by linarith
    qed
    ultimately show "i = n - n mod depth" using q n by simp
  qed (simp add: n)
qed

text \<open>
  C34: the limit of the previous property is needed. For every queue depth that does not divide \<open>2^32\<close>: after \<open>2^32\<close> messages
  of one size, with the last \<open>depth - 1\<close> of them not yet transmitted, the counter of slots has wrapped to 0, and the next
  message of that size is written over message \<open>2^32 - 2^32 mod depth\<close>, which is still to be transmitted: that one
  is never sent, and the new one is sent twice.
\<close>

theorem ring_counter_wrap_loses_message:
  assumes inv: "path_inv depth p msgs" and n: "length msgs = 2 ^ 32" and depth: "\<not> depth dvd 2 ^ 32" "0 < depth"
    and q: "length (rp_queue p) = depth - 1" "outstanding p = depth - 1"
    and same: "\<forall>x \<in> set msgs. length x = header_size + length b"
    and post: "post_data_send depth p (Some b) off (length b) seqn = Some p'"
  defines "m \<equiv> encode_header RDMA_DATA_MAGIC seqn (word_of_nat (length b)) @ b"
  shows "on_wire p' = msgs[2 ^ 32 - 2 ^ 32 mod depth := m] @ [m]"
proof -
  let ?N = "2 ^ 32 :: nat" and ?Q = "rp_queue p"
  have slots: "map fst ?Q = map (\<lambda>i. i mod depth) [?N - (depth - 1)..<?N]" "on_wire p = msgs" "next_slot p = 0" "depth - 1 \<le> ?N"
    using inv n q by (simp_all add: path_inv_def)
  define w where "w = ?N - (depth - 1)"
  have w: "length (rp_wire p) = w" "w + (depth - 1) = ?N"
    using arg_cong [OF slots(2), of length] n q(1) slots(4) by (simp_all add: on_wire_def w_def)
  define ring where "ring = (rp_ring p)(0 := fill_slot (rp_ring p 0) (encode_header RDMA_DATA_MAGIC seqn (word_of_nat (length b))) b)"
  have "p' = p\<lparr>next_slot := 1, rp_ring := ring, rp_queue := ?Q @ [(0, header_size + length b)], outstanding := outstanding p + 1\<rparr>"
    using post q(2) depth(2) slots(3) by (simp add: post_data_send_def Let_def ring_def split: if_splits)
  then have wire: "on_wire p' = (rp_wire p @ map (\<lambda>(s, l). take l (ring s)) ?Q) @ [m]"
    by (simp add: on_wire_def ring_def fill_slot_def m_def)
  have pos: "0 < ?N mod depth" using depth(1) by (simp only: dvd_eq_mod_eq_0 neq0_conv)
  have "rp_wire p @ map (\<lambda>(s, l). take l (ring s)) ?Q = msgs[?N - ?N mod depth := m]"
  proof (rule nth_equalityI)
    fix i assume "i < length (rp_wire p @ map (\<lambda>(s, l). take l (ring s)) ?Q)"
    then have i: "i < ?N" using w q(1) by simp
    have old: "msgs ! i = (rp_wire p @ map (\<lambda>(s, l). take l (rp_ring p s)) ?Q) ! i" using slots(2) by (simp add: on_wire_def)
    show "(rp_wire p @ map (\<lambda>(s, l). take l (ring s)) ?Q) ! i = msgs[?N - ?N mod depth := m] ! i"
    proof (cases "i < w")
      case True
      have "w \<le> ?N - ?N mod depth" using mod_less_divisor [OF depth(2), of ?N] by (simp add: w_def)
      then show ?thesis using True old w(1) by (simp add: nth_append)
    next
      case False
      define k where "k = i - w"
      have k: "i = w + k" "k < length ?Q" using False i w(2) q(1) by (simp_all add: k_def)
      obtain l where l: "?Q ! k = (i mod depth, l)"
        using arg_cong [OF slots(1), of "\<lambda>xs. xs ! k"] k w q(1) by (cases "?Q ! k") (simp add: w_def)
      have msg: "msgs ! i = take l (rp_ring p (i mod depth))" using old k l w(1) by (simp add: nth_append)
      have new: "(rp_wire p @ map (\<lambda>(s, l). take l (ring s)) ?Q) ! i = take l (ring (i mod depth))"
        using k l w(1) by (simp add: nth_append)
      show ?thesis
      proof (cases "i mod depth = 0")
        case True
        have "length (msgs ! i) = header_size + length b" using same i n by simp
        then have "l = header_size + length b \<or> l \<ge> header_size + length b \<and> length (rp_ring p 0) = header_size + length b"
          using msg True by (auto simp: min_def split: if_splits)
        then have "take l (ring 0) = m" by (auto simp: ring_def fill_slot_def m_def)
        moreover have "i = ?N - ?N mod depth" using slot_zero_iff [OF pos _ i depth(2)] True False by (simp add: w_def)
        ultimately show ?thesis using new True i n by simp
      next
        case nz: False
        then have "i \<noteq> ?N - ?N mod depth" using slot_zero_iff [OF pos _ i depth(2)] False by (simp add: w_def)
        then show ?thesis using new nz msg by (simp add: ring_def)
      qed
    qed
  qed (use w q(1) n in simp)
  then show ?thesis using wire by simp
qed

theorem ring_counter_wrap_loses_message_witness:
  "\<exists>p p'. path_inv 3 p (replicate (2 ^ 32) (data_msg 0 [1])) \<and> post_data_send 3 p (Some [2]) 0 1 9 = Some p'
     \<and> on_wire p' = (replicate (2 ^ 32) (data_msg 0 [1]))[2 ^ 32 - 1 := data_msg 9 [2]] @ [data_msg 9 [2]]"
proof -
  define p where "p = fresh_path\<lparr>rp_ring := (\<lambda>_. data_msg 0 [1]), outstanding := 2, rp_queue := [(2, 17), (0, 17)],
    rp_wire := replicate (2 ^ 32 - 2) (data_msg 0 [1])\<rparr>"
  have len: "length (data_msg 0 [1]) = 17" by (simp add: data_msg_def header_size_def)
  have "[x, x] = replicate 2 x" for x :: "byte list" by (simp add: numeral_2_eq_2)
  then have "replicate (2 ^ 32 - 2) x @ [x, x] = replicate (2 ^ 32) x" for x :: "byte list"
    by (simp only: replicate_add [symmetric]) simp
  then have "on_wire p = replicate (2 ^ 32) (data_msg 0 [1])" by (simp add: on_wire_def p_def fresh_path_def len)
  then have inv: "path_inv 3 p (replicate (2 ^ 32) (data_msg 0 [1]))" by (simp add: path_inv_def p_def fresh_path_def)
  have "\<exists>p'. post_data_send 3 p (Some [2]) 0 (length [2 :: byte]) 9 = Some p'"
    by (simp add: post_data_send_def p_def fresh_path_def Let_def)
  then obtain p' where post: "post_data_send 3 p (Some [2]) 0 (length [2 :: byte]) 9 = Some p'" ..
  have "on_wire p' = (replicate (2 ^ 32) (data_msg 0 [1]))[2 ^ 32 - 2 ^ 32 mod 3 := encode_header RDMA_DATA_MAGIC 9 (word_of_nat (length [2 :: byte])) @ [2]]
      @ [encode_header RDMA_DATA_MAGIC 9 (word_of_nat (length [2 :: byte])) @ [2]]"
    by (rule ring_counter_wrap_loses_message [OF inv _ _ _ _ _ _ post])
      (simp_all add: p_def fresh_path_def header_size_def len)
  then show ?thesis using inv post by (auto simp: data_msg_def)
qed

text \<open>
  \<^verbatim>\<open>fill_counter_data\<close>, with its copy of a partial cycle and its doubling, fills a buffer with the counter
  pattern at any offset and of any length.
\<close>

theorem fill_counter_data_correct:
  "0 < len \<Longrightarrow> fill_counter_data offset len = map (\<lambda>i. word_of_int (offset + int i)) [0..<len]"
  by (simp only: fill_counter_data_eq counter_bytes_def)

theorem fill_counter_data_correct_witness:
  "fill_counter_data 254 5 = [254, 255, 0, 1, 2]"
proof -
  have "map (\<lambda>i. word_of_int (254 + int i) :: byte) [0..<5] = [254, 255, 0, 1, 2]" by code_simp
  then show ?thesis using fill_counter_data_correct [of 5 254] by simp
qed

end
