(* ===== verification/Exchange.thy ===== *)
theory Exchange
  imports WireIO
begin

unbundle bit_operations_syntax

text \<open>
  Two programs that talk over a pair of byte streams. A program is a tree of what it does next, in its order:
  \<^verbatim>\<open>write_buf\<close> into its output buffer, \<^verbatim>\<open>io_flush\<close>, or \<^verbatim>\<open>read_buf\<close>, which waits until the bytes are there. The two run in any
  interleaving. The theory has the reading routines of \<^verbatim>\<open>io.c\<close> in this form, and the fact that the outcome does not depend on
  the interleaving.
\<close>

section \<open>Programs\<close>

datatype 'a proc =
    PRet "rerr + 'a"
  | PWrite "byte list" "'a proc"
  | PFlush "'a proc"
  | PRead nat "byte list \<Rightarrow> 'a proc"

primrec pr_bind :: "'a proc \<Rightarrow> ('a \<Rightarrow> 'b proc) \<Rightarrow> 'b proc" where
  "pr_bind (PRet r) f = (case r of Inl e \<Rightarrow> PRet (Inl e) | Inr x \<Rightarrow> f x)"
| "pr_bind (PWrite b p) f = PWrite b (pr_bind p f)"
| "pr_bind (PFlush p) f = PFlush (pr_bind p f)"
| "pr_bind (PRead n g) f = PRead n (\<lambda>b. pr_bind (g b) f)"

definition pr_int :: "int proc" where
  "pr_int = PRead 4 (\<lambda>b. PRet (Inr (sint (IVALu b 0))))"

definition pr_byte :: "byte proc" where
  "pr_byte = PRead 1 (\<lambda>b. PRet (Inr (b ! 0)))"

definition pr_vstring :: "nat \<Rightarrow> byte list option proc" where
  "pr_vstring bufsize = pr_bind pr_byte (\<lambda>c.
     pr_bind (if c AND 0x80 \<noteq> 0
              then pr_bind pr_byte (\<lambda>d. PRet (Inr (unat (c AND NOT 0x80) * 0x100 + unat d)))
              else PRet (Inr (unat c))) (\<lambda>len.
       if len \<ge> bufsize then PRet (Inr None)
       else if len \<noteq> 0 then PRead len (\<lambda>b. PRet (Inr (Some b)))
       else PRet (Inr (Some []))))"

text \<open>A program alone, with all its input at hand: what it writes, its result, and the input left over.\<close>

primrec run_proc :: "'a proc \<Rightarrow> (byte list \<times> 'a) reader" where
  "run_proc (PRet r) s = (case r of Inl e \<Rightarrow> Inl e | Inr x \<Rightarrow> Inr (([], x), s))"
| "run_proc (PWrite b p) s = (case run_proc p s of Inl e \<Rightarrow> Inl e | Inr ((w, x), s') \<Rightarrow> Inr ((b @ w, x), s'))"
| "run_proc (PFlush p) s = run_proc p s"
| "run_proc (PRead n g) s = (if length s < n then Inl RERR_STREAMIO else run_proc (g (take n s)) (drop n s))"

section \<open>Two programs and their interleavings\<close>

text \<open>A step of one side: its program, its output buffer, the bytes under way from it and to it.\<close>

fun side_step :: "'a proc \<times> byte list \<times> byte list \<times> byte list \<Rightarrow> ('a proc \<times> byte list \<times> byte list \<times> byte list) option" where
  "side_step (PRet r, buf, out, inp) = None"
| "side_step (PWrite b p, buf, out, inp) = Some (p, buf @ b, out, inp)"
| "side_step (PFlush p, buf, out, inp) = Some (p, [], out @ buf, inp)"
| "side_step (PRead n g, buf, out, inp) = (if length inp < n then None else Some (g (take n inp), buf, out, drop n inp))"

record ('a, 'b) talk =
  cl_proc :: "'a proc"
  cl_buf :: "byte list"
  to_server :: "byte list"
  sv_proc :: "'b proc"
  sv_buf :: "byte list"
  to_client :: "byte list"

definition client_step :: "('a, 'b) talk \<Rightarrow> ('a, 'b) talk option" where
  "client_step x = (case side_step (cl_proc x, cl_buf x, to_server x, to_client x) of None \<Rightarrow> None
     | Some (p, b, out, inp) \<Rightarrow> Some (x\<lparr>cl_proc := p, cl_buf := b, to_server := out, to_client := inp\<rparr>))"

definition server_step :: "('a, 'b) talk \<Rightarrow> ('a, 'b) talk option" where
  "server_step x = (case side_step (sv_proc x, sv_buf x, to_client x, to_server x) of None \<Rightarrow> None
     | Some (p, b, out, inp) \<Rightarrow> Some (x\<lparr>sv_proc := p, sv_buf := b, to_client := out, to_server := inp\<rparr>))"

text \<open>Runs of two parties in any order, with the number of their steps.\<close>

inductive runs :: "('s \<Rightarrow> 's option) \<Rightarrow> ('s \<Rightarrow> 's option) \<Rightarrow> nat \<Rightarrow> 's \<Rightarrow> 's \<Rightarrow> bool" for f g where
  runs_here: "runs f g 0 x x"
| runs_left: "f x = Some y \<Longrightarrow> runs f g n y z \<Longrightarrow> runs f g (Suc n) x z"
| runs_right: "g x = Some y \<Longrightarrow> runs f g n y z \<Longrightarrow> runs f g (Suc n) x z"

inductive_cases runs_SucE: "runs f g (Suc n) x z"
inductive_cases runs_0E: "runs f g 0 x z"

text \<open>When the steps of the two parties commute, one run to the end decides all: every run is part of one of that length to that end.\<close>

locale two_parties =
  fixes f g :: "'s \<Rightarrow> 's option"
  assumes commute: "f x = Some y \<Longrightarrow> g x = Some z \<Longrightarrow> \<exists>w. g y = Some w \<and> f z = Some w"
begin

lemma step_towards_end:
  assumes "runs f g n x e" "f e = None" "g e = None" "f x = Some y \<or> g x = Some y"
  shows "\<exists>m. n = Suc m \<and> runs f g m y e"
  using assms
proof (induction n arbitrary: x y)
  case 0
  then show ?case by (auto elim: runs_0E)
next
  case (Suc n)
  have meet: "\<exists>m. Suc n = Suc m \<and> runs f g m y e"
    if r: "runs f g n u e" and w: "f u = Some w \<or> g u = Some w" "f y = Some w \<or> g y = Some w" for u w
  proof -
    obtain m where m: "n = Suc m" "runs f g m w e" using Suc.IH [OF r Suc.prems(2,3) w(1)] by blast
    then show ?thesis using w(2) by (auto intro: runs_left runs_right)
  qed
  from Suc.prems(1) consider u where "f x = Some u" "runs f g n u e" | u where "g x = Some u" "runs f g n u e" by (auto elim: runs_SucE)
  then show ?case
  proof cases
    case (1 u)
    then show ?thesis using Suc.prems(4) commute [of x u y] meet [of u] by auto
  next
    case (2 u)
    then show ?thesis using Suc.prems(4) commute [of x y u] meet [of u] by auto
  qed
qed

lemma all_runs_end:
  assumes "runs f g k x y" "runs f g n x e" "f e = None" "g e = None"
  shows "k \<le> n \<and> runs f g (n - k) y e"
  using assms(1,2)
proof (induction arbitrary: n rule: runs.induct)
  case (runs_left x y k z)
  then show ?case using step_towards_end [OF runs_left.prems assms(3,4)] by fastforce
next
  case (runs_right x y k z)
  then show ?case using step_towards_end [OF runs_right.prems assms(3,4)] by fastforce
qed simp

lemma stuck_only_at_end:
  assumes "runs f g k x y" "runs f g n x e" "f e = None" "g e = None" "f y = None" "g y = None"
  shows "y = e"
proof -
  obtain m where "runs f g m y e" using all_runs_end [OF assms(1-4)] by blast
  then show ?thesis using assms(5,6) by (cases m) (auto elim: runs_0E runs_SucE)
qed

end

text \<open>Bytes that are added to the input of a side that can take a step change nothing of the step.\<close>

lemma side_step_more:
  "side_step (p, b, out, inp) = Some (p', b', out', inp') \<Longrightarrow>
   side_step (p, b, out, inp @ ext) = Some (p', b', out', inp' @ ext)
   \<and> (\<exists>new. out' = out @ new \<and> (\<forall>o2. side_step (p, b, o2, inp) = Some (p', b', o2 @ new, inp')))"
  by (cases p) (auto split: if_splits)

interpretation talk_parties: two_parties "client_step :: ('a, 'b) talk \<Rightarrow> _" server_step
proof (unfold_locales, goal_cases)
  case (1 x y z)
  obtain p b out inp where c: "side_step (cl_proc x, cl_buf x, to_server x, to_client x) = Some (p, b, out, inp)"
    "y = x\<lparr>cl_proc := p, cl_buf := b, to_server := out, to_client := inp\<rparr>"
    using 1(1) by (auto simp: client_step_def split: option.splits)
  obtain q d out2 inp2 where s: "side_step (sv_proc x, sv_buf x, to_client x, to_server x) = Some (q, d, out2, inp2)"
    "z = x\<lparr>sv_proc := q, sv_buf := d, to_client := out2, to_server := inp2\<rparr>"
    using 1(2) by (auto simp: server_step_def split: option.splits)
  obtain new where new: "out = to_server x @ new" "\<And>o2. side_step (cl_proc x, cl_buf x, o2, to_client x) = Some (p, b, o2 @ new, inp)"
    using side_step_more [OF c(1)] by blast
  obtain new2 where new2: "out2 = to_client x @ new2" "\<And>o2. side_step (sv_proc x, sv_buf x, o2, to_server x) = Some (q, d, o2 @ new2, inp2)"
    using side_step_more [OF s(1)] by blast
  have "side_step (cl_proc x, cl_buf x, inp2, to_client x @ new2) = Some (p, b, inp2 @ new, inp @ new2)"
    using side_step_more [OF new(2) [of inp2], of new2] by blast
  moreover have "side_step (sv_proc x, sv_buf x, inp, to_server x @ new) = Some (q, d, inp @ new2, inp2 @ new)"
    using side_step_more [OF new2(2) [of inp], of new] by blast
  ultimately show ?case
    by (simp add: client_step_def server_step_def c(2) s(2) new(1) new2(1))
qed

section \<open>Reading what was written\<close>

text \<open>\<open>gets p s x\<close>: the program \<open>p\<close> only reads, takes exactly the bytes \<open>s\<close> and returns \<open>x\<close>.\<close>

inductive gets :: "'a proc \<Rightarrow> byte list \<Rightarrow> 'a \<Rightarrow> bool" where
  gets_ret: "gets (PRet (Inr x)) [] x"
| gets_read: "length b = n \<Longrightarrow> gets (g b) s x \<Longrightarrow> gets (PRead n g) (b @ s) x"

lemma gets_bind: "gets p s x \<Longrightarrow> gets (f x) s' y \<Longrightarrow> gets (pr_bind p f) (s @ s') y"
  by (induction rule: gets.induct) (auto intro: gets.intros)

lemma gets_run: "gets p s x \<Longrightarrow> run_proc (pr_bind p f) (s @ r) = run_proc (f x) r"
  by (induction rule: gets.induct) auto

lemma gets_int: "in_int32 v \<Longrightarrow> gets pr_int (write_int v) v"
  using gets_read [of "write_int v" 4 "\<lambda>b. PRet (Inr (sint (IVALu b 0)))" "[]"] read_int_write_int [of v "[]"]
  by (auto simp: pr_int_def read_int_def reader_simps read_buf_def gets_ret split: if_splits)

text \<open>On complete input the programs are the readers of the wire theory.\<close>

lemma run_proc_bind:
  "run_proc (pr_bind p f) s = (case run_proc p s of Inl e \<Rightarrow> Inl e
     | Inr ((w, x), s') \<Rightarrow> (case run_proc (f x) s' of Inl e \<Rightarrow> Inl e | Inr ((w', y), s'') \<Rightarrow> Inr ((w @ w', y), s'')))"
  by (induction p arbitrary: s) (auto split: sum.split prod.split)

lemma run_pr_int: "run_proc pr_int s = (case read_int s of Inl e \<Rightarrow> Inl e | Inr (v, s') \<Rightarrow> Inr (([], v), s'))"
  by (simp add: pr_int_def read_int_def rd_bind_def rd_return_def read_buf_def)

lemma run_pr_vstring: "run_proc (pr_vstring n) s = (case read_vstring n s of Inl e \<Rightarrow> Inl e | Inr (v, s') \<Rightarrow> Inr (([], v), s'))"
  by (auto simp: pr_vstring_def pr_byte_def read_vstring_def read_byte_def rd_bind_def rd_return_def read_buf_def Let_def not_less
      split: sum.split)

text \<open>A program that only reads: its run on complete input gives the bytes it takes.\<close>

primrec reads_only :: "'a proc \<Rightarrow> bool" where
  "reads_only (PRet r) = True"
| "reads_only (PWrite b p) = False"
| "reads_only (PFlush p) = False"
| "reads_only (PRead n g) = (\<forall>b. reads_only (g b))"

lemma reads_only_bind: "reads_only p \<Longrightarrow> (\<And>x. reads_only (f x)) \<Longrightarrow> reads_only (pr_bind p f)"
  by (induction p) (auto split: sum.split)

lemma gets_of_run: "reads_only p \<Longrightarrow> run_proc p s = Inr ((w, x), r) \<Longrightarrow> \<exists>t. s = t @ r \<and> gets p t x"
proof (induction p arbitrary: s)
  case (PRet v)
  then show ?case by (auto split: sum.splits intro: gets_ret)
next
  case (PRead n g)
  then have n: "n \<le> length s" "run_proc (g (take n s)) (drop n s) = Inr ((w, x), r)" "reads_only (g (take n s))" by (auto split: if_splits)
  from PRead.IH [OF _ n(3,2)] obtain t where t: "drop n s = t @ r" "gets (g (take n s)) t x" by auto
  have "s = (take n s @ t) @ r" using t(1) by (metis append.assoc append_take_drop_id)
  moreover have "gets (PRead n g) (take n s @ t) x" using n(1) t(2) by (intro gets_read) simp_all
  ultimately show ?case by blast
qed simp_all

lemma gets_vstring:
  assumes "read_vstring n b = Inr (Some v, [])" shows "gets (pr_vstring n) b (Some v)"
proof -
  have "reads_only (pr_vstring n)" by (auto simp: pr_vstring_def pr_byte_def intro!: reads_only_bind)
  then show ?thesis using gets_of_run [of "pr_vstring n" b "[]" "Some v" "[]"] assms by (simp add: run_pr_vstring)
qed

lemma gets_last: "length b = n \<Longrightarrow> gets (PRead n (\<lambda>b. PRet (Inr (h b)))) b (h b)"
  using gets_read [of b n "\<lambda>b. PRet (Inr (h b))" "[]" "h b"] by (simp add: gets_ret)

section \<open>Following a run\<close>

text \<open>Several writes in a row.\<close>

definition pr_writes :: "byte list list \<Rightarrow> 'a proc \<Rightarrow> 'a proc" where
  "pr_writes ws p = foldr PWrite ws p"

lemma run_pr_writes: "run_proc (pr_writes ws p) s = (case run_proc p s of Inl e \<Rightarrow> Inl e | Inr ((w, x), s') \<Rightarrow> Inr ((concat ws @ w, x), s'))"
  by (induction ws) (auto simp: pr_writes_def split: sum.split prod.split)

definition reach :: "('a, 'b) talk \<Rightarrow> ('a, 'b) talk \<Rightarrow> bool" where
  "reach x y \<longleftrightarrow> (\<exists>n. runs client_step server_step n x y)"

abbreviation talking :: "'a proc \<Rightarrow> byte list \<Rightarrow> byte list \<Rightarrow> 'b proc \<Rightarrow> byte list \<Rightarrow> byte list \<Rightarrow> ('a, 'b) talk" where
  "talking p b out q d inp \<equiv> \<lparr>cl_proc = p, cl_buf = b, to_server = out, sv_proc = q, sv_buf = d, to_client = inp\<rparr>"

lemma reach_refl: "reach x x"
  unfolding reach_def by (blast intro: runs_here)

lemma reach_client: "client_step x = Some y \<Longrightarrow> reach y z \<Longrightarrow> reach x z"
  unfolding reach_def by (blast intro: runs_left)

lemma reach_server: "server_step x = Some y \<Longrightarrow> reach y z \<Longrightarrow> reach x z"
  unfolding reach_def by (blast intro: runs_right)

lemma client_writes: "reach (talking p (b @ concat ws) out q d inp) z \<Longrightarrow> reach (talking (pr_writes ws p) b out q d inp) z"
proof (induction ws arbitrary: b)
  case (Cons w ws)
  then have "reach (talking (pr_writes ws p) (b @ w) out q d inp) z" by simp
  then show ?case by (rule reach_client [rotated]) (simp add: client_step_def pr_writes_def)
qed (simp add: pr_writes_def)

lemma server_writes: "reach (talking p b out q (d @ concat ws) inp) z \<Longrightarrow> reach (talking p b out (pr_writes ws q) d inp) z"
proof (induction ws arbitrary: d)
  case (Cons w ws)
  then have "reach (talking p b out (pr_writes ws q) (d @ w) inp) z" by simp
  then show ?case by (rule reach_server [rotated]) (simp add: server_step_def pr_writes_def)
qed (simp add: pr_writes_def)

lemma client_flushes: "reach (talking p [] (out @ b) q d inp) z \<Longrightarrow> reach (talking (PFlush p) b out q d inp) z"
  by (rule reach_client [rotated]) (simp_all add: client_step_def)

lemma server_flushes: "reach (talking p b out q [] (inp @ d)) z \<Longrightarrow> reach (talking p b out (PFlush q) d inp) z"
  by (rule reach_server [rotated]) (simp_all add: server_step_def)

lemma client_gets: "gets p s x \<Longrightarrow> reach (talking (f x) b out q d r) z \<Longrightarrow> reach (talking (pr_bind p f) b out q d (s @ r)) z"
proof (induction rule: gets.induct)
  case (gets_read w n g s x)
  then have "reach (talking (pr_bind (g w) f) b out q d (s @ r)) z" by simp
  then show ?case by (rule reach_client [rotated]) (use gets_read.hyps(1) in \<open>simp add: client_step_def\<close>)
qed simp

lemma server_gets: "gets q s x \<Longrightarrow> reach (talking p b r (f x) d inp) z \<Longrightarrow> reach (talking p b (s @ r) (pr_bind q f) d inp) z"
proof (induction rule: gets.induct)
  case (gets_read w n g s x)
  then have "reach (talking p b (s @ r) (pr_bind (g w) f) d inp) z" by simp
  then show ?case by (rule reach_server [rotated]) (use gets_read.hyps(1) in \<open>simp add: server_step_def\<close>)
qed simp

text \<open>A run to an end of both sides stands for all runs.\<close>

lemma reach_all_runs:
  assumes "reach x (talking (PRet u) b out (PRet v) d inp)"
  shows "\<exists>n. \<forall>k y. runs client_step server_step k x y \<longrightarrow> k \<le> n
    \<and> (client_step y = None \<and> server_step y = None \<longrightarrow> y = talking (PRet u) b out (PRet v) d inp)"
proof -
  obtain n where n: "runs client_step server_step n x (talking (PRet u) b out (PRet v) d inp)" using assms by (auto simp: reach_def)
  have e: "client_step (talking (PRet u) b out (PRet v) d inp) = None" "server_step (talking (PRet u) b out (PRet v) d inp) = None"
    by (simp_all add: client_step_def server_step_def)
  show ?thesis
  proof (intro exI [of _ n] allI impI conjI)
    fix k y assume y: "runs client_step server_step k x y"
    show "k \<le> n" using talk_parties.all_runs_end [OF y n e] by simp
    assume "client_step y = None \<and> server_step y = None"
    then show "y = talking (PRet u) b out (PRet v) d inp" using talk_parties.stuck_only_at_end [OF y n e] by simp
  qed
qed

end
