(* ===== verification/RdmaSetup.thy ===== *)
theory RdmaSetup
  imports Rdma Exchange
begin

unbundle bit_operations_syntax

text \<open>
  The negotiation of \<^verbatim>\<open>rdma.c\<close> over the control connection: the programs of the two sides with their writes, flushes and
  reads in the order of the source, the choice of rails, and the exchange of queue-pair parameters over the bootstrap
  sockets. The devices found on a host and the ports its listeners get are arguments.
\<close>

section \<open>Definitions\<close>

definition RDMA_POLICY_AUTO :: int where "RDMA_POLICY_AUTO = 0"
definition RDMA_POLICY_REQUIRED :: int where "RDMA_POLICY_REQUIRED = 1"
definition RDMA_POLICY_OFF :: int where "RDMA_POLICY_OFF = 2"
definition IFNAMSIZ :: nat where "IFNAMSIZ = 16"
definition INET_ADDRSTRLEN :: nat where "INET_ADDRSTRLEN = 16"

record rdma_opts =
  rdma_policy :: int
  rdma_requested_rails :: int
  rdma_chunk_size :: int
  rdma_queue_depth :: int
  rdma_bootstrap_port :: int

record rdma_candidate =
  ca_ibdev :: "byte list"
  ca_netdev :: "byte list"
  ca_address :: "byte list"
  ca_rate_gbps :: int
  ca_listen_port :: int

record rdma_endpoint =
  ep_ibdev :: "byte list option"
  ep_netdev :: "byte list option"
  ep_address :: "byte list option"
  ep_port :: int
  ep_rate_gbps :: int

text \<open>The outcome of a preflight: no RDMA, or the parameters agreed and the pairs of devices selected.\<close>

record rdma_agreed =
  ag_chunk :: int
  ag_depth :: int
  ag_cookie :: "byte list"
  ag_rails :: "(int \<times> int) list"

definition fallback :: "bool \<Rightarrow> int \<Rightarrow> 'a option result" where
  "fallback am_server policy = (if \<not> am_server \<and> policy = RDMA_POLICY_REQUIRED then Inl RERR_UNSUPPORTED else Inr None)"

text \<open>The device filter: a comma-separated list of names.\<close>

function filter_loop :: "byte list \<Rightarrow> byte list \<Rightarrow> byte list \<Rightarrow> bool" where
  "filter_loop p ibdev netdev =
     (if p \<noteq> []
      then (let item = takeWhile (\<lambda>c. c \<noteq> 44) p; rest = dropWhile (\<lambda>c. c \<noteq> 44) p
            in if item = ibdev \<or> item = netdev then True
               else if rest = [] then False
               else filter_loop (tl rest) ibdev netdev)
      else False)"
  by pat_completeness auto
termination
proof (relation "measure (\<lambda>(p, ib, nd). length p)", goal_cases)
  case (2 p ib nd item rest)
  then have "rest \<noteq> []" "length rest \<le> length p" by (simp_all add: length_dropWhile_le)
  then show ?case by (cases rest) simp_all
qed simp

declare filter_loop.simps [simp del]

definition filter_matches :: "byte list \<Rightarrow> byte list \<Rightarrow> byte list \<Rightarrow> bool" where
  "filter_matches rdma_device_filter ibdev netdev = (rdma_device_filter = [] \<or> filter_loop rdma_device_filter ibdev netdev)"

subsection \<open>The choice of rails\<close>

definition desired_rails :: "int \<Rightarrow> int list \<Rightarrow> int list \<Rightarrow> nat" where
  "desired_rails requested local_rates remote_rates =
     (if local_rates = [] \<or> remote_rates = [] then 0
      else if requested \<noteq> 0 then nat requested
      else if length local_rates \<ge> 2 \<and> length remote_rates \<ge> 2 then 2
      else if length local_rates = 1 \<and> length remote_rates \<ge> 2
              \<and> to_int32 (local_rates ! 0 * 2) \<ge> to_int32 (remote_rates ! 0 * 3) then 2
      else if length local_rates \<ge> 2 \<and> length remote_rates = 1
              \<and> to_int32 (remote_rates ! 0 * 2) \<ge> to_int32 (local_rates ! 0 * 3) then 2
      else 1)"

definition choose_rails :: "int \<Rightarrow> int list \<Rightarrow> int list \<Rightarrow> (int \<times> int) list" where
  "choose_rails requested local_rates remote_rates =
     map (\<lambda>i. (int (i mod length local_rates), int (i mod length remote_rates)))
       [0..<desired_rails requested local_rates remote_rates]"

subsection \<open>Messages\<close>

definition hello_writes :: "rdma_opts \<Rightarrow> byte list \<Rightarrow> byte list list" where
  "hello_writes ro cookie =
     [write_int (uint RDMA_CTL_MAGIC), write_int RDMA_CTL_VERSION, write_int (rdma_policy ro), write_int (rdma_requested_rails ro),
      write_int (rdma_chunk_size ro), write_int (rdma_queue_depth ro), write_int (rdma_bootstrap_port ro), cookie]"

text \<open>What the server reads first, and whether it accepts it.\<close>

definition read_hello :: "(int \<times> int \<times> rdma_opts \<times> byte list) proc" where
  "read_hello =
     pr_bind pr_int (\<lambda>magic. pr_bind pr_int (\<lambda>version. pr_bind pr_int (\<lambda>policy. pr_bind pr_int (\<lambda>rails.
     pr_bind pr_int (\<lambda>chunk. pr_bind pr_int (\<lambda>depth. pr_bind pr_int (\<lambda>port.
     PRead RDMA_COOKIE_LEN (\<lambda>cookie.
       PRet (Inr (magic, version, \<lparr>rdma_policy = policy, rdma_requested_rails = rails, rdma_chunk_size = chunk,
                                   rdma_queue_depth = depth, rdma_bootstrap_port = port\<rparr>, cookie))))))))))"

definition hello_ok :: "int \<Rightarrow> int \<Rightarrow> rdma_opts \<Rightarrow> bool" where
  "hello_ok magic version ro \<longleftrightarrow> \<not> ((word_of_int magic :: uint32) \<noteq> RDMA_CTL_MAGIC \<or> version \<noteq> RDMA_CTL_VERSION
     \<or> (rdma_policy ro \<noteq> RDMA_POLICY_AUTO \<and> rdma_policy ro \<noteq> RDMA_POLICY_REQUIRED)
     \<or> rdma_requested_rails ro < 0 \<or> rdma_requested_rails ro > RDMA_MAX_RAILS
     \<or> rdma_chunk_size ro < 4096 \<or> rdma_chunk_size ro > 8 * 1024 * 1024
     \<or> rdma_chunk_size ro AND 63 \<noteq> 0 \<or> rdma_queue_depth ro < 2 \<or> rdma_queue_depth ro > 4096
     \<or> rdma_bootstrap_port ro < 0 \<or> rdma_bootstrap_port ro > 65535)"

text \<open>A string put on the wire; names and reasons are shorter than the limit of \<^verbatim>\<open>write_vstring\<close>.\<close>

definition vstring_bytes :: "byte list \<Rightarrow> byte list" where
  "vstring_bytes str = (case write_vstring str of Inl _ \<Rightarrow> [] | Inr b \<Rightarrow> b)"

definition send_preflight_status :: "int \<Rightarrow> byte list \<Rightarrow> byte list list" where
  "send_preflight_status ok reason = [write_int ok, vstring_bytes reason]"

text \<open>The candidates for which a listener could be made, with their ports, in order.\<close>

primrec usable_candidates :: "(nat \<Rightarrow> int option) \<Rightarrow> nat \<Rightarrow> rdma_candidate list \<Rightarrow> rdma_candidate list" where
  "usable_candidates make_listener i [] = []"
| "usable_candidates make_listener i (c # cs) =
     (case make_listener i of None \<Rightarrow> usable_candidates make_listener (Suc i) cs
      | Some port \<Rightarrow> c\<lparr>ca_listen_port := port\<rparr> # usable_candidates make_listener (Suc i) cs)"

definition candidate_writes :: "rdma_candidate \<Rightarrow> byte list list" where
  "candidate_writes c = [vstring_bytes (ca_ibdev c), vstring_bytes (ca_netdev c), vstring_bytes (ca_address c),
     write_int (ca_listen_port c), write_int (ca_rate_gbps c)]"

text \<open>The pairs the client selected; the server checks the index of its own device.\<close>

primrec read_selection :: "nat \<Rightarrow> int \<Rightarrow> (int \<times> int) list option proc" where
  "read_selection 0 candidate_count = PRet (Inr (Some []))"
| "read_selection (Suc n) candidate_count =
     pr_bind pr_int (\<lambda>l. pr_bind pr_int (\<lambda>r.
       if r < 0 \<or> r \<ge> candidate_count then PRet (Inr None)
       else pr_bind (read_selection n candidate_count) (\<lambda>rest.
         PRet (Inr (case rest of None \<Rightarrow> None | Some xs \<Rightarrow> Some ((l, r) # xs))))))"

text \<open>
  \<^verbatim>\<open>server_preflight\<close>, its end first, from the reading of the number of rails. \<open>bad_reason\<close> and \<open>dev_reason\<close> are the texts it sends
  on a bad request and without a usable device.
\<close>

definition server_selection :: "rdma_opts \<Rightarrow> byte list \<Rightarrow> rdma_candidate list \<Rightarrow> rdma_agreed option proc" where
  "server_selection ro cookie usable =
     pr_bind pr_int (\<lambda>rail_count.
       if rail_count < 1 \<or> rail_count > RDMA_MAX_RAILS then PRet (fallback True (rdma_policy ro))
       else pr_bind (read_selection (nat rail_count) (int (length usable))) (\<lambda>sel.
         case sel of
           None \<Rightarrow> PRet (fallback True (rdma_policy ro))
         | Some xs \<Rightarrow> PRet (Inr (Some \<lparr>ag_chunk = rdma_chunk_size ro, ag_depth = rdma_queue_depth ro, ag_cookie = cookie, ag_rails = xs\<rparr>))))"

definition server_preflight ::
  "(rdma_opts \<Rightarrow> nat \<Rightarrow> int option) \<Rightarrow> rdma_candidate list \<Rightarrow> byte list \<Rightarrow> byte list \<Rightarrow> rdma_agreed option proc" where
  "server_preflight make_listener cands bad_reason dev_reason =
     pr_bind read_hello (\<lambda>(magic, version, ro, cookie).
       if \<not> hello_ok magic version ro
       then pr_writes (send_preflight_status 0 bad_reason) (PFlush (PRet (fallback True (rdma_policy ro))))
       else (let usable = usable_candidates (make_listener ro) 0 cands
             in if usable = []
                then pr_writes (send_preflight_status 0 dev_reason) (PFlush (PRet (fallback True (rdma_policy ro))))
                else pr_writes (send_preflight_status 1 [] @ [write_int (int (length usable))] @ concat (map candidate_writes usable))
                  (PFlush (server_selection ro cookie usable))))"

primrec read_endpoints :: "nat \<Rightarrow> rdma_endpoint list option proc" where
  "read_endpoints 0 = PRet (Inr (Some []))"
| "read_endpoints (Suc n) =
     pr_bind (pr_vstring RDMA_NAME_LEN) (\<lambda>ib. pr_bind (pr_vstring IFNAMSIZ) (\<lambda>nd. pr_bind (pr_vstring INET_ADDRSTRLEN) (\<lambda>ad.
     pr_bind pr_int (\<lambda>port. pr_bind pr_int (\<lambda>rate.
       if port < 1 \<or> port > 65535 then PRet (Inr None)
       else pr_bind (read_endpoints n) (\<lambda>rest.
         PRet (Inr (case rest of None \<Rightarrow> None
           | Some es \<Rightarrow> Some (\<lparr>ep_ibdev = ib, ep_netdev = nd, ep_address = ad, ep_port = port, ep_rate_gbps = rate\<rparr> # es)))))))))"

definition selection_writes :: "(int \<times> int) list \<Rightarrow> byte list list" where
  "selection_writes sel = write_int (int (length sel)) # concat (map (\<lambda>(l, r). [write_int l, write_int r]) sel)"

text \<open>\<^verbatim>\<open>client_preflight\<close>, its end first, from the reading of the reply; the client's own devices are \<open>cands\<close>.\<close>

definition client_reply :: "rdma_opts \<Rightarrow> byte list \<Rightarrow> rdma_candidate list \<Rightarrow> rdma_agreed option proc" where
  "client_reply ro cookie cands =
     (let back = PRet (fallback False (rdma_policy ro))
      in pr_bind pr_int (\<lambda>status. pr_bind (pr_vstring RDMA_REASON_LEN) (\<lambda>reason.
           if status = 0 then back
           else pr_bind pr_int (\<lambda>cnt.
             if cnt < 1 \<or> cnt > RDMA_MAX_CANDIDATES then back
             else pr_bind (read_endpoints (nat cnt)) (\<lambda>eps.
               case eps of
                 None \<Rightarrow> back
               | Some es \<Rightarrow>
                   (let sel = choose_rails (rdma_requested_rails ro) (map ca_rate_gbps cands) (map ep_rate_gbps es)
                    in pr_writes (selection_writes sel) (PFlush (
                         if sel = [] then back
                         else PRet (Inr (Some \<lparr>ag_chunk = rdma_chunk_size ro, ag_depth = rdma_queue_depth ro,
                                               ag_cookie = cookie, ag_rails = sel\<rparr>))))))))))"

definition client_preflight :: "rdma_opts \<Rightarrow> byte list \<Rightarrow> rdma_candidate list \<Rightarrow> rdma_agreed option proc" where
  "client_preflight ro cookie cands = pr_writes (hello_writes ro cookie) (PFlush (client_reply ro cookie cands))"

text \<open>\<^verbatim>\<open>rdma_preflight\<close>, with what a process knows of its connection; the programs of the two sides are its arguments.\<close>

record conn_info =
  local_server :: bool
  am_daemon :: bool
  daemon_connection :: bool
  peer_capable :: bool
  do_compression :: bool
  am_server :: bool

definition rdma_preflight :: "int \<Rightarrow> conn_info \<Rightarrow> rdma_agreed option proc \<Rightarrow> rdma_agreed option proc \<Rightarrow> rdma_agreed option proc" where
  "rdma_preflight policy ci server_side client_side =
     (if policy = RDMA_POLICY_OFF \<or> local_server ci \<or> am_daemon ci \<or> daemon_connection ci then PRet (Inr None)
      else if \<not> peer_capable ci then PRet (fallback (am_server ci) policy)
      else if do_compression ci then PRet (fallback (am_server ci) policy)
      else if am_server ci then server_side else client_side)"

subsection \<open>Queue-pair parameters\<close>

definition qp_message :: "nat \<Rightarrow> uint32 \<Rightarrow> uint32 \<Rightarrow> uint32 \<Rightarrow> int \<Rightarrow> int \<Rightarrow> byte list \<Rightarrow> byte list \<Rightarrow> byte list" where
  "qp_message path_index qpn psn mtu chunk depth gid cookie =
     put_u32 RDMA_CTL_MAGIC @ put_u32 (word_of_int RDMA_CTL_VERSION) @ put_u32 (word_of_nat path_index) @ put_u32 qpn @ put_u32 psn
     @ put_u32 mtu @ put_u32 (word_of_int chunk) @ put_u32 (word_of_int depth) @ gid @ cookie"

definition local_psn :: "byte list \<Rightarrow> nat \<Rightarrow> uint32" where
  "local_psn cookie path_index = push_bit 16 (ucast (cookie ! (path_index * 4))) OR push_bit 8 (ucast (cookie ! (path_index * 4 + 1)))
     OR ucast (cookie ! (path_index * 4 + 2))"

text \<open>The checks of \<^verbatim>\<open>exchange_qp\<close> on the peer's message; the queue number, sequence number, MTU and GID it takes.\<close>

definition accept_qp :: "nat \<Rightarrow> int \<Rightarrow> int \<Rightarrow> byte list \<Rightarrow> byte list \<Rightarrow> (uint32 \<times> uint32 \<times> uint32 \<times> byte list) option" where
  "accept_qp path_index chunk depth cookie msg =
     (if get_u32 msg \<noteq> RDMA_CTL_MAGIC \<or> get_u32 (drop 4 msg) \<noteq> word_of_int RDMA_CTL_VERSION
         \<or> get_u32 (drop 8 msg) \<noteq> word_of_nat path_index then None
      else if get_u32 (drop 24 msg) \<noteq> word_of_int chunk \<or> get_u32 (drop 28 msg) \<noteq> word_of_int depth then None
      else if seg msg 48 RDMA_COOKIE_LEN \<noteq> cookie then None
      else Some (get_u32 (drop 12 msg), get_u32 (drop 16 msg), get_u32 (drop 20 msg), seg msg 32 16))"

section \<open>Lemmas\<close>

definition opts_int32 :: "rdma_opts \<Rightarrow> bool" where
  "opts_int32 ro \<longleftrightarrow> in_int32 (rdma_policy ro) \<and> in_int32 (rdma_requested_rails ro) \<and> in_int32 (rdma_chunk_size ro)
     \<and> in_int32 (rdma_queue_depth ro) \<and> in_int32 (rdma_bootstrap_port ro)"

text \<open>What the kernel says of a device: names that fit their buffers, a rate that fits an \<^verbatim>\<open>int\<close>.\<close>

definition cand_ok :: "rdma_candidate \<Rightarrow> bool" where
  "cand_ok c \<longleftrightarrow> length (ca_ibdev c) < RDMA_NAME_LEN \<and> length (ca_netdev c) < IFNAMSIZ
     \<and> length (ca_address c) < INET_ADDRSTRLEN \<and> in_int32 (ca_rate_gbps c)"

lemma read_vstring_bytes [wire_rt]:
  assumes "length s < n" "n \<le> 0x8000" shows "read_vstring n (vstring_bytes s @ r) = Inr (Some s, r)"
proof -
  have "\<not> 0x7FFF < length s" using assms by simp
  then obtain b where b: "write_vstring s = Inr b" by (cases "0x7F < length s") (auto simp: write_vstring_def Let_def)
  then show ?thesis using read_vstring_write_vstring [OF b assms(1)] by (simp add: vstring_bytes_def)
qed

lemma small_int32: "- 65536 \<le> x \<Longrightarrow> x \<le> 65536 \<Longrightarrow> in_int32 x"
  by (simp add: in_int32_def)

lemma gets_vstring_bytes: "length s < n \<Longrightarrow> n \<le> 0x8000 \<Longrightarrow> gets (pr_vstring n) (vstring_bytes s) (Some s)"
  using read_vstring_bytes [of s n "[]"] by (simp add: gets_vstring)

lemma gets_hello:
  assumes "opts_int32 ro" "length cookie = RDMA_COOKIE_LEN"
  shows "gets read_hello (concat (hello_writes ro cookie)) (uint RDMA_CTL_MAGIC, RDMA_CTL_VERSION, ro, cookie)"
proof -
  have i: "in_int32 (uint RDMA_CTL_MAGIC)" "in_int32 RDMA_CTL_VERSION" by (simp_all add: in_int32_def RDMA_CTL_MAGIC_def RDMA_CTL_VERSION_def)
  have o: "in_int32 (rdma_policy ro)" "in_int32 (rdma_requested_rails ro)" "in_int32 (rdma_chunk_size ro)" "in_int32 (rdma_queue_depth ro)"
    "in_int32 (rdma_bootstrap_port ro)" using assms(1) by (simp_all add: opts_int32_def)
  have "\<lparr>rdma_policy = rdma_policy ro, rdma_requested_rails = rdma_requested_rails ro, rdma_chunk_size = rdma_chunk_size ro,
      rdma_queue_depth = rdma_queue_depth ro, rdma_bootstrap_port = rdma_bootstrap_port ro\<rparr> = ro" by (cases ro) simp
  note last = this gets_last [OF assms(2), of "\<lambda>c. (uint RDMA_CTL_MAGIC, RDMA_CTL_VERSION, ro, c)"]
  show ?thesis unfolding read_hello_def hello_writes_def concat.simps append_Nil2
    by (rule gets_bind [OF gets_int [OF i(1)]], rule gets_bind [OF gets_int [OF i(2)]], rule gets_bind [OF gets_int [OF o(1)]],
        rule gets_bind [OF gets_int [OF o(2)]], rule gets_bind [OF gets_int [OF o(3)]], rule gets_bind [OF gets_int [OF o(4)]],
        rule gets_bind [OF gets_int [OF o(5)]])
      (unfold last(1), rule last(2))
qed

lemma usable_ok:
  "list_all cand_ok cands \<Longrightarrow> (\<And>i port. ml i = Some port \<Longrightarrow> 1 \<le> port \<and> port \<le> 65535) \<Longrightarrow>
   list_all (\<lambda>c. cand_ok c \<and> 1 \<le> ca_listen_port c \<and> ca_listen_port c \<le> 65535) (usable_candidates ml i cands)
   \<and> length (usable_candidates ml i cands) \<le> length cands"
proof (induction cands arbitrary: i)
  case (Cons c cs)
  from Cons.IH [of "Suc i"] Cons.prems show ?case
    by (cases "ml i") (auto simp: cand_ok_def)
qed simp

definition endpoint_of :: "rdma_candidate \<Rightarrow> rdma_endpoint" where
  "endpoint_of c = \<lparr>ep_ibdev = Some (ca_ibdev c), ep_netdev = Some (ca_netdev c), ep_address = Some (ca_address c),
     ep_port = ca_listen_port c, ep_rate_gbps = ca_rate_gbps c\<rparr>"

lemma gets_endpoints:
  "list_all (\<lambda>c. cand_ok c \<and> 1 \<le> ca_listen_port c \<and> ca_listen_port c \<le> 65535) cs \<Longrightarrow>
   gets (read_endpoints (length cs)) (concat (concat (map candidate_writes cs))) (Some (map endpoint_of cs))"
proof (induction cs)
  case (Cons c cs)
  then have ok: "cand_ok c" "1 \<le> ca_listen_port c" "ca_listen_port c \<le> 65535" by simp_all
  have v: "gets (pr_vstring RDMA_NAME_LEN) (vstring_bytes (ca_ibdev c)) (Some (ca_ibdev c))"
    "gets (pr_vstring IFNAMSIZ) (vstring_bytes (ca_netdev c)) (Some (ca_netdev c))"
    "gets (pr_vstring INET_ADDRSTRLEN) (vstring_bytes (ca_address c)) (Some (ca_address c))"
    "gets pr_int (write_int (ca_listen_port c)) (ca_listen_port c)" "gets pr_int (write_int (ca_rate_gbps c)) (ca_rate_gbps c)"
    using ok by (auto simp: cand_ok_def RDMA_NAME_LEN_def IFNAMSIZ_def INET_ADDRSTRLEN_def small_int32 intro!: gets_vstring_bytes gets_int)
  let ?tail = "\<lambda>rest. PRet (Inr (case rest of None \<Rightarrow> None | Some es \<Rightarrow> Some (endpoint_of c # es)))"
  have tail: "gets (pr_bind (read_endpoints (length cs)) ?tail) (concat (concat (map candidate_writes cs)) @ []) (Some (map endpoint_of (c # cs)))"
    by (rule gets_bind [OF Cons.IH]) (use Cons.prems gets_ret [of "Some (map endpoint_of (c # cs))"] in simp_all)
  have "gets (read_endpoints (Suc (length cs))) (vstring_bytes (ca_ibdev c) @ vstring_bytes (ca_netdev c) @ vstring_bytes (ca_address c)
      @ write_int (ca_listen_port c) @ write_int (ca_rate_gbps c) @ concat (concat (map candidate_writes cs))) (Some (map endpoint_of (c # cs)))"
    unfolding read_endpoints.simps
    by (rule gets_bind [OF v(1)], rule gets_bind [OF v(2)], rule gets_bind [OF v(3)], rule gets_bind [OF v(4)], rule gets_bind [OF v(5)])
      (use tail ok(2,3) in \<open>simp add: endpoint_of_def cong: option.case_cong\<close>)
  then show ?case by (simp add: candidate_writes_def [of c] del: read_endpoints.simps)
qed (simp add: gets_ret)

lemma gets_selection:
  "list_all (\<lambda>(l, x). 0 \<le> l \<and> l \<le> 65536 \<and> 0 \<le> x \<and> x < m) sel \<Longrightarrow> m \<le> 65536 \<Longrightarrow>
   gets (read_selection (length sel) m) (concat (concat (map (\<lambda>(l, x). [write_int l, write_int x]) sel))) (Some sel)"
proof (induction sel)
  case (Cons y sel)
  obtain l x where y: "y = (l, x)" by (cases y)
  have ok: "0 \<le> x" "x < m" "gets pr_int (write_int l) l" "gets pr_int (write_int x) x"
    using Cons.prems y by (auto intro!: gets_int small_int32)
  let ?tail = "\<lambda>rest. PRet (Inr (case rest of None \<Rightarrow> None | Some xs \<Rightarrow> Some ((l, x) # xs)))"
  have tail: "gets (pr_bind (read_selection (length sel) m) ?tail) (concat (concat (map (\<lambda>(l, x). [write_int l, write_int x]) sel)) @ []) (Some (y # sel))"
    by (rule gets_bind [OF Cons.IH]) (use Cons.prems y gets_ret [of "Some ((l, x) # sel)"] in simp_all)
  have "gets (read_selection (Suc (length sel)) m) (write_int l @ write_int x @ concat (concat (map (\<lambda>(l, x). [write_int l, write_int x]) sel)))
      (Some (y # sel))"
    unfolding read_selection.simps by (rule gets_bind [OF ok(3)], rule gets_bind [OF ok(4)]) (use tail ok(1,2) in simp)
  then show ?case by (simp add: y del: read_selection.simps)
qed (simp add: gets_ret)

lemma desired_rails_le: "0 \<le> q \<Longrightarrow> q \<le> 2 \<Longrightarrow> desired_rails q ls rs \<le> 2"
  by (auto simp: desired_rails_def)

lemma choose_rails_ok:
  assumes "ls \<noteq> []" "rs \<noteq> []" "length ls \<le> 65536"
  shows "list_all (\<lambda>(l, x). 0 \<le> l \<and> l \<le> 65536 \<and> 0 \<le> x \<and> x < int (length rs)) (choose_rails q ls rs)"
proof -
  have "int (i mod length ls) \<le> 65536" for i
    using assms(1,3) by (metis length_greater_0_conv less_imp_le_nat mod_less_divisor of_nat_le_iff of_nat_numeral order_trans)
  then show ?thesis using assms(2) by (auto simp: list_all_iff choose_rails_def)
qed

text \<open>The steps of the client on a refusal and on a list of devices, and of the server on a selection.\<close>

lemma client_refused:
  assumes "length reason < RDMA_REASON_LEN" "reach (talking (PRet (fallback False (rdma_policy ro))) b out q d r) z"
  shows "reach (talking (client_reply ro cookie cands) b out q d (concat (send_preflight_status 0 reason) @ r)) z"
proof -
  have v: "gets pr_int (write_int 0) 0" "gets (pr_vstring RDMA_REASON_LEN) (vstring_bytes reason) (Some reason)"
    using assms(1) by (auto simp: small_int32 RDMA_REASON_LEN_def intro!: gets_int gets_vstring_bytes)
  have "reach (talking (client_reply ro cookie cands) b out q d (write_int 0 @ vstring_bytes reason @ r)) z"
    unfolding client_reply_def Let_def by (rule client_gets [OF v(1)], rule client_gets [OF v(2)]) (use assms(2) in simp)
  then show ?thesis by (simp add: send_preflight_status_def)
qed

lemma client_chooses:
  assumes us: "list_all (\<lambda>c. cand_ok c \<and> 1 \<le> ca_listen_port c \<and> ca_listen_port c \<le> 65535) us" "us \<noteq> []" "length us \<le> 8"
    and sel: "sel = choose_rails (rdma_requested_rails ro) (map ca_rate_gbps cands) (map ca_rate_gbps us)"
    and go: "reach (talking (PRet (if sel = [] then fallback False (rdma_policy ro) else Inr (Some \<lparr>ag_chunk = rdma_chunk_size ro,
        ag_depth = rdma_queue_depth ro, ag_cookie = cookie, ag_rails = sel\<rparr>))) [] (out @ concat (selection_writes sel)) q d r) z"
  shows "reach (talking (client_reply ro cookie cands) [] out q d
    (concat (send_preflight_status 1 [] @ [write_int (int (length us))] @ concat (map candidate_writes us)) @ r)) z"
proof -
  have v: "gets pr_int (write_int 1) 1" "gets (pr_vstring RDMA_REASON_LEN) (vstring_bytes []) (Some [])"
    "gets pr_int (write_int (int (length us))) (int (length us))"
    using us(3) by (auto simp: small_int32 RDMA_REASON_LEN_def intro!: gets_int gets_vstring_bytes)
  have one: "1 \<le> int (length us)" using us(2) by (cases us) simp_all
  have rates: "map ep_rate_gbps (map endpoint_of us) = map ca_rate_gbps us" by (simp add: endpoint_of_def)
  have chosen: "reach (talking (pr_writes (selection_writes sel) (PFlush (if sel = [] then PRet (fallback False (rdma_policy ro))
      else PRet (Inr (Some \<lparr>ag_chunk = rdma_chunk_size ro, ag_depth = rdma_queue_depth ro, ag_cookie = cookie, ag_rails = sel\<rparr>))))) [] out q d r) z"
    by (rule client_writes, rule client_flushes) (use go in \<open>cases "sel = []"; simp\<close>)
  have "\<not> (int (length us) < 1 \<or> int (length us) > RDMA_MAX_CANDIDATES)" using one us(2,3) by (simp add: RDMA_MAX_CANDIDATES_def)
  note cnt = this [THEN if_not_P]
  have "reach (talking (client_reply ro cookie cands) [] out q d
      (write_int 1 @ vstring_bytes [] @ write_int (int (length us)) @ concat (concat (map candidate_writes us)) @ r)) z"
    unfolding client_reply_def Let_def
    by (rule client_gets [OF v(1)], rule client_gets [OF v(2)], simp only: if_False one_neq_zero, rule client_gets [OF v(3)],
        simp only: cnt nat_int, rule client_gets [OF gets_endpoints [OF us(1)]])
      (use chosen in \<open>simp only: option.case rates sel\<close>)
  then show ?thesis by (simp add: send_preflight_status_def)
qed

lemma server_selects:
  assumes ok: "list_all (\<lambda>(l, x). 0 \<le> l \<and> l \<le> 65536 \<and> 0 \<le> x \<and> x < int (length us)) sel" "length sel \<le> 2" "length us \<le> 8"
    and go: "reach (talking p b [] (PRet (Inr (if sel = [] then None else Some \<lparr>ag_chunk = rdma_chunk_size ro, ag_depth = rdma_queue_depth ro,
        ag_cookie = cookie, ag_rails = sel\<rparr>))) d inp) z"
  shows "reach (talking p b (concat (selection_writes sel)) (server_selection ro cookie us) d inp) z"
proof -
  have v: "gets pr_int (write_int (int (length sel))) (int (length sel))" using ok(2) by (auto simp: small_int32 intro!: gets_int)
  have s: "gets (read_selection (length sel) (int (length us))) (concat (concat (map (\<lambda>(l, x). [write_int l, write_int x]) sel))) (Some sel)"
    using gets_selection [OF ok(1)] ok(3) by simp
  have "reach (talking p b (write_int (int (length sel)) @ concat (concat (map (\<lambda>(l, x). [write_int l, write_int x]) sel)) @ [])
      (server_selection ro cookie us) d inp) z"
  proof (unfold server_selection_def, rule server_gets [OF v], goal_cases)
    case 1
    show ?case
    proof (cases "sel = []")
      case True
      then show ?thesis using go by (simp add: fallback_def)
    next
      case False
      then have "\<not> (int (length sel) < 1 \<or> int (length sel) > RDMA_MAX_RAILS)" using ok(2) by (cases sel) (simp_all add: RDMA_MAX_RAILS_def)
      then show ?thesis using go False
          server_gets [OF s, of p b "[]" "case_option (PRet (fallback True (rdma_policy ro))) (\<lambda>xs. PRet (Inr (Some
            \<lparr>ag_chunk = rdma_chunk_size ro, ag_depth = rdma_queue_depth ro, ag_cookie = cookie, ag_rails = xs\<rparr>)))" d inp z] by simp
    qed
  qed
  then show ?thesis by (simp add: selection_writes_def)
qed

text \<open>What the two sides should agree on: RDMA just when the request is valid and both have a device.\<close>

definition preflight_outcome :: "rdma_opts \<Rightarrow> byte list \<Rightarrow> rdma_candidate list \<Rightarrow> rdma_candidate list \<Rightarrow> rdma_agreed option" where
  "preflight_outcome ro cookie usable cands =
     (if hello_ok (uint RDMA_CTL_MAGIC) RDMA_CTL_VERSION ro \<and> usable \<noteq> [] \<and> cands \<noteq> []
      then Some \<lparr>ag_chunk = rdma_chunk_size ro, ag_depth = rdma_queue_depth ro, ag_cookie = cookie,
                 ag_rails = choose_rails (rdma_requested_rails ro) (map ca_rate_gbps cands) (map ca_rate_gbps usable)\<rparr>
      else None)"

lemma choose_rails_empty: "0 \<le> q \<Longrightarrow> choose_rails q ls rs = [] \<longleftrightarrow> ls = [] \<or> rs = []"
  by (auto simp: choose_rails_def desired_rails_def)

lemma preflight_reaches_end:
  assumes "opts_int32 ro" "length cookie = RDMA_COOKIE_LEN"
    and "list_all cand_ok sc" "length sc \<le> 8" "length cc \<le> 8"
    and "\<And>i port. ml ro i = Some port \<Longrightarrow> 1 \<le> port \<and> port \<le> 65535"
    and "length bad_reason < RDMA_REASON_LEN" "length dev_reason < RDMA_REASON_LEN"
    and ag: "ag = preflight_outcome ro cookie (usable_candidates (ml ro) 0 sc) cc"
    and z: "z = talking (PRet (if ag = None then fallback False (rdma_policy ro) else Inr ag)) [] [] (PRet (Inr ag)) [] []"
  shows "reach (talking (client_preflight ro cookie cc) [] [] (server_preflight ml sc bad_reason dev_reason) [] []) z"
proof -
  define us where "us = usable_candidates (ml ro) 0 sc"
  have us: "list_all (\<lambda>c. cand_ok c \<and> 1 \<le> ca_listen_port c \<and> ca_listen_port c \<le> 65535) us" "length us \<le> 8"
    using usable_ok [of sc "ml ro" 0] assms(3,4,6) by (auto simp: us_def)
  let ?C = "client_reply ro cookie cc"
  let ?ok = "hello_ok (uint RDMA_CTL_MAGIC) RDMA_CTL_VERSION ro"
  let ?S = "if \<not> ?ok then pr_writes (send_preflight_status 0 bad_reason) (PFlush (PRet (fallback True (rdma_policy ro))))
    else if us = [] then pr_writes (send_preflight_status 0 dev_reason) (PFlush (PRet (fallback True (rdma_policy ro))))
    else pr_writes (send_preflight_status 1 [] @ [write_int (int (length us))] @ concat (map candidate_writes us)) (PFlush (server_selection ro cookie us))"
  have "reach (talking ?C [] [] ?S [] []) z"
  proof (cases "?ok \<and> us \<noteq> []")
    case False
    then have none: "ag = None" by (auto simp: ag preflight_outcome_def us_def)
    define reason where "reason = (if ?ok then dev_reason else bad_reason)"
    have "?S = pr_writes (send_preflight_status 0 reason) (PFlush (PRet (Inr None)))" using False by (auto simp: reason_def fallback_def)
    moreover have "reach (talking ?C [] [] (pr_writes (send_preflight_status 0 reason) (PFlush (PRet (Inr None)))) [] []) z"
    proof (rule server_writes, rule server_flushes)
      have "length reason < RDMA_REASON_LEN" using assms(7,8) by (simp add: reason_def)
      from client_refused [OF this, of ro "[]" "[]" "PRet (Inr None)" "[]" "[]" z] none
      show "reach (talking ?C [] [] (PRet (Inr None)) [] ([] @ [] @ concat (send_preflight_status 0 reason))) z"
        by (simp add: z reach_refl)
    qed
    ultimately show ?thesis by simp
  next
    case True
    define sel where "sel = choose_rails (rdma_requested_rails ro) (map ca_rate_gbps cc) (map ca_rate_gbps us)"
    have q: "0 \<le> rdma_requested_rails ro" "rdma_requested_rails ro \<le> 2" using True by (auto simp: hello_ok_def RDMA_MAX_RAILS_def)
    then have two: "length sel \<le> 2" using desired_rails_le by (simp add: sel_def choose_rails_def)
    have empty: "sel = [] \<longleftrightarrow> cc = []" using choose_rails_empty [OF q(1)] True by (simp add: sel_def)
    have ok: "list_all (\<lambda>(l, x). 0 \<le> l \<and> l \<le> 65536 \<and> 0 \<le> x \<and> x < int (length us)) sel"
    proof (cases "cc = []")
      case False
      then show ?thesis using choose_rails_ok [of "map ca_rate_gbps cc" "map ca_rate_gbps us" "rdma_requested_rails ro"] True assms(5)
        by (simp add: sel_def)
    qed (use empty in simp)
    let ?ag = "if sel = [] then None else Some \<lparr>ag_chunk = rdma_chunk_size ro, ag_depth = rdma_queue_depth ro, ag_cookie = cookie, ag_rails = sel\<rparr>"
    have agd: "ag = ?ag" using True empty by (simp add: ag preflight_outcome_def us_def [symmetric] sel_def)
    let ?r = "PRet (if sel = [] then fallback False (rdma_policy ro) else Inr (Some \<lparr>ag_chunk = rdma_chunk_size ro,
        ag_depth = rdma_queue_depth ro, ag_cookie = cookie, ag_rails = sel\<rparr>))"
    have "reach (talking ?r [] [] (PRet (Inr ?ag)) [] []) z" unfolding z agd using reach_refl by (cases "sel = []") simp_all
    from server_selects [OF ok two us(2) this]
    have "reach (talking ?C [] [] (server_selection ro cookie us) []
        (concat (send_preflight_status 1 [] @ [write_int (int (length us))] @ concat (map candidate_writes us)) @ [])) z"
      by (intro client_chooses [OF us(1) _ us(2) sel_def]) (use True in simp_all)
    then have "reach (talking ?C [] [] (pr_writes (send_preflight_status 1 [] @ [write_int (int (length us))] @ concat (map candidate_writes us))
        (PFlush (server_selection ro cookie us))) [] []) z"
      by (intro server_writes server_flushes) simp
    then show ?thesis using True by simp
  qed
  note replied = this [unfolded us_def]
  have "reach (talking ?C [] (concat (hello_writes ro cookie) @ []) (server_preflight ml sc bad_reason dev_reason) [] []) z"
    unfolding server_preflight_def
    by (rule server_gets [OF gets_hello [OF assms(1,2)]]) (use replied in \<open>simp only: prod.case Let_def\<close>)
  then show ?thesis unfolding client_preflight_def by (intro client_writes client_flushes) simp
qed

text \<open>
  C10: For every request of a client, of any policy, and every set of devices on the two hosts, the negotiation ends, whatever the interleaving
  of the two sides: no run has more than a fixed number of steps, and a run that cannot go on is one where both have returned, having read all that
  the other wrote. They agree: with RDMA, on the chunk size, queue depth, cookie and pairs of devices, just when the request is valid and both
  hosts have a usable device; without it otherwise, when a client that requires RDMA leaves with an error. (The names of the
  devices fit their buffers, and a host has at most eight of them, as \<^verbatim>\<open>enumerate_candidates\<close> ensures.)
\<close>

theorem preflight_agreement:
  assumes "opts_int32 ro" "length cookie = RDMA_COOKIE_LEN"
    and "list_all cand_ok sc" "length sc \<le> 8" "length cc \<le> 8"
    and "\<And>i port. ml ro i = Some port \<Longrightarrow> 1 \<le> port \<and> port \<le> 65535"
    and "length bad_reason < RDMA_REASON_LEN" "length dev_reason < RDMA_REASON_LEN"
  shows "\<exists>n. \<forall>k y. runs client_step server_step k (talking (client_preflight ro cookie cc) [] [] (server_preflight ml sc bad_reason dev_reason) [] []) y \<longrightarrow>
    k \<le> n \<and> (client_step y = None \<and> server_step y = None \<longrightarrow>
      (let ag = preflight_outcome ro cookie (usable_candidates (ml ro) 0 sc) cc
       in y = talking (PRet (if ag = None then fallback False (rdma_policy ro) else Inr ag)) [] [] (PRet (Inr ag)) [] []))"
  unfolding Let_def by (rule reach_all_runs [OF preflight_reaches_end [OF assms refl refl]])

definition ex_opts :: rdma_opts where
  "ex_opts = \<lparr>rdma_policy = 0, rdma_requested_rails = 0, rdma_chunk_size = 4096, rdma_queue_depth = 8, rdma_bootstrap_port = 0\<rparr>"

definition ex_cand :: rdma_candidate where
  "ex_cand = \<lparr>ca_ibdev = [109], ca_netdev = [101], ca_address = [49], ca_rate_gbps = 100, ca_listen_port = 0\<rparr>"

theorem preflight_agreement_witness:
  "\<exists>n. \<forall>k y. runs client_step server_step k (talking (client_preflight ex_opts (replicate 16 7) [ex_cand]) [] []
      (server_preflight (\<lambda>ro i. Some (18515 + int i mod 2)) [ex_cand, ex_cand] [] []) [] []) y \<longrightarrow>
    k \<le> n \<and> (client_step y = None \<and> server_step y = None \<longrightarrow>
      (let ag = preflight_outcome ex_opts (replicate 16 7) (usable_candidates ((\<lambda>ro i. Some (18515 + int i mod 2)) ex_opts) 0 [ex_cand, ex_cand]) [ex_cand]
       in y = talking (PRet (if ag = None then fallback False (rdma_policy ex_opts) else Inr ag)) [] [] (PRet (Inr ag)) [] []))"
  by (rule preflight_agreement)
    (auto simp: ex_opts_def ex_cand_def opts_int32_def in_int32_def cand_ok_def RDMA_COOKIE_LEN_def
      RDMA_NAME_LEN_def IFNAMSIZ_def INET_ADDRSTRLEN_def RDMA_REASON_LEN_def)

text \<open>
  C23: whatever bytes the peer sends, a server that ends the negotiation with RDMA has a chunk size between
  4096 and 8 MiB that is a multiple of 64, a queue depth between 2 and 4096, one or two rails, and only
  devices of its own list selected.
\<close>

theorem server_preflight_safe:
  assumes "run_proc (server_preflight ml sc bad_reason dev_reason) s = Inr ((out, Some ag), r)"
  shows "4096 \<le> ag_chunk ag \<and> ag_chunk ag \<le> 8 * 1024 * 1024 \<and> ag_chunk ag AND 63 = 0 \<and> 2 \<le> ag_depth ag \<and> ag_depth ag \<le> 4096
    \<and> 1 \<le> length (ag_rails ag) \<and> length (ag_rails ag) \<le> 2
    \<and> list_all (\<lambda>(l, x). 0 \<le> x \<and> x < int (length sc)) (ag_rails ag)"
proof -
  have sel: "run_proc (read_selection n m) s = Inr ((w, Some xs), s') \<Longrightarrow> length xs = n \<and> list_all (\<lambda>y. 0 \<le> snd y \<and> snd y < m) xs" for n m s s' w xs
  proof (induction n arbitrary: s w xs)
    case (Suc n)
    then show ?case by (auto simp: run_proc_bind split: if_splits option.splits sum.splits prod.splits)
  qed simp
  have len: "length (usable_candidates f i cs) \<le> length cs" for f i cs
    by (induction cs arbitrary: i) (auto split: option.splits intro: le_SucI)
  obtain magic version ro cookie s1 w where h: "hello_ok magic version ro"
    and rest: "run_proc (server_selection ro cookie (usable_candidates (ml ro) 0 sc)) s1 = Inr ((w, Some ag), r)"
    using assms by (auto simp: server_preflight_def run_proc_bind run_pr_writes fallback_def Let_def split: if_splits sum.splits prod.splits)
  from rest obtain n xs s2 s3 w2 where "run_proc (read_selection (nat n) (int (length (usable_candidates (ml ro) 0 sc)))) s2 = Inr ((w2, Some xs), s3)"
    "1 \<le> n" "n \<le> RDMA_MAX_RAILS" "ag = \<lparr>ag_chunk = rdma_chunk_size ro, ag_depth = rdma_queue_depth ro, ag_cookie = cookie, ag_rails = xs\<rparr>"
    by (auto simp: server_selection_def run_proc_bind fallback_def split: if_splits option.splits sum.splits prod.splits)
  with sel [OF this(1)] h len [of "ml ro" 0 sc] show ?thesis
    by (auto simp: hello_ok_def RDMA_MAX_RAILS_def list_all_iff)
qed

theorem server_preflight_safe_witness:
  "\<exists>out ag r. run_proc (server_preflight (\<lambda>ro i. Some 18515) [ex_cand] [] [])
        (concat (hello_writes ex_opts (replicate 16 7)) @ concat (selection_writes [(0, 0)])) = Inr ((out, Some ag), r) \<and> ag_chunk ag \<le> 8 * 1024 * 1024"
proof -
  have "case run_proc (server_preflight (\<lambda>ro i. Some 18515) [ex_cand] [] []) (concat (hello_writes ex_opts (replicate 16 7)) @ concat (selection_writes [(0, 0)])) of
      Inl e \<Rightarrow> False | Inr ((out, ag), r) \<Rightarrow> ag \<noteq> None" by code_simp
  then obtain out ag r where x: "run_proc (server_preflight (\<lambda>ro i. Some 18515) [ex_cand] [] [])
      (concat (hello_writes ex_opts (replicate 16 7)) @ concat (selection_writes [(0, 0)])) = Inr ((out, Some ag), r)"
    by (auto split: sum.splits prod.splits)
  from server_preflight_safe [OF x] x show ?thesis by blast
qed

text \<open>
  C35: On a connection to a remote shell, neither local nor a daemon's, a client for which RDMA is required never goes on without it. Whatever
  the server sends, and also when the server does not know RDMA or compression is on, \<^verbatim>\<open>rdma_preflight\<close> ends with RDMA agreed on or
  leaves with an error. On the other connections it is not attempted.
\<close>

theorem required_never_falls_back:
  assumes "rdma_policy ro = RDMA_POLICY_REQUIRED" "\<not> am_server ci"
    and "run_proc (rdma_preflight (rdma_policy ro) ci server_side (client_preflight ro cookie cands)) s = Inr ((out, ag), r)"
  shows "if local_server ci \<or> am_daemon ci \<or> daemon_connection ci then ag = None \<and> out = [] \<and> r = s
    else \<exists>a. ag = Some a \<and> ag_rails a \<noteq> [] \<and> ag_cookie a = cookie"
proof -
  have "\<exists>a. ag = Some a \<and> ag_rails a \<noteq> [] \<and> ag_cookie a = cookie" if "run_proc (client_preflight ro cookie cands) s = Inr ((out, ag), r)"
    using that assms(1)
    by (auto simp: client_preflight_def client_reply_def run_pr_writes run_proc_bind fallback_def Let_def split: if_splits option.splits sum.splits prod.splits)
  then show ?thesis using assms by (auto simp: rdma_preflight_def fallback_def RDMA_POLICY_REQUIRED_def RDMA_POLICY_OFF_def split: if_splits)
qed

definition ex_conn :: conn_info where
  "ex_conn = \<lparr>local_server = False, am_daemon = False, daemon_connection = False, peer_capable = True, do_compression = False, am_server = False\<rparr>"

theorem required_never_falls_back_witness:
  "\<exists>out ag r. run_proc (rdma_preflight 1 ex_conn (PRet (Inr None)) (client_preflight (ex_opts\<lparr>rdma_policy := 1\<rparr>) (replicate 16 7) [ex_cand]))
        (concat (send_preflight_status 1 [] @ [write_int 1] @ candidate_writes (ex_cand\<lparr>ca_listen_port := 18515\<rparr>))) = Inr ((out, ag), r)
      \<and> (\<exists>a. ag = Some a \<and> ag_rails a \<noteq> [] \<and> ag_cookie a = replicate 16 7)"
proof -
  let ?ro = "ex_opts\<lparr>rdma_policy := 1\<rparr>"
  have "case run_proc (rdma_preflight (rdma_policy ?ro) ex_conn (PRet (Inr None)) (client_preflight ?ro (replicate 16 7) [ex_cand]))
      (concat (send_preflight_status 1 [] @ [write_int 1] @ candidate_writes (ex_cand\<lparr>ca_listen_port := 18515\<rparr>))) of
      Inl e \<Rightarrow> False | Inr x \<Rightarrow> True" by code_simp
  then obtain out ag r where x: "run_proc (rdma_preflight (rdma_policy ?ro) ex_conn (PRet (Inr None)) (client_preflight ?ro (replicate 16 7) [ex_cand]))
      (concat (send_preflight_status 1 [] @ [write_int 1] @ candidate_writes (ex_cand\<lparr>ca_listen_port := 18515\<rparr>))) = Inr ((out, ag), r)"
    by (auto split: sum.splits)
  have "rdma_policy ?ro = RDMA_POLICY_REQUIRED" "\<not> am_server ex_conn" by (simp_all add: RDMA_POLICY_REQUIRED_def ex_conn_def)
  from required_never_falls_back [OF this x] x show ?thesis by (auto simp: ex_conn_def)
qed

text \<open>
  C36: the queue-pair message of one side is accepted by the other exactly when path, chunk size, queue
  depth and cookie are those of the receiver, and then gives the sender's queue number, sequence number, MTU
  and GID.
\<close>

theorem accept_qp_iff:
  assumes "length gid = 16" "length cookie = RDMA_COOKIE_LEN"
  shows "accept_qp i chunk depth cookie' (qp_message j qpn psn mtu chunk2 depth2 gid cookie) =
    (if (word_of_nat i :: uint32) = word_of_nat j \<and> (word_of_int chunk :: uint32) = word_of_int chunk2
        \<and> (word_of_int depth :: uint32) = word_of_int depth2 \<and> cookie' = cookie
     then Some (qpn, psn, mtu, gid) else None)"
  using assms by (auto simp: accept_qp_def qp_message_def seg_def RDMA_COOKIE_LEN_def)

theorem accept_qp_iff_witness:
  "accept_qp 1 4096 8 (replicate 16 3) (qp_message 1 77 5 3 4096 8 (replicate 16 9) (replicate 16 3)) = Some (77, 5, 3, replicate 16 9)"
  using accept_qp_iff [of "replicate 16 9" "replicate 16 3" 1 4096 8 "replicate 16 3" 1 77 5 3 4096 8]
  by (simp add: RDMA_COOKIE_LEN_def)

end
