(* ===== verification/FileWrite.thy ===== *)
theory FileWrite
  imports WireIO
begin

text \<open>
  The writing side of \<^verbatim>\<open>fileio.c\<close>: the write buffer of \<^verbatim>\<open>write_file\<close>, the turning of runs of zeros into
  holes, \<^verbatim>\<open>skip_matched\<close> for data that is already in place, and \<^verbatim>\<open>do_punch_hole\<close> of \<^verbatim>\<open>syscall.c\<close>. The file
  behind the descriptor is a list of bytes and a position.
\<close>

section \<open>Definitions\<close>

definition SPARSE_WRITE_SIZE :: nat where "SPARSE_WRITE_SIZE = 1024"
definition WRITE_SIZE :: nat where "WRITE_SIZE = 32 * 1024"
definition wf_writeBufSize :: nat where "wf_writeBufSize = WRITE_SIZE * 8"

text \<open>
  The kernel: how many of the bytes of a \<^verbatim>\<open>write\<close> at a position are taken (negative for an error; a call
  interrupted by a signal is retried and not seen here), and whether \<^verbatim>\<open>fallocate\<close> can punch holes or
  zero ranges, and \<^verbatim>\<open>ftruncate\<close> works. \<open>sparse_files\<close> is the option.
\<close>

record wenv =
  sys_write :: "nat \<Rightarrow> nat \<Rightarrow> int"
  punch_works :: bool
  zero_range_works :: bool
  truncate_works :: bool
  sparse_files :: int

text \<open>
  The file's bytes and the position of the descriptor, the \<^verbatim>\<open>wf_writeBufCnt\<close> bytes waiting in
  \<^verbatim>\<open>wf_writeBuf\<close>, and the static variables of the sparse writer.
\<close>

record wstate =
  wf_data :: "byte list"
  wf_pos :: nat
  wf_writeBuf :: "byte list"
  sparse_seek :: nat
  sparse_past_write :: int
  preallocated_len :: int

definition write_at :: "byte list \<Rightarrow> nat \<Rightarrow> byte list \<Rightarrow> byte list" where
  "write_at data pos bs = take pos data @ replicate (pos - length data) 0 @ bs @ drop (pos + length bs) data"

definition file_write :: "wenv \<Rightarrow> wstate \<Rightarrow> byte list \<Rightarrow> int \<times> wstate" where
  "file_write e w bs =
     (let r = sys_write e (wf_pos w) (length bs)
      in (r, if r \<le> 0 then w
             else w\<lparr>wf_data := write_at (wf_data w) (wf_pos w) (take (nat r) bs), wf_pos := wf_pos w + nat r\<rparr>))"

definition seek_cur :: "nat \<Rightarrow> wstate \<Rightarrow> wstate" where
  "seek_cur n w = w\<lparr>wf_pos := wf_pos w + n\<rparr>"

text \<open>\<^verbatim>\<open>ftruncate\<close> cuts the file or extends it with zeros; \<open>truncate_works\<close> is false where the call or the read-only check before it fails. There is no output file in a dry run.\<close>

definition do_ftruncate :: "wenv \<Rightarrow> wstate \<Rightarrow> nat \<Rightarrow> int \<times> wstate" where
  "do_ftruncate e w sz =
     (if truncate_works e
      then (0, w\<lparr>wf_data := take sz (wf_data w @ replicate (sz - length (wf_data w)) 0)\<rparr>) else (-1, w))"

text \<open>The loop that writes zeros, 4096 at most at a time.\<close>

function write_zeros :: "wenv \<Rightarrow> wstate \<Rightarrow> nat \<Rightarrow> int \<times> wstate" where
  "write_zeros e w len =
     (if len > 0
      then (let (wrote, w1) = file_write e w (replicate (min 4096 len) 0)
            in if wrote \<le> 0 then (-1, w1) else write_zeros e w1 (len - nat wrote))
      else (0, w))"
  by pat_completeness auto
termination by (relation "measure (\<lambda>(e, w, len). len)") auto

declare write_zeros.simps [simp del]

text \<open>
  \<^verbatim>\<open>fallocate\<close> with \<^verbatim>\<open>FALLOC_FL_PUNCH_HOLE | FALLOC_FL_KEEP_SIZE\<close> zeros the part of the range inside the
  file; \<^verbatim>\<open>FALLOC_FL_ZERO_RANGE\<close> also extends the file. The position moves by \<open>len\<close>, and is then compared
  with the end of the hole.
\<close>

definition punch_range :: "byte list \<Rightarrow> nat \<Rightarrow> nat \<Rightarrow> byte list" where
  "punch_range data pos len = take pos data @ replicate (min len (length data - pos)) 0 @ drop (pos + len) data"

definition do_punch_hole :: "wenv \<Rightarrow> wstate \<Rightarrow> int \<Rightarrow> nat \<Rightarrow> int \<times> wstate" where
  "do_punch_hole e w pos len =
     (if 0 \<le> pos \<and> 0 < len \<and> punch_works e
      then (let w1 = seek_cur len (w\<lparr>wf_data := punch_range (wf_data w) (nat pos) len\<rparr>)
            in if int (wf_pos w1) \<noteq> pos + int len then (-1, w1) else (0, w1))
      else if 0 \<le> pos \<and> 0 < len \<and> zero_range_works e
      then (let w1 = seek_cur len (w\<lparr>wf_data := write_at (wf_data w) (nat pos) (replicate len 0)\<rparr>)
            in if int (wf_pos w1) \<noteq> pos + int len then (-1, w1) else (0, w1))
      else write_zeros e w len)"

definition sparse_end :: "wenv \<Rightarrow> wstate \<Rightarrow> nat \<Rightarrow> bool \<Rightarrow> int \<times> wstate" where
  "sparse_end e w sz updating_basis_or_equiv =
     (let (ret, w1) =
        (if updating_basis_or_equiv
         then (if sparse_seek w \<noteq> 0
               then (let (r, w2) = do_punch_hole e w (sparse_past_write w) (sparse_seek w)
                     in if r < 0 then (-1, w2) else do_ftruncate e w2 sz)
               else do_ftruncate e w sz)
         else if sparse_seek w \<noteq> 0 then do_ftruncate e w sz else (0, w))
      in (ret, w1\<lparr>sparse_past_write := 0, sparse_seek := 0\<rparr>))"

text \<open>The lengths of the zero runs at the start and at the end of a buffer.\<close>

definition lead_zeros :: "byte list \<Rightarrow> nat" where
  "lead_zeros buf = length (takeWhile (\<lambda>b. b = 0) buf)"

definition trail_zeros :: "byte list \<Rightarrow> nat" where
  "trail_zeros buf = length (takeWhile (\<lambda>b. b = 0) (rev (drop (lead_zeros buf) buf)))"

text \<open>Skipping the pending zeros: a seek past allocated data, a hole inside it.\<close>

definition skip_zeros :: "wenv \<Rightarrow> wstate \<Rightarrow> int \<times> wstate" where
  "skip_zeros e w =
     (if sparse_seek w \<noteq> 0
      then (if sparse_past_write w \<ge> preallocated_len w then (0, seek_cur (sparse_seek w) w)
            else (let (r, w1) = do_punch_hole e w (sparse_past_write w) (sparse_seek w)
                  in if r < 0 then (-1, w1\<lparr>sparse_seek := 0\<rparr>) else (0, w1)))
      else (0, w))"

definition write_sparse :: "wenv \<Rightarrow> wstate \<Rightarrow> bool \<Rightarrow> int \<Rightarrow> byte list \<Rightarrow> int \<times> wstate" where
  "write_sparse e w use_seek offset buf =
     (let len = length buf; l1 = lead_zeros buf; l2 = trail_zeros buf;
          w1 = w\<lparr>sparse_seek := sparse_seek w + l1\<rparr>
      in if l1 = len then (int len, w1)
         else (let (r, w2) = skip_zeros e w1
               in if r < 0 then (-1, w2)
                  else (let w3 = w2\<lparr>sparse_seek := l2, sparse_past_write := offset + int len - int l2\<rparr>;
                            mid = seg buf l1 (len - (l1 + l2))
                        in if use_seek then (int len, seek_cur (length mid) w3)
                           else (let (ret, w4) = file_write e w3 mid
                                 in if ret \<le> 0 then (ret, w4\<lparr>sparse_seek := 0\<rparr>)
                                    else if ret \<noteq> int (length mid) then (int l1 + ret, w4\<lparr>sparse_seek := 0\<rparr>)
                                    else (int len, w4)))))"

text \<open>
  The loop of \<^verbatim>\<open>flush_write_file\<close> over the bytes \<open>bp\<close> not yet written. A \<^verbatim>\<open>write\<close> that takes nothing is repeated
  at once: \<open>None\<close> is the loop that does not end. The fuel is one more than the bytes in the buffer.
\<close>

primrec flush_loop :: "nat \<Rightarrow> wenv \<Rightarrow> wstate \<Rightarrow> byte list \<Rightarrow> int \<Rightarrow> (int \<times> wstate) option" where
  "flush_loop 0 e w bp ret = None"
| "flush_loop (Suc k) e w bp ret =
     (if bp \<noteq> []
      then (let (r, w1) = file_write e w bp
            in if r < 0 then Some (r, w1\<lparr>wf_writeBuf := take (length bp) (wf_writeBuf w1)\<rparr>)
               else flush_loop k e w1 (drop (nat r) bp) r)
      else Some (ret, w\<lparr>wf_writeBuf := []\<rparr>))"

definition flush_write_file :: "wenv \<Rightarrow> wstate \<Rightarrow> (int \<times> wstate) option" where
  "flush_write_file e w = flush_loop (Suc (length (wf_writeBuf w))) e w (wf_writeBuf w) 0"

text \<open>
  The loop of \<^verbatim>\<open>write_file\<close>. Every round but the one that finds the buffer full takes at least one byte, so
  that twice the length of the data, and one more, is enough fuel.
\<close>

primrec write_loop :: "nat \<Rightarrow> wenv \<Rightarrow> wstate \<Rightarrow> bool \<Rightarrow> int \<Rightarrow> byte list \<Rightarrow> int \<Rightarrow> (int \<times> wstate) option" where
  "write_loop 0 e w use_seek offset buf ret = None"
| "write_loop (Suc k) e w use_seek offset buf ret =
     (if buf \<noteq> []
      then (if sparse_files e > 0
            then (let (r1, w1) = write_sparse e w use_seek offset (take SPARSE_WRITE_SIZE buf)
                  in if r1 \<le> 0 then Some (if ret > 0 then ret else r1, w1)
                     else write_loop k e w1 use_seek (offset + r1) (drop (nat r1) buf) (ret + r1))
            else (let r1 = min (length buf) (wf_writeBufSize - length (wf_writeBuf w));
                      w1 = w\<lparr>wf_writeBuf := wf_writeBuf w @ take r1 buf\<rparr>;
                      next_round = (\<lambda>w2. if r1 = 0 then Some (if ret > 0 then ret else 0, w2)
                                    else write_loop k e w2 use_seek offset (drop r1 buf) (ret + int r1))
                  in if length (wf_writeBuf w1) = wf_writeBufSize
                     then (case flush_write_file e w1 of None \<Rightarrow> None
                           | Some (fr, w2) \<Rightarrow>
                               if fr < 0 then Some (-1, w2)
                               else if r1 = 0 then write_loop k e w2 use_seek offset buf ret
                               else next_round w2)
                     else next_round w1))
      else Some (ret, w))"

definition write_file :: "wenv \<Rightarrow> wstate \<Rightarrow> bool \<Rightarrow> int \<Rightarrow> byte list \<Rightarrow> (int \<times> wstate) option" where
  "write_file e w use_seek offset buf = write_loop (2 * length buf + 1) e w use_seek offset buf 0"

definition skip_matched :: "wenv \<Rightarrow> wstate \<Rightarrow> int \<Rightarrow> byte list \<Rightarrow> (int \<times> wstate) option" where
  "skip_matched e w offset buf =
     (if sparse_files e > 0
      then (case write_file e w True offset buf of None \<Rightarrow> None
            | Some (r, w1) \<Rightarrow> Some (if r \<noteq> int (length buf) then -1 else 0, w1))
      else (case flush_write_file e w of None \<Rightarrow> None
            | Some (fr, w1) \<Rightarrow>
                if fr < 0 then Some (-1, w1)
                else (let w2 = seek_cur (length buf) w1
                      in Some (if int (wf_pos w2) \<noteq> offset + int (length buf) then -1 else 0, w2))))"

text \<open>
  How \<^verbatim>\<open>receive_data\<close> ends an output file: it writes out what is pending, and cuts the file at \<open>offset\<close> when
  it was updated in place or preallocated. An error of \<^verbatim>\<open>ftruncate\<close> is only reported.
\<close>

definition finish_output :: "wenv \<Rightarrow> wstate \<Rightarrow> nat \<Rightarrow> bool \<Rightarrow> bool \<Rightarrow> bool \<Rightarrow> wstate run" where
  "finish_output e w offset updating_basis_or_equiv inplace_sizing is_device =
     run_bind
       (if offset > 0
        then (if sparse_files e > 0
              then (let (r, w1) = sparse_end e w offset updating_basis_or_equiv
                    in if r \<noteq> 0 then Some (Inl RERR_FILEIO) else Some (Inr w1))
              else (case flush_write_file e w of None \<Rightarrow> None
                    | Some (r, w1) \<Rightarrow> if r < 0 then Some (Inl RERR_FILEIO) else Some (Inr w1)))
        else Some (Inr w))
       (\<lambda>w1. if (inplace_sizing \<or> preallocated_len w1 > int offset) \<and> \<not> is_device then Some (Inr (snd (do_ftruncate e w1 offset)))
             else Some (Inr w1))"

section \<open>The file under construction\<close>

text \<open>
  \<open>D\<close> is what the file held before, \<open>L\<close> the bytes given to the writer so far. A file whose position is at
  the end of the bytes that count, zeros being implied past its end:
\<close>

definition ready :: "byte list \<Rightarrow> byte list \<Rightarrow> wstate \<Rightarrow> bool" where
  "ready D L w \<longleftrightarrow> wf_pos w = length L \<and> take (length L) (wf_data w) @ replicate (length L - length (wf_data w)) 0 = L
     \<and> drop (length L) (wf_data w) = drop (length L) D"

definition progress :: "wenv \<Rightarrow> bool" where
  "progress e \<longleftrightarrow> (\<forall>p n. 0 < n \<longrightarrow> 0 < sys_write e p n \<and> sys_write e p n \<le> int n)"

definition full_writes :: "wenv \<Rightarrow> bool" where
  "full_writes e \<longleftrightarrow> (\<forall>p n. 0 < n \<longrightarrow> sys_write e p n = int n)"

text \<open>The invariant of the buffered writer.\<close>

definition plain_inv :: "byte list \<Rightarrow> byte list \<Rightarrow> wstate \<Rightarrow> bool" where
  "plain_inv D L w \<longleftrightarrow> wf_pos w \<le> length L \<and> wf_data w = take (wf_pos w) L @ drop (wf_pos w) D
     \<and> wf_writeBuf w = drop (wf_pos w) L \<and> length (wf_writeBuf w) < wf_writeBufSize"

text \<open>
  The invariant of the sparse writer: zeros at the end of \<open>L\<close> are still to be skipped. Either the file was
  empty, or each write is complete and nothing of the old file lies past \<^verbatim>\<open>preallocated_len\<close>.
\<close>

definition sparse_inv :: "wenv \<Rightarrow> byte list \<Rightarrow> byte list \<Rightarrow> wstate \<Rightarrow> bool" where
  "sparse_inv e D L w \<longleftrightarrow> wf_pos w + sparse_seek w = length L \<and> wf_data w = take (wf_pos w) L @ drop (wf_pos w) D
     \<and> drop (wf_pos w) L = replicate (sparse_seek w) 0
     \<and> (D = [] \<and> preallocated_len w \<le> 0 \<or> full_writes e \<and> int (length D) \<le> preallocated_len w)
     \<and> 0 \<le> sparse_past_write w \<and> (full_writes e \<longrightarrow> sparse_past_write w = int (wf_pos w))"

definition wr_inv :: "wenv \<Rightarrow> byte list \<Rightarrow> byte list \<Rightarrow> wstate \<Rightarrow> bool" where
  "wr_inv e D L w \<longleftrightarrow> (if sparse_files e > 0 then sparse_inv e D L w else plain_inv D L w)"

section \<open>Lemmas\<close>

lemma full_writes_progress: "full_writes e \<Longrightarrow> progress e"
  by (simp add: full_writes_def progress_def)

lemma write_at_ready:
  assumes "ready D L w" shows "write_at (wf_data w) (wf_pos w) bs = L @ bs @ drop (length L + length bs) D"
proof -
  have r: "take (length L) (wf_data w) @ replicate (length L - length (wf_data w)) 0 = L"
    "drop (length L) (wf_data w) = drop (length L) D" "wf_pos w = length L" using assms by (simp_all add: ready_def)
  have "drop (length L + length bs) (wf_data w) = drop (length L + length bs) D"
    using arg_cong [OF r(2), of "drop (length bs)"] by (simp add: add.commute)
  then show ?thesis using r(1) unfolding write_at_def r(3) by (metis append.assoc)
qed

lemma readyI: "wf_pos w = length L \<Longrightarrow> wf_data w = L @ drop (length L) D \<Longrightarrow> ready D L w"
  by (simp add: ready_def)

lemma ready_data:
  assumes "ready D L w" "length L < length D" shows "wf_data w = L @ drop (length L) D"
proof -
  have r: "take (length L) (wf_data w) @ replicate (length L - length (wf_data w)) 0 = L"
    "drop (length L) (wf_data w) = drop (length L) D" using assms(1) by (simp_all add: ready_def)
  from arg_cong [OF r(2), of length] assms(2) have "length L - length (wf_data w) = 0" by simp
  then show ?thesis using r by (metis append_Nil2 append_take_drop_id replicate_empty)
qed

lemma file_write_ready:
  assumes "progress e" "ready D L w" "bs \<noteq> []"
  obtains r where "file_write e w bs = (int r, w\<lparr>wf_data := (L @ take r bs) @ drop (length L + r) D, wf_pos := length L + r\<rparr>)"
    "0 < r" "r \<le> length bs" "full_writes e \<Longrightarrow> r = length bs"
proof -
  define r where "r = nat (sys_write e (wf_pos w) (length bs))"
  have "0 < sys_write e (wf_pos w) (length bs)" "sys_write e (wf_pos w) (length bs) \<le> int (length bs)"
    using assms(1,3) by (auto simp: progress_def)
  then have r: "sys_write e (wf_pos w) (length bs) = int r" "0 < r" "r \<le> length bs" by (simp_all add: r_def)
  moreover have "wf_pos w = length L" using assms(2) by (simp add: ready_def)
  ultimately have "file_write e w bs = (int r, w\<lparr>wf_data := (L @ take r bs) @ drop (length L + r) D, wf_pos := length L + r\<rparr>)"
    using write_at_ready [OF assms(2), of "take r bs"] by (simp add: file_write_def Let_def)
  moreover have "r = length bs" if "full_writes e" using that r(1) assms(3) by (simp add: full_writes_def)
  ultimately show thesis using that r(2,3) by blast
qed

text \<open>Flushing the buffer.\<close>

lemma flush_loop_ok:
  assumes "progress e" "length bp < k" "wf_data w = L @ drop (length L) D" "wf_pos w = length L" "0 \<le> ret"
  shows "\<exists>r\<ge>0. flush_loop k e w bp ret = Some (r, w\<lparr>wf_data := (L @ bp) @ drop (length (L @ bp)) D,
           wf_pos := length (L @ bp), wf_writeBuf := []\<rparr>)"
  using assms(2-)
proof (induction k arbitrary: L w bp ret)
  case (Suc k)
  show ?case
  proof (cases "bp = []")
    case True
    then show ?thesis using Suc.prems by (intro exI [of _ ret]) simp
  next
    case False
    have "ready D L w" using Suc.prems by (intro readyI)
    then obtain r where r: "file_write e w bp = (int r, w\<lparr>wf_data := (L @ take r bp) @ drop (length L + r) D, wf_pos := length L + r\<rparr>)"
      "0 < r" "r \<le> length bp" using file_write_ready [OF assms(1) _ False] by metis
    let ?w = "w\<lparr>wf_data := (L @ take r bp) @ drop (length L + r) D, wf_pos := length L + r\<rparr>"
    have "flush_loop (Suc k) e w bp ret = flush_loop k e ?w (drop r bp) (int r)"
      using False by (simp add: r(1))
    then show ?thesis
      using Suc.IH [of "drop r bp" ?w "L @ take r bp" "int r"] Suc.prems(1) r(2,3) by (simp add: add.assoc)
  qed
qed simp

lemma flush_write_file_ok:
  assumes "progress e" "wf_pos w \<le> length L" "wf_data w = take (wf_pos w) L @ drop (wf_pos w) D" "wf_writeBuf w = drop (wf_pos w) L"
  shows "\<exists>r\<ge>0. flush_write_file e w
           = Some (r, w\<lparr>wf_data := L @ drop (length L) D, wf_pos := length L, wf_writeBuf := []\<rparr>)"
  using flush_loop_ok [OF assms(1), of "wf_writeBuf w" "Suc (length (wf_writeBuf w))" w "take (wf_pos w) L" D 0] assms(2-)
  by (simp add: flush_write_file_def)

text \<open>One call of the buffered writer.\<close>

lemma write_loop_plain:
  assumes "progress e" "sparse_files e \<le> 0" "plain_inv D L w" "2 * length buf < k" "0 \<le> ret"
  shows "\<exists>w'. write_loop k e w use_seek offset buf ret = Some (ret + int (length buf), w') \<and> plain_inv D (L @ buf) w'"
  using assms(3-)
proof (induction k arbitrary: L w buf ret)
  case (Suc k)
  show ?case
  proof (cases "buf = []")
    case True
    then show ?thesis using Suc.prems by simp
  next
    case False
    define r1 where "r1 = min (length buf) (wf_writeBufSize - length (wf_writeBuf w))"
    define w1 where "w1 = w\<lparr>wf_writeBuf := wf_writeBuf w @ take r1 buf\<rparr>"
    have r1: "0 < r1" "r1 \<le> length buf" using Suc.prems(1) False by (auto simp: r1_def plain_inv_def)
    have L1: "wf_pos w1 \<le> length (L @ take r1 buf)" "wf_data w1 = take (wf_pos w1) (L @ take r1 buf) @ drop (wf_pos w1) D"
      "wf_writeBuf w1 = drop (wf_pos w1) (L @ take r1 buf)"
      using Suc.prems(1) by (simp_all add: w1_def plain_inv_def)
    have step: "write_loop (Suc k) e w use_seek offset buf ret =
        (if length (wf_writeBuf w1) = wf_writeBufSize
         then case flush_write_file e w1 of None \<Rightarrow> None
              | Some (fr, w2) \<Rightarrow> if fr < 0 then Some (-1, w2) else write_loop k e w2 use_seek offset (drop r1 buf) (ret + int r1)
         else write_loop k e w1 use_seek offset (drop r1 buf) (ret + int r1))"
      using False assms(2) r1(1) unfolding write_loop.simps Let_def r1_def [symmetric] w1_def [symmetric]
      by (simp split: option.splits)
    have "\<exists>w2. plain_inv D (L @ take r1 buf) w2 \<and> write_loop (Suc k) e w use_seek offset buf ret
        = write_loop k e w2 use_seek offset (drop r1 buf) (ret + int r1)"
    proof (cases "length (wf_writeBuf w1) = wf_writeBufSize")
      case True
      obtain r where "0 \<le> r" "flush_write_file e w1 = Some (r, w1\<lparr>wf_data := (L @ take r1 buf) @ drop (length (L @ take r1 buf)) D,
          wf_pos := length (L @ take r1 buf), wf_writeBuf := []\<rparr>)"
        using flush_write_file_ok [OF assms(1) L1] by blast
      then show ?thesis unfolding step using True r1(2)
        by (intro exI [of _ "snd (the (flush_write_file e w1))"]) (simp add: plain_inv_def wf_writeBufSize_def WRITE_SIZE_def)
    next
      case nfull: False
      have "length (wf_writeBuf w) < wf_writeBufSize" using Suc.prems(1) unfolding plain_inv_def by blast
      then have "length (wf_writeBuf w1) \<le> wf_writeBufSize" by (auto simp: w1_def r1_def min_def)
      then show ?thesis unfolding step using nfull L1 by (intro exI [of _ w1]) (simp add: plain_inv_def)
    qed
    then obtain w2 where w2: "plain_inv D (L @ take r1 buf) w2"
      "write_loop (Suc k) e w use_seek offset buf ret = write_loop k e w2 use_seek offset (drop r1 buf) (ret + int r1)" by blast
    from Suc.IH [OF w2(1), of "drop r1 buf" "ret + int r1"] Suc.prems(2,3) r1 show ?thesis
      unfolding w2(2) by (simp add: of_nat_diff)
  qed
qed simp

text \<open>The sparse writer: the zeros at both ends of a buffer.\<close>

lemma zeros_split:
  assumes "lead_zeros buf \<noteq> length buf"
  defines "mid \<equiv> seg buf (lead_zeros buf) (length buf - (lead_zeros buf + trail_zeros buf))"
  shows "buf = replicate (lead_zeros buf) 0 @ mid @ replicate (trail_zeros buf) 0" "mid \<noteq> []"
    "length buf = lead_zeros buf + length mid + trail_zeros buf"
proof -
  let ?z = "\<lambda>b :: byte. b = 0"
  have zeros: "takeWhile ?z xs = replicate (length (takeWhile ?z xs)) 0" for xs
    by (induction xs) auto
  define rest where "rest = dropWhile ?z buf"
  have buf: "buf = replicate (lead_zeros buf) 0 @ rest"
    unfolding lead_zeros_def rest_def zeros [symmetric] by simp
  have drop: "drop (lead_zeros buf) buf = rest" by (simp add: lead_zeros_def rest_def dropWhile_eq_drop)
  have ne: "rest \<noteq> []" using assms(1) buf by (metis append_Nil2 length_replicate)
  define core where "core = rev (dropWhile ?z (rev rest))"
  have rest: "rest = core @ replicate (trail_zeros buf) 0"
  proof -
    have "rev rest = replicate (trail_zeros buf) 0 @ dropWhile ?z (rev rest)"
      unfolding trail_zeros_def drop zeros [symmetric] by simp
    from arg_cong [OF this, of rev] show ?thesis by (simp add: core_def)
  qed
  have hd: "hd rest \<noteq> 0" using ne unfolding rest_def by (rule hd_dropWhile)
  have core: "core \<noteq> []"
  proof
    assume "core = []"
    then have "rest = replicate (trail_zeros buf) 0" using rest by simp
    then show False using ne hd by (metis hd_replicate replicate_empty)
  qed
  have len: "length buf = lead_zeros buf + length core + trail_zeros buf"
    using arg_cong [OF buf, of length] arg_cong [OF rest, of length] by simp
  have mid: "mid = core"
    unfolding mid_def seg_def drop using len by (subst rest) simp
  show "buf = replicate (lead_zeros buf) 0 @ mid @ replicate (trail_zeros buf) 0"
    using buf rest mid by metis
  show "mid \<noteq> []" using mid core by simp
  show "length buf = lead_zeros buf + length mid + trail_zeros buf" using len mid by simp
qed

lemma all_zeros: "lead_zeros buf = length buf \<Longrightarrow> buf = replicate (length buf) 0"
proof -
  assume "lead_zeros buf = length buf"
  then have "takeWhile (\<lambda>b. b = 0) buf = buf"
    unfolding lead_zeros_def by (metis takeWhile_eq_take take_all order_refl)
  then have "\<forall>b \<in> set buf. b = 0" by (metis (mono_tags) set_takeWhileD)
  then show ?thesis by (intro replicate_eqI) auto
qed

lemma sparse_inv_zeros:
  "sparse_inv e D L w \<Longrightarrow> sparse_inv e D (L @ replicate n 0) (w\<lparr>sparse_seek := sparse_seek w + n\<rparr>)"
  by (auto simp: sparse_inv_def replicate_add)

lemma write_zeros_ready:
  assumes "progress e" "ready D L w" "0 < n"
  shows "write_zeros e w n = (0, w\<lparr>wf_data := (L @ replicate n 0) @ drop (length L + n) D, wf_pos := length L + n\<rparr>)"
  using assms(2,3)
proof (induction n arbitrary: L w rule: less_induct)
  case (less n)
  have "replicate (min 4096 n) (0 :: byte) \<noteq> []" using less.prems(2) by simp
  from file_write_ready [OF assms(1) less.prems(1) this] obtain r where
    r: "file_write e w (replicate (min 4096 n) 0) =
       (int r, w\<lparr>wf_data := (L @ take r (replicate (min 4096 n) 0)) @ drop (length L + r) D, wf_pos := length L + r\<rparr>)"
      "0 < r" "r \<le> length (replicate (min 4096 n) (0 :: byte))" by metis
  let ?w = "w\<lparr>wf_data := (L @ replicate r 0) @ drop (length L + r) D, wf_pos := length L + r\<rparr>"
  have rn: "r \<le> n" "take r (replicate (min 4096 n) (0 :: byte)) = replicate r 0" using r(3) by (simp_all add: min_def split: if_splits)
  have step: "write_zeros e w n = write_zeros e ?w (n - r)"
    using r(1,2) rn less.prems(2) by (subst write_zeros.simps) simp
  show ?case
  proof (cases "n - r = 0")
    case True
    then show ?thesis unfolding step using rn(1) by (simp add: write_zeros.simps)
  next
    case False
    have "ready D (L @ replicate r 0) ?w" by (intro readyI) simp_all
    from less.IH [OF _ this] False r(2) rn(1) show ?thesis
      unfolding step by (simp add: replicate_add [symmetric] add.assoc)
  qed
qed

lemma punch_ready:
  assumes "progress e" "wf_data w = take (wf_pos w) L @ drop (wf_pos w) D" "wf_pos w + n = length L"
    "drop (wf_pos w) L = replicate n 0" "0 < n"
  shows "\<exists>d. do_punch_hole e w (int (wf_pos w)) n = (0, w\<lparr>wf_data := d, wf_pos := length L\<rparr>)
           \<and> ready D L (w\<lparr>wf_data := d, wf_pos := length L\<rparr>)"
proof -
  define P where "P = take (wf_pos w) L"
  have L: "L = P @ replicate n 0" using assms(4) by (metis P_def append_take_drop_id)
  have pos: "wf_pos w = length P" using assms(3) by (simp add: P_def)
  have data: "wf_data w = P @ drop (length P) D" using assms(2) unfolding P_def [symmetric] unfolding pos .
  have rdy: "ready D P w" using pos data by (intro readyI)
  consider "punch_works e" | "\<not> punch_works e" "zero_range_works e" | "\<not> punch_works e" "\<not> zero_range_works e" by blast
  then show ?thesis
  proof cases
    case 1
    have "punch_range (wf_data w) (length P) n = P @ replicate (min n (length D - length P)) 0 @ drop (length P + n) D"
      by (simp add: punch_range_def data add.commute)
    moreover define d where "d = P @ replicate (min n (length D - length P)) 0 @ drop (length P + n) D"
    ultimately have "do_punch_hole e w (int (wf_pos w)) n = (0, w\<lparr>wf_data := d, wf_pos := length L\<rparr>)"
      using 1 assms(5) pos by (simp add: do_punch_hole_def Let_def seek_cur_def L)
    moreover have "ready D L (w\<lparr>wf_data := d, wf_pos := length L\<rparr>)"
    proof (cases "n \<le> length D - length P")
      case True
      then show ?thesis by (intro readyI) (simp_all add: d_def L)
    next
      case False
      then show ?thesis by (simp add: ready_def d_def L replicate_add [symmetric])
    qed
    ultimately show ?thesis by blast
  next
    case 2
    have "write_at (wf_data w) (length P) (replicate n 0) = L @ drop (length L) D"
      using write_at_ready [OF rdy, of "replicate n 0"] by (simp add: pos L)
    moreover have "ready D L (w\<lparr>wf_data := L @ drop (length L) D, wf_pos := length L\<rparr>)" by (intro readyI) simp_all
    ultimately show ?thesis using 2 assms(5) pos
      by (intro exI [of _ "L @ drop (length L) D"]) (simp add: do_punch_hole_def Let_def seek_cur_def L)
  next
    case 3
    moreover have "ready D L (w\<lparr>wf_data := L @ drop (length L) D, wf_pos := length L\<rparr>)" by (intro readyI) simp_all
    ultimately show ?thesis using write_zeros_ready [OF assms(1) rdy assms(5)]
      by (intro exI [of _ "L @ drop (length L) D"]) (simp add: do_punch_hole_def L)
  qed
qed

lemma skip_zeros_ok:
  assumes "progress e" "sparse_inv e D L w"
  shows "\<exists>d. skip_zeros e w = (0, w\<lparr>wf_data := d, wf_pos := length L\<rparr>) \<and> ready D L (w\<lparr>wf_data := d, wf_pos := length L\<rparr>)"
proof -
  have i: "wf_pos w + sparse_seek w = length L" "wf_data w = take (wf_pos w) L @ drop (wf_pos w) D"
    "drop (wf_pos w) L = replicate (sparse_seek w) 0" using assms(2) by (simp_all add: sparse_inv_def)
  consider "sparse_seek w = 0" | "sparse_seek w \<noteq> 0" "preallocated_len w \<le> sparse_past_write w"
    | "sparse_seek w \<noteq> 0" "\<not> preallocated_len w \<le> sparse_past_write w" by blast
  then show ?thesis
  proof cases
    case 1
    then show ?thesis using i by (intro exI [of _ "wf_data w"]) (simp add: skip_zeros_def ready_def)
  next
    case 2
    have old: "drop (wf_pos w) D = []" using assms(2) 2(2) by (auto simp: sparse_inv_def)
    have "take (wf_pos w) L @ replicate (sparse_seek w) 0 = L" using i(3) by (metis append_take_drop_id)
    moreover have "drop (length L) D = []" "length L - wf_pos w = sparse_seek w" using old i(1) by simp_all
    ultimately show ?thesis using 2 i(1,2) old
      by (intro exI [of _ "wf_data w"]) (simp add: skip_zeros_def seek_cur_def ready_def)
  next
    case 3
    then have "sparse_past_write w = int (wf_pos w)" using assms(2) by (auto simp: sparse_inv_def)
    with punch_ready [OF assms(1) i(2,1,3)] 3 show ?thesis by (auto simp: skip_zeros_def)
  qed
qed

lemma write_sparse_ok:
  assumes pr: "progress e" and inv: "sparse_inv e D L w" and ne: "buf \<noteq> []"
    and seek: "use_seek \<Longrightarrow> length L + length buf \<le> length D \<and> seg D (length L) (length buf) = buf"
  shows "\<exists>r w'. write_sparse e w use_seek (int (length L)) buf = (int r, w') \<and> 0 < r \<and> r \<le> length buf
           \<and> sparse_inv e D (L @ take r buf) w'"
proof (cases "lead_zeros buf = length buf")
  case True
  have "sparse_inv e D (L @ buf) (w\<lparr>sparse_seek := sparse_seek w + length buf\<rparr>)"
    using sparse_inv_zeros [OF inv, of "length buf"] all_zeros [OF True] by metis
  then show ?thesis using True ne by (intro exI [of _ "length buf"]) (simp add: write_sparse_def Let_def)
next
  case False
  define l1 l2 where "l1 = lead_zeros buf" and "l2 = trail_zeros buf"
  define mid where "mid = seg buf l1 (length buf - (l1 + l2))"
  note z = zeros_split [OF False, folded l1_def l2_def, folded mid_def]
  define L1 where "L1 = L @ replicate l1 0"
  define w1 where "w1 = w\<lparr>sparse_seek := sparse_seek w + l1\<rparr>"
  have inv1: "sparse_inv e D L1 w1" using sparse_inv_zeros [OF inv] by (simp add: L1_def w1_def)
  obtain d where d: "skip_zeros e w1 = (0, w1\<lparr>wf_data := d, wf_pos := length L1\<rparr>)"
    and rdy: "ready D L1 (w1\<lparr>wf_data := d, wf_pos := length L1\<rparr>)" using skip_zeros_ok [OF pr inv1] by blast
  define w3 where "w3 = w1\<lparr>wf_data := d, wf_pos := length L1, sparse_seek := l2,
      sparse_past_write := int (length L) + int (length buf) - int l2\<rparr>"
  have rdy3: "ready D L1 w3" using rdy by (simp add: ready_def w3_def)
  have step: "write_sparse e w use_seek (int (length L)) buf =
      (if use_seek then (int (length buf), seek_cur (length mid) w3)
       else (let (ret, w4) = file_write e w3 mid
             in if ret \<le> 0 then (ret, w4\<lparr>sparse_seek := 0\<rparr>)
                else if ret \<noteq> int (length mid) then (int l1 + ret, w4\<lparr>sparse_seek := 0\<rparr>)
                else (int (length buf), w4)))"
    using False unfolding write_sparse_def Let_def l1_def [symmetric] l2_def [symmetric] mid_def [symmetric] w1_def [symmetric] d
    by (simp add: w3_def)
  have whole: "L @ buf = (L1 @ mid) @ replicate l2 0" using z(1) by (simp add: L1_def)
  have mode: "D = [] \<and> preallocated_len w \<le> 0 \<or> full_writes e \<and> int (length D) \<le> preallocated_len w"
    using inv by (auto simp: sparse_inv_def)
  have fin: "sparse_inv e D (L @ buf) (w3\<lparr>wf_data := (L1 @ mid) @ drop (length L1 + length mid) D, wf_pos := length L1 + length mid\<rparr>)"
    unfolding whole using mode z(3) by (auto simp: sparse_inv_def w3_def w1_def L1_def)
  show ?thesis
  proof (cases use_seek)
    case True
    have D: "length L1 + length mid \<le> length D" "seg D (length L1) (length mid) = mid"
    proof -
      have s: "length L + length buf \<le> length D" "seg D (length L) (length buf) = buf" using seek True by simp_all
      show "length L1 + length mid \<le> length D" using s z(3) by (simp add: L1_def)
      have "seg (seg D (length L) (length buf)) l1 (length mid) = seg D (length L + l1) (length mid)"
        using z(3) by (intro seg_seg) simp
      moreover have "seg buf l1 (length mid) = mid" by (subst z(1)) (simp add: seg_def)
      ultimately show "seg D (length L1) (length mid) = mid" by (simp add: s(2) L1_def)
    qed
    have "length L1 < length D" using D(1) z(2) by (cases mid) simp_all
    from ready_data [OF rdy3 this] have "wf_data w3 = (L1 @ mid) @ drop (length L1 + length mid) D"
      using D(2) by (metis add.commute append.assoc append_take_drop_id drop_drop seg_def)
    then have "seek_cur (length mid) w3 = w3\<lparr>wf_data := (L1 @ mid) @ drop (length L1 + length mid) D, wf_pos := length L1 + length mid\<rparr>"
      by (simp add: seek_cur_def w3_def)
    then show ?thesis using fin ne True unfolding step by (intro exI [of _ "length buf"]) simp
  next
    case nouse: False
    obtain r where r: "file_write e w3 mid = (int r, w3\<lparr>wf_data := (L1 @ take r mid) @ drop (length L1 + r) D, wf_pos := length L1 + r\<rparr>)"
      "0 < r" "r \<le> length mid" "full_writes e \<Longrightarrow> r = length mid" using file_write_ready [OF pr rdy3 z(2)] by metis
    show ?thesis
    proof (cases "r = length mid")
      case True
      then show ?thesis using fin ne nouse r unfolding step by (intro exI [of _ "length buf"]) simp
    next
      case part: False
      then have A: "\<not> full_writes e" "D = []" "preallocated_len w \<le> 0" using mode r(4) by auto
      have "L @ take (l1 + r) buf = L1 @ take r mid" using z(1) r(3) part
        by (subst z(1)) (simp add: L1_def)
      then show ?thesis using A nouse r part z(3) unfolding step
        by (intro exI [of _ "l1 + r"]) (simp add: sparse_inv_def w3_def w1_def L1_def)
    qed
  qed
qed

lemma write_loop_sparse:
  assumes "progress e" "sparse_files e > 0" "sparse_inv e D L w" "length buf < k" "0 \<le> ret"
    "use_seek \<Longrightarrow> length L + length buf \<le> length D \<and> seg D (length L) (length buf) = buf"
  shows "\<exists>w'. write_loop k e w use_seek (int (length L)) buf ret = Some (ret + int (length buf), w') \<and> sparse_inv e D (L @ buf) w'"
  using assms(3-)
proof (induction k arbitrary: L w buf ret)
  case (Suc k)
  show ?case
  proof (cases "buf = []")
    case True
    then show ?thesis using Suc.prems by simp
  next
    case False
    define c where "c = take SPARSE_WRITE_SIZE buf"
    have c: "c \<noteq> []" "length c \<le> length buf" using False by (simp_all add: c_def SPARSE_WRITE_SIZE_def)
    have sub: "length L + length c \<le> length D \<and> seg D (length L) (length c) = c" if use_seek
    proof -
      have s: "length L + length buf \<le> length D" "seg D (length L) (length buf) = buf" using Suc.prems(4) that by simp_all
      have "seg D (length L) (length c) = take (length c) (seg D (length L) (length buf))"
        using c(2) by (simp add: seg_def)
      also have "\<dots> = c" by (auto simp: s(2) c_def min_def)
      finally show ?thesis using s(1) c(2) by simp
    qed
    from write_sparse_ok [OF assms(1) Suc.prems(1) c(1) sub] obtain r w1 where
      w1: "write_sparse e w use_seek (int (length L)) c = (int r, w1)" "0 < r" "r \<le> length c" "sparse_inv e D (L @ take r c) w1"
      by blast
    have rb: "r \<le> length buf" "take r c = take r buf" using w1(3) c(2) by (simp_all add: c_def)
    have step: "write_loop (Suc k) e w use_seek (int (length L)) buf ret
        = write_loop k e w1 use_seek (int (length (L @ take r buf))) (drop r buf) (ret + int r)"
      using False assms(2) w1(1,2) rb(1) by (simp add: c_def [symmetric])
    have seek: "length (L @ take r buf) + length (drop r buf) \<le> length D
        \<and> seg D (length (L @ take r buf)) (length (drop r buf)) = drop r buf" if use_seek
    proof -
      have s: "length L + length buf \<le> length D" "seg D (length L) (length buf) = buf" using Suc.prems(4) that by simp_all
      have "seg (seg D (length L) (length buf)) r (length buf - r) = seg D (length L + r) (length buf - r)"
        using rb(1) by (intro seg_seg) simp
      then show ?thesis using s rb(1) by (simp add: seg_def)
    qed
    from Suc.IH [of "L @ take r buf" w1 "drop r buf" "ret + int r"] w1(2,4) rb Suc.prems(2,3) seek show ?thesis
      unfolding step by (simp add: of_nat_diff)
  qed
qed simp

lemma write_file_ok:
  assumes "progress e" "wr_inv e D L w"
    "use_seek \<Longrightarrow> sparse_files e > 0 \<and> length L + length buf \<le> length D \<and> seg D (length L) (length buf) = buf"
  shows "\<exists>w'. write_file e w use_seek (int (length L)) buf = Some (int (length buf), w') \<and> wr_inv e D (L @ buf) w'"
proof (cases "sparse_files e > 0")
  case True
  then show ?thesis
    using write_loop_sparse [OF assms(1) True, of D L w buf "2 * length buf + 1" 0 use_seek] assms(2,3)
    by (simp add: write_file_def wr_inv_def)
next
  case False
  then show ?thesis
    using write_loop_plain [OF assms(1), of D L w buf "2 * length buf + 1" 0 use_seek "int (length L)"] assms(2)
    by (simp add: write_file_def wr_inv_def)
qed

lemma skip_matched_ok:
  assumes "progress e" "wr_inv e D L w" "length L + length buf \<le> length D" "seg D (length L) (length buf) = buf"
  shows "\<exists>w'. skip_matched e w (int (length L)) buf = Some (0, w') \<and> wr_inv e D (L @ buf) w'"
proof (cases "sparse_files e > 0")
  case True
  then show ?thesis using write_file_ok [OF assms(1,2), of True buf] assms(3,4) by (auto simp: skip_matched_def)
next
  case False
  then have inv: "wf_pos w \<le> length L" "wf_data w = take (wf_pos w) L @ drop (wf_pos w) D" "wf_writeBuf w = drop (wf_pos w) L"
    using assms(2) by (simp_all add: wr_inv_def plain_inv_def)
  from flush_write_file_ok [OF assms(1) inv] obtain r where
    r: "0 \<le> r" "flush_write_file e w = Some (r, w\<lparr>wf_data := L @ drop (length L) D, wf_pos := length L, wf_writeBuf := []\<rparr>)"
    by blast
  have "drop (length L) D = buf @ drop (length L + length buf) D"
    using assms(4) by (metis add.commute append_take_drop_id drop_drop seg_def)
  then show ?thesis using False r
    by (auto simp: skip_matched_def Let_def seek_cur_def wr_inv_def plain_inv_def wf_writeBufSize_def WRITE_SIZE_def)
qed

text \<open>
  The contract of an output file: appending bytes, and passing over bytes that the old file already
  holds at this place; and what any sequence of the two gives.
\<close>

datatype out_op = Put "byte list" | Keep nat

primrec out_bytes :: "byte list \<Rightarrow> byte list \<Rightarrow> out_op list \<Rightarrow> byte list" where
  "out_bytes D L [] = L"
| "out_bytes D L (x # xs) = out_bytes D (L @ (case x of Put b \<Rightarrow> b | Keep n \<Rightarrow> seg D (length L) n)) xs"

primrec keeps_ok :: "byte list \<Rightarrow> byte list \<Rightarrow> out_op list \<Rightarrow> bool" where
  "keeps_ok D L [] \<longleftrightarrow> True"
| "keeps_ok D L (x # xs) \<longleftrightarrow>
     (case x of Put b \<Rightarrow> keeps_ok D (L @ b) xs
      | Keep n \<Rightarrow> length L + n \<le> length D \<and> keeps_ok D (L @ seg D (length L) n) xs)"

primrec run_ops :: "('s \<Rightarrow> int \<Rightarrow> byte list \<Rightarrow> (int \<times> 's) option) \<Rightarrow> ('s \<Rightarrow> int \<Rightarrow> byte list \<Rightarrow> (int \<times> 's) option) \<Rightarrow>
    byte list \<Rightarrow> int \<Rightarrow> 's \<Rightarrow> out_op list \<Rightarrow> 's run" where
  "run_ops put skip D offset s [] = Some (Inr s)"
| "run_ops put skip D offset s (x # xs) =
     (case x of
        Put b \<Rightarrow> (case put s offset b of None \<Rightarrow> None
                  | Some (r, s1) \<Rightarrow> if r \<noteq> int (length b) then Some (Inl RERR_FILEIO)
                                    else run_ops put skip D (offset + int (length b)) s1 xs)
      | Keep n \<Rightarrow> (let b = seg D (nat offset) n
                   in case skip s offset b of None \<Rightarrow> None
                      | Some (r, s1) \<Rightarrow> if r < 0 then Some (Inl RERR_FILEIO)
                                        else run_ops put skip D (offset + int n) s1 xs))"

locale output_file =
  fixes put :: "'s \<Rightarrow> int \<Rightarrow> byte list \<Rightarrow> (int \<times> 's) option"
    and skip :: "'s \<Rightarrow> int \<Rightarrow> byte list \<Rightarrow> (int \<times> 's) option"
    and inv :: "byte list \<Rightarrow> byte list \<Rightarrow> 's \<Rightarrow> bool"
  assumes put_ok: "inv D L s \<Longrightarrow> \<exists>s'. put s (int (length L)) b = Some (int (length b), s') \<and> inv D (L @ b) s'"
    and skip_ok: "inv D L s \<Longrightarrow> length L + length b \<le> length D \<Longrightarrow> seg D (length L) (length b) = b \<Longrightarrow>
      \<exists>s'. skip s (int (length L)) b = Some (0, s') \<and> inv D (L @ b) s'"
begin

lemma run_ops_ok:
  "inv D L s \<Longrightarrow> keeps_ok D L xs \<Longrightarrow>
   \<exists>s'. run_ops put skip D (int (length L)) s xs = Some (Inr s') \<and> inv D (out_bytes D L xs) s'"
proof (induction xs arbitrary: L s)
  case (Cons x xs)
  show ?case
  proof (cases x)
    case (Put b)
    from put_ok [OF Cons.prems(1), of b] obtain s1 where
      "put s (int (length L)) b = Some (int (length b), s1)" "inv D (L @ b) s1" by blast
    with Cons.IH [OF this(2)] Cons.prems(2) Put show ?thesis by simp
  next
    case (Keep n)
    let ?b = "seg D (length L) n"
    have "length L + n \<le> length D" using Cons.prems(2) Keep by simp
    with skip_ok [OF Cons.prems(1), of ?b] obtain s1 where
      "skip s (int (length L)) ?b = Some (0, s1)" "inv D (L @ ?b) s1" by auto
    with Cons.IH [OF this(2)] Cons.prems(2) Keep show ?thesis by (simp add: Let_def)
  qed
qed simp

end

text \<open>The writer of the code, on a kernel that makes progress, is such a file.\<close>

definition out_inv :: "wenv \<Rightarrow> byte list \<Rightarrow> byte list \<Rightarrow> wstate \<Rightarrow> bool" where
  "out_inv e D L w \<longleftrightarrow> progress e \<and> wr_inv e D L w"

interpretation writer: output_file "\<lambda>w. write_file e w False" "skip_matched e" "out_inv e" for e
  by unfold_locales (auto simp: out_inv_def intro: write_file_ok skip_matched_ok)

section \<open>Properties of the writer\<close>

lemma do_ftruncate_ready:
  "truncate_works e \<Longrightarrow> ready D L w \<Longrightarrow> do_ftruncate e w (length L) = (0, w\<lparr>wf_data := L\<rparr>)"
  by (simp add: do_ftruncate_def ready_def)

lemma sparse_end_ok:
  assumes "progress e" "truncate_works e" "sparse_inv e D L w"
    "updating \<Longrightarrow> full_writes e" "\<not> updating \<Longrightarrow> D = replicate (length D) 0"
  shows "\<exists>w'. sparse_end e w (length L) updating = (0, w') \<and> preallocated_len w' = preallocated_len w
           \<and> (wf_data w' = L \<or> wf_data w' = L @ drop (length L) D)"
proof -
  have i: "wf_pos w + sparse_seek w = length L" "wf_data w = take (wf_pos w) L @ drop (wf_pos w) D"
    "drop (wf_pos w) L = replicate (sparse_seek w) 0" using assms(3) by (simp_all add: sparse_inv_def)
  consider "sparse_seek w = 0" | "sparse_seek w \<noteq> 0" updating | "sparse_seek w \<noteq> 0" "\<not> updating" by blast
  then show ?thesis
  proof cases
    case 1
    then have "ready D L w" using i by (intro readyI) simp_all
    with 1 i show ?thesis using do_ftruncate_ready [OF assms(2)] by (simp add: sparse_end_def)
  next
    case 2
    then have "sparse_past_write w = int (wf_pos w)" using assms(3,4) by (simp add: sparse_inv_def)
    with punch_ready [OF assms(1) i(2,1,3)] 2 obtain d where
      "do_punch_hole e w (sparse_past_write w) (sparse_seek w) = (0, w\<lparr>wf_data := d, wf_pos := length L\<rparr>)"
      "ready D L (w\<lparr>wf_data := d, wf_pos := length L\<rparr>)" by auto
    with 2 show ?thesis using do_ftruncate_ready [OF assms(2)] by (simp add: sparse_end_def)
  next
    case 3
    define m where "m = length D"
    have D: "D = replicate m 0" using assms(5) 3(2) by (simp add: m_def)
    have "L = take (wf_pos w) L @ replicate (sparse_seek w) 0" using i(3) by (metis append_take_drop_id)
    moreover have "take (length L) (wf_data w @ replicate (length L - length (wf_data w)) 0)
        = take (wf_pos w) L @ replicate (sparse_seek w) 0"
      using i(1) unfolding i(2) D by (auto simp: i(1) [symmetric] replicate_add [symmetric] min_def)
    ultimately have "do_ftruncate e w (length L) = (0, w\<lparr>wf_data := L\<rparr>)"
      using assms(2) by (simp add: do_ftruncate_def)
    with 3 show ?thesis by (simp add: sparse_end_def)
  qed
qed

lemma finish_output_ok:
  assumes "progress e" "truncate_works e" "wr_inv e D L w"
    "updating \<Longrightarrow> full_writes e" "\<not> updating \<Longrightarrow> D = replicate (length D) 0"
    "inplace_sizing \<or> int (length D) \<le> max 0 (preallocated_len w)"
  shows "\<exists>w'. finish_output e w (length L) updating inplace_sizing False = Some (Inr w') \<and> wf_data w' = L"
proof -
  have cut: "\<exists>w'. (if inplace_sizing \<or> preallocated_len w1 > int (length L) then Some (Inr (snd (do_ftruncate e w1 (length L))))
             else Some (Inr w1)) = (Some (Inr w') :: wstate run) \<and> wf_data w' = L"
    if "preallocated_len w1 = preallocated_len w" "wf_data w1 = L \<or> wf_data w1 = L @ drop (length L) D" for w1
    using that assms(2,6) by (auto simp: do_ftruncate_def)
  consider "L = []" | "L \<noteq> []" "sparse_files e > 0" | "L \<noteq> []" "\<not> sparse_files e > 0" by blast
  then show ?thesis
  proof cases
    case 1
    then have "wf_data w = D" using assms(3) by (auto simp: wr_inv_def sparse_inv_def plain_inv_def split: if_splits)
    then show ?thesis using cut [of w] 1 by (auto simp: finish_output_def split: if_splits)
  next
    case 2
    then have "sparse_inv e D L w" using assms(3) by (simp add: wr_inv_def)
    from sparse_end_ok [OF assms(1,2) this, of updating] assms(4,5)
    obtain w1 where "sparse_end e w (length L) updating = (0, w1)" "preallocated_len w1 = preallocated_len w"
      "wf_data w1 = L \<or> wf_data w1 = L @ drop (length L) D" by blast
    then show ?thesis using cut [of w1] 2 by (simp add: finish_output_def)
  next
    case 3
    then have "wf_pos w \<le> length L" "wf_data w = take (wf_pos w) L @ drop (wf_pos w) D" "wf_writeBuf w = drop (wf_pos w) L"
      using assms(3) by (simp_all add: wr_inv_def plain_inv_def)
    from flush_write_file_ok [OF assms(1) this] obtain r where
      "0 \<le> r" "flush_write_file e w = Some (r, w\<lparr>wf_data := L @ drop (length L) D, wf_pos := length L, wf_writeBuf := []\<rparr>)" by blast
    then show ?thesis using cut [of "w\<lparr>wf_data := L @ drop (length L) D, wf_pos := length L, wf_writeBuf := []\<rparr>"] 3
      by (simp add: finish_output_def)
  qed
qed

definition fresh_output :: "byte list \<Rightarrow> int \<Rightarrow> wstate" where
  "fresh_output D pre = \<lparr>wf_data = D, wf_pos = 0, wf_writeBuf = [], sparse_seek = 0, sparse_past_write = 0, preallocated_len = pre\<rparr>"

lemma fresh_output_inv:
  "D = [] \<and> pre \<le> 0 \<or> full_writes e \<and> int (length D) \<le> pre \<or> sparse_files e \<le> 0 \<Longrightarrow> wr_inv e D [] (fresh_output D pre)"
  by (auto simp: wr_inv_def sparse_inv_def plain_inv_def fresh_output_def wf_writeBufSize_def WRITE_SIZE_def)

text \<open>
  C14: writing a new file by any sequence of \<^verbatim>\<open>write_file\<close> calls and ending it leaves exactly the bytes
  written, sparse or not, with every kind of hole support, and however the kernel splits the writes.
\<close>

theorem new_file_exact:
  assumes "progress e" "truncate_works e"
  shows "\<exists>w w'. run_ops (\<lambda>w. write_file e w False) (skip_matched e) [] 0 (fresh_output [] 0) (map Put bs) = Some (Inr w)
           \<and> finish_output e w (length (concat bs)) False False False = Some (Inr w') \<and> wf_data w' = concat bs"
proof -
  have "out_inv e [] [] (fresh_output [] 0)" using assms(1) by (simp add: out_inv_def fresh_output_inv)
  moreover have keeps: "keeps_ok [] L (map Put bs)" for L by (induction bs arbitrary: L) simp_all
  moreover have "out_bytes [] L (map Put bs) = L @ concat bs" for L by (induction bs arbitrary: L) simp_all
  ultimately obtain w where w: "run_ops (\<lambda>w. write_file e w False) (skip_matched e) [] 0 (fresh_output [] 0) (map Put bs) = Some (Inr w)"
    "out_inv e [] (concat bs) w" using writer.run_ops_ok [of e "[]" "[]" "fresh_output [] 0" "map Put bs"] by auto
  with finish_output_ok [OF assms, of "[]" "concat bs" w False False] show ?thesis by (auto simp: out_inv_def)
qed

theorem new_file_exact_witness:
  "\<exists>w w'. run_ops (\<lambda>w. write_file \<lparr>sys_write = (\<lambda>p n. 1), punch_works = True, zero_range_works = False, truncate_works = True, sparse_files = 1\<rparr> w False)
        (skip_matched \<lparr>sys_write = (\<lambda>p n. 1), punch_works = True, zero_range_works = False, truncate_works = True, sparse_files = 1\<rparr>)
        [] 0 (fresh_output [] 0) (map Put [[0, 0], [5, 6, 0], [0]]) = Some (Inr w)
     \<and> finish_output \<lparr>sys_write = (\<lambda>p n. 1), punch_works = True, zero_range_works = False, truncate_works = True, sparse_files = 1\<rparr>
         w (length (concat [[0, 0], [5, 6, 0], [0]] :: byte list)) False False False = Some (Inr w') \<and> wf_data w' = concat [[0, 0], [5, 6, 0], [0]]"
  by (rule new_file_exact) (simp_all add: progress_def)

text \<open>
  C13: updating a file in place by any mixture of \<^verbatim>\<open>write_file\<close> and \<^verbatim>\<open>skip_matched\<close> calls, each of the latter over bytes that the
  file already has there, and ending it leaves exactly the bytes given, also when runs of zeros
  become holes; nothing of a longer old file remains. Each write is complete, and the length counted as allocated is at least the old one.
\<close>

theorem inplace_file_exact:
  assumes "full_writes e" "truncate_works e" "keeps_ok D [] xs" "int (length D) \<le> pre"
  shows "\<exists>w w'. run_ops (\<lambda>w. write_file e w False) (skip_matched e) D 0 (fresh_output D pre) xs = Some (Inr w)
           \<and> finish_output e w (length (out_bytes D [] xs)) True True False = Some (Inr w') \<and> wf_data w' = out_bytes D [] xs"
proof -
  have pr: "progress e" by (rule full_writes_progress [OF assms(1)])
  have "out_inv e D [] (fresh_output D pre)" using pr assms(1,4) by (simp add: out_inv_def fresh_output_inv)
  then obtain w where w: "run_ops (\<lambda>w. write_file e w False) (skip_matched e) D 0 (fresh_output D pre) xs = Some (Inr w)"
    "out_inv e D (out_bytes D [] xs) w" using writer.run_ops_ok [of e D "[]" "fresh_output D pre" xs] assms(3) by auto
  with finish_output_ok [OF pr assms(2), of D "out_bytes D [] xs" w True True] assms(1) show ?thesis by (auto simp: out_inv_def)
qed

theorem inplace_file_exact_witness:
  "\<exists>w w'. run_ops (\<lambda>w. write_file \<lparr>sys_write = (\<lambda>p n. int n), punch_works = True, zero_range_works = False, truncate_works = True, sparse_files = 1\<rparr> w False)
        (skip_matched \<lparr>sys_write = (\<lambda>p n. int n), punch_works = True, zero_range_works = False, truncate_works = True, sparse_files = 1\<rparr>)
        [1, 2, 3, 4, 5, 6, 7] 0 (fresh_output [1, 2, 3, 4, 5, 6, 7] 7) [Keep 2, Put [0, 0], Keep 1, Put [9]] = Some (Inr w)
     \<and> finish_output \<lparr>sys_write = (\<lambda>p n. int n), punch_works = True, zero_range_works = False, truncate_works = True, sparse_files = 1\<rparr>
         w (length (out_bytes [1, 2, 3, 4, 5, 6, 7] [] [Keep 2, Put [0, 0], Keep 1, Put [9]])) True True False = Some (Inr w')
     \<and> wf_data w' = out_bytes [1, 2, 3, 4, 5, 6, 7] [] [Keep 2, Put [0, 0], Keep 1, Put [9]]"
  by (rule inplace_file_exact) (simp_all add: full_writes_def seg_def)

text \<open>Zeros before other data are skipped by a seek where nothing counts as allocated: what the file held there stays.\<close>

lemma write_file_seeks:
  assumes "sparse_files e > 0" "full_writes e" "pre \<le> 0" "c \<noteq> []" "hd c \<noteq> 0" "last c \<noteq> 0" "k + length c \<le> SPARSE_WRITE_SIZE" "k \<le> length D" "0 < k"
  shows "\<exists>w. write_file e (fresh_output D pre) False 0 (replicate k 0 @ c) = Some (int (k + length c), w)
    \<and> wf_data w = take k D @ c @ drop (k + length c) D \<and> sparse_seek w = 0"
proof -
  let ?b = "replicate k 0 @ c"
  have "takeWhile (\<lambda>b. b = 0) c = []" using assms(4,5) by (cases c) auto
  then have lead: "lead_zeros ?b = k" by (simp add: lead_zeros_def takeWhile_append)
  have "takeWhile (\<lambda>b. b = 0) (rev c) = []" using assms(4,6) by (cases c rule: rev_cases) auto
  then have z: "lead_zeros ?b = k" "trail_zeros ?b = 0" using lead by (simp_all add: trail_zeros_def)
  have mid: "seg ?b k (length c) = c" by (simp add: seg_def)
  have wr: "sys_write e k (length c) = int (length c)" using assms(2,4) by (simp add: full_writes_def)
  have "write_at D k c = take k D @ c @ drop (k + length c) D" using assms(8) by (simp add: write_at_def)
  moreover have "take SPARSE_WRITE_SIZE ?b = ?b" using assms(7) by simp
  moreover have "write_loop (2 * k + 2 * length c) e w False off [] ret = Some (ret, w)" for w off ret
    using assms(9) by (cases "2 * k + 2 * length c") simp_all
  ultimately show ?thesis using assms(1,3,4,9) z mid wr
    by (simp add: write_file_def write_sparse_def skip_zeros_def seek_cur_def file_write_def Let_def fresh_output_def)
qed

end
