(* ===== verification/Checksum.thy ===== *)
theory Checksum
  imports WireIO
begin

unbundle bit_operations_syntax

text \<open>
  The block checksums of \<^verbatim>\<open>checksum.c\<close>: the rolling weak sum \<^verbatim>\<open>get_checksum1\<close> with its unrolled
  loop, the step by which \<^verbatim>\<open>hash_search\<close> slides it along the file, and the digest sizes of the
  negotiable strong checksums. The strong checksum itself is chosen at run time among library
  digests, so the components that use it take it as an argument.
\<close>

section \<open>Definitions\<close>

text \<open>\<^verbatim>\<open>schar\<close> values enter the sums sign-extended; \<^verbatim>\<open>CHAR_OFFSET\<close> is 0.\<close>

definition CHAR_OFFSET :: uint32 where "CHAR_OFFSET = 0"

definition schar :: "byte \<Rightarrow> uint32" where
  "schar b = scast b"

text \<open>The two loops of \<^verbatim>\<open>get_checksum1\<close>: four bytes at a time while \<^verbatim>\<open>i < len-4\<close>, then one at a time.\<close>

function checksum1_by4 :: "byte list \<Rightarrow> nat \<Rightarrow> nat \<Rightarrow> uint32 \<Rightarrow> uint32 \<Rightarrow> nat \<times> uint32 \<times> uint32" where
  "checksum1_by4 buf len i s1 s2 =
     (if i + 4 < len then
        checksum1_by4 buf len (i + 4)
          (s1 + (schar (buf ! i) + schar (buf ! (i + 1)) + schar (buf ! (i + 2)) + schar (buf ! (i + 3))
             + 4 * CHAR_OFFSET))
          (s2 + (4 * (s1 + schar (buf ! i)) + 3 * schar (buf ! (i + 1)) + 2 * schar (buf ! (i + 2))
             + schar (buf ! (i + 3)) + 10 * CHAR_OFFSET))
      else (i, s1, s2))"
  by pat_completeness auto
termination
  by (relation "measure (\<lambda>(buf, len, i, s1, s2). len - i)") auto

function checksum1_by1 :: "byte list \<Rightarrow> nat \<Rightarrow> nat \<Rightarrow> uint32 \<Rightarrow> uint32 \<Rightarrow> uint32 \<times> uint32" where
  "checksum1_by1 buf len i s1 s2 =
     (if i < len then
        (let s1' = s1 + (schar (buf ! i) + CHAR_OFFSET)
         in checksum1_by1 buf len (i + 1) s1' (s2 + s1'))
      else (s1, s2))"
  by pat_completeness auto
termination
  by (relation "measure (\<lambda>(buf, len, i, s1, s2). len - i)") auto

declare checksum1_by4.simps [simp del] checksum1_by1.simps [simp del]

definition get_checksum1 :: "byte list \<Rightarrow> nat \<Rightarrow> uint32" where
  "get_checksum1 buf len =
     (case checksum1_by4 buf len 0 0 0 of (i, s1, s2) \<Rightarrow>
      case checksum1_by1 buf len i s1 s2 of (s1', s2') \<Rightarrow>
        (s1' AND 0xffff) + push_bit 16 s2')"

text \<open>
  The step of \<^verbatim>\<open>hash_search\<close> at label \<^verbatim>\<open>null_hash\<close>: drop the first byte of a window of \<open>k\<close> bytes,
  and add the byte after it when there is one.
\<close>

definition roll_checksum1 :: "uint32 \<Rightarrow> uint32 \<Rightarrow> nat \<Rightarrow> byte \<Rightarrow> byte option \<Rightarrow> uint32 \<times> uint32" where
  "roll_checksum1 s1 s2 k out inb =
     (let s1' = s1 - (schar out + CHAR_OFFSET);
          s2' = s2 - of_nat k * (schar out + CHAR_OFFSET)
      in case inb of None \<Rightarrow> (s1', s2')
         | Some c \<Rightarrow> (let s1'' = s1' + (schar c + CHAR_OFFSET) in (s1'', s2' + s1'')))"

text \<open>Checksum algorithm numbers of \<^verbatim>\<open>lib/md-defines.h\<close> and their digest lengths.\<close>

datatype csum_type = CSUM_gone | CSUM_NONE | CSUM_MD4_ARCHAIC | CSUM_MD4_BUSTED | CSUM_MD4_OLD
  | CSUM_MD4 | CSUM_MD5 | CSUM_XXH64 | CSUM_XXH3_64 | CSUM_XXH3_128 | CSUM_SHA1 | CSUM_SHA256
  | CSUM_SHA512

fun csum_len_for_type :: "csum_type \<Rightarrow> bool \<Rightarrow> nat result" where
  "csum_len_for_type CSUM_NONE flist_csum = Inr 1"
| "csum_len_for_type CSUM_MD4_ARCHAIC flist_csum = Inr (if flist_csum then 2 else 16)"
| "csum_len_for_type CSUM_MD4 flist_csum = Inr 16"
| "csum_len_for_type CSUM_MD4_OLD flist_csum = Inr 16"
| "csum_len_for_type CSUM_MD4_BUSTED flist_csum = Inr 16"
| "csum_len_for_type CSUM_MD5 flist_csum = Inr 16"
| "csum_len_for_type CSUM_SHA1 flist_csum = Inr 20"
| "csum_len_for_type CSUM_SHA256 flist_csum = Inr 32"
| "csum_len_for_type CSUM_SHA512 flist_csum = Inr 64"
| "csum_len_for_type CSUM_XXH64 flist_csum = Inr 8"
| "csum_len_for_type CSUM_XXH3_64 flist_csum = Inr 8"
| "csum_len_for_type CSUM_XXH3_128 flist_csum = Inr 16"
| "csum_len_for_type CSUM_gone flist_csum = Inl RERR_UNSUPPORTED"

fun canonical_checksum :: "csum_type \<Rightarrow> int result" where
  "canonical_checksum CSUM_NONE = Inr 0"
| "canonical_checksum CSUM_MD4_ARCHAIC = Inr 0"
| "canonical_checksum CSUM_MD4_OLD = Inr 0"
| "canonical_checksum CSUM_MD4_BUSTED = Inr 0"
| "canonical_checksum CSUM_MD4 = Inr (-1)"
| "canonical_checksum CSUM_MD5 = Inr (-1)"
| "canonical_checksum CSUM_SHA1 = Inr (-1)"
| "canonical_checksum CSUM_SHA256 = Inr (-1)"
| "canonical_checksum CSUM_SHA512 = Inr (-1)"
| "canonical_checksum CSUM_XXH64 = Inr 1"
| "canonical_checksum CSUM_XXH3_64 = Inr 1"
| "canonical_checksum CSUM_XXH3_128 = Inr 1"
| "canonical_checksum CSUM_gone = Inl RERR_UNSUPPORTED"

text \<open>
  The checksum that a missing name or \<^verbatim>\<open>auto\<close> stands for, by protocol version: the first branch
  of \<^verbatim>\<open>parse_csum_name\<close>.
\<close>

definition auto_csum :: "int \<Rightarrow> csum_type" where
  "auto_csum protocol_version =
     (if protocol_version \<ge> 30 then CSUM_MD5
      else if protocol_version \<ge> 27 then CSUM_MD4_OLD
      else if protocol_version \<ge> 21 then CSUM_MD4_BUSTED
      else CSUM_MD4_ARCHAIC)"

section \<open>The weak checksum as two sums\<close>

text \<open>
  Reference definition: over the bytes of a window, the plain sum and the sum weighted by the
  distance to the end of the window, both modulo \<open>2\<^sup>3\<^sup>2\<close>.
\<close>

primrec ck_s1 :: "byte list \<Rightarrow> uint32" where
  "ck_s1 [] = 0"
| "ck_s1 (x # xs) = schar x + ck_s1 xs"

primrec ck_s2 :: "byte list \<Rightarrow> uint32" where
  "ck_s2 [] = 0"
| "ck_s2 (x # xs) = of_nat (Suc (length xs)) * schar x + ck_s2 xs"

definition ck_sum :: "byte list \<Rightarrow> uint32" where
  "ck_sum xs = (ck_s1 xs AND 0xffff) + push_bit 16 (ck_s2 xs)"

lemma ck_s1_append [simp]: "ck_s1 (xs @ ys) = ck_s1 xs + ck_s1 ys"
  by (induction xs) (simp_all add: algebra_simps)

lemma ck_s2_append [simp]: "ck_s2 (xs @ ys) = ck_s2 xs + of_nat (length ys) * ck_s1 xs + ck_s2 ys"
  by (induction xs) (simp_all add: algebra_simps)

lemma checksum1_by4_eq:
  assumes "i \<le> len" "len \<le> length buf" "s1 = ck_s1 (take i buf)" "s2 = ck_s2 (take i buf)"
  shows "\<exists>j. i \<le> j \<and> j \<le> len \<and> checksum1_by4 buf len i s1 s2 = (j, ck_s1 (take j buf), ck_s2 (take j buf))"
  using assms
proof (induction buf len i s1 s2 rule: checksum1_by4.induct)
  case (1 buf len i s1 s2)
  show ?case
  proof (cases "i + 4 < len")
    case True
    let ?w = "[buf ! i, buf ! (i + 1), buf ! (i + 2), buf ! (i + 3)]"
    have t: "take (i + 4) buf = take i buf @ ?w"
    proof -
      have "seg buf i 4 = ?w"
        using True "1.prems" by (simp add: seg_Suc numeral_eq_Suc)
      then show ?thesis by (simp flip: take_seg_append)
    qed
    have s1: "s1 + (schar (buf ! i) + schar (buf ! (i + 1)) + schar (buf ! (i + 2)) + schar (buf ! (i + 3))
        + 4 * CHAR_OFFSET) = ck_s1 (take (i + 4) buf)"
      unfolding t using "1.prems"(3) by (simp add: CHAR_OFFSET_def)
    have s2: "s2 + (4 * (s1 + schar (buf ! i)) + 3 * schar (buf ! (i + 1)) + 2 * schar (buf ! (i + 2))
        + schar (buf ! (i + 3)) + 10 * CHAR_OFFSET) = ck_s2 (take (i + 4) buf)"
      unfolding t using "1.prems"(3,4) by (simp add: CHAR_OFFSET_def algebra_simps)
    show ?thesis
      using "1.IH" [OF True _ "1.prems"(2) s1 s2] True
      by (subst checksum1_by4.simps) (auto intro: le_trans [OF le_add1])
  next
    case False
    with "1.prems" show ?thesis by (subst checksum1_by4.simps) auto
  qed
qed

lemma checksum1_by1_eq:
  assumes "i \<le> len" "len \<le> length buf" "s1 = ck_s1 (take i buf)" "s2 = ck_s2 (take i buf)"
  shows "checksum1_by1 buf len i s1 s2 = (ck_s1 (take len buf), ck_s2 (take len buf))"
  using assms
proof (induction buf len i s1 s2 rule: checksum1_by1.induct)
  case (1 buf len i s1 s2)
  show ?case
  proof (cases "i < len")
    case True
    have t: "take (i + 1) buf = take i buf @ [buf ! i]"
      using True "1.prems" by (simp add: take_Suc_conv_app_nth)
    have s1: "s1 + (schar (buf ! i) + CHAR_OFFSET) = ck_s1 (take (i + 1) buf)"
      unfolding t using "1.prems"(3) by (simp add: CHAR_OFFSET_def)
    have s2: "s2 + (s1 + (schar (buf ! i) + CHAR_OFFSET)) = ck_s2 (take (i + 1) buf)"
      unfolding t using "1.prems"(3,4) by (simp add: CHAR_OFFSET_def algebra_simps)
    show ?thesis
      using "1.IH" [OF True refl _ "1.prems"(2) s1 s2] True
      by (subst checksum1_by1.simps) (simp add: Let_def)
  next
    case False
    with "1.prems" show ?thesis by (subst checksum1_by1.simps) simp
  qed
qed

lemma get_checksum1_eq: "len \<le> length buf \<Longrightarrow> get_checksum1 buf len = ck_sum (take len buf)"
  using checksum1_by4_eq [of 0 len buf 0 0] checksum1_by1_eq [of _ len buf]
  by (fastforce simp: get_checksum1_def ck_sum_def)

section \<open>Sliding the window\<close>

text \<open>
  The search keeps the two sums only modulo \<open>2\<^sup>1\<^sup>6\<close>: it starts from the halves of a packed sum, and
  rolls them in 32-bit arithmetic. \<open>rolled\<close> says that a pair stands for a window.
\<close>

definition rolled :: "uint32 \<Rightarrow> uint32 \<Rightarrow> byte list \<Rightarrow> bool" where
  "rolled s1 s2 w \<longleftrightarrow> take_bit 16 s1 = take_bit 16 (ck_s1 w) \<and> take_bit 16 s2 = take_bit 16 (ck_s2 w)"

lemma and_ffff: "(x :: uint32) AND 0xffff = take_bit 16 x"
  by (simp add: take_bit_eq_mask mask_eq_exp_minus_1)

lemma push_bit_16_take: "push_bit 16 (take_bit 16 x) = push_bit 16 (x :: uint32)"
  by (rule bit_word_eqI) (auto simp: bit_push_bit_iff bit_take_bit_iff)

lemma pack_add_or: "take_bit 16 x + push_bit 16 y = take_bit 16 x OR push_bit 16 (y :: uint32)"
proof (rule disjunctive_add)
  show "\<not> bit (take_bit 16 x) n \<or> \<not> bit (push_bit 16 y) n" for n
    by (auto simp: bit_take_bit_iff bit_push_bit_iff)
qed

lemma ck_sum_or: "ck_sum w = take_bit 16 (ck_s1 w) OR push_bit 16 (ck_s2 w)"
  by (simp add: ck_sum_def and_ffff pack_add_or)

lemma ck_sum_low: "ck_sum w AND 0xffff = take_bit 16 (ck_s1 w)"
  unfolding ck_sum_or and_ffff
  by (rule bit_word_eqI) (auto simp: bit_take_bit_iff bit_push_bit_iff bit_or_iff)

lemma ck_sum_high: "drop_bit 16 (ck_sum w) = take_bit 16 (ck_s2 w)"
  unfolding ck_sum_or and_ffff
  by (rule bit_word_eqI) (auto simp: bit_take_bit_iff bit_push_bit_iff bit_drop_bit_eq bit_or_iff)

lemma rolled_start: "rolled (ck_sum w AND 0xffff) (drop_bit 16 (ck_sum w)) w"
  by (simp add: rolled_def ck_sum_low ck_sum_high)

lemma rolled_pack: "rolled s1 s2 w \<Longrightarrow> (s1 AND 0xffff) OR push_bit 16 s2 = ck_sum w"
  unfolding rolled_def ck_sum_or and_ffff
  by (simp add: push_bit_16_take [of s2, symmetric] push_bit_16_take [of "ck_s2 w", symmetric]
      del: push_bit_take_bit)

lemma take_bit_word_diff: "take_bit n (take_bit n a - take_bit n c) = take_bit n (a - c :: uint32)"
  by transfer (simp add: take_bit_diff)

lemma take_bit_word_add: "take_bit n (take_bit n a + take_bit n c) = take_bit n (a + c :: uint32)"
  by transfer (simp add: take_bit_add)

lemma take_bit_diff_cong:
  fixes a b c d :: uint32
  assumes "take_bit n a = take_bit n b" "take_bit n c = take_bit n d"
  shows "take_bit n (a - c) = take_bit n (b - d)"
  using assms by (metis take_bit_word_diff)

lemma take_bit_add_cong:
  fixes a b c d :: uint32
  assumes "take_bit n a = take_bit n b" "take_bit n c = take_bit n d"
  shows "take_bit n (a + c) = take_bit n (b + d)"
  using assms by (metis take_bit_word_add)

lemma roll_shrink:
  assumes "rolled s1 s2 (b # w)" "roll_checksum1 s1 s2 (Suc (length w)) b None = (t1, t2)"
  shows "rolled t1 t2 w"
proof -
  let ?k = "of_nat (Suc (length w)) :: uint32"
  have t: "t1 = s1 - schar b" "t2 = s2 - ?k * schar b"
    using assms(2) by (auto simp: roll_checksum1_def CHAR_OFFSET_def Let_def)
  have "take_bit 16 t1 = take_bit 16 (ck_s1 (b # w) - schar b)"
    unfolding t using assms(1) by (intro take_bit_diff_cong) (simp_all only: rolled_def)
  moreover have "take_bit 16 t2 = take_bit 16 (ck_s2 (b # w) - ?k * schar b)"
    unfolding t using assms(1) by (intro take_bit_diff_cong) (simp_all only: rolled_def)
  ultimately show ?thesis by (simp add: rolled_def)
qed

lemma roll_slide:
  assumes "rolled s1 s2 (b # w)" "roll_checksum1 s1 s2 (Suc (length w)) b (Some c) = (t1, t2)"
  shows "rolled t1 t2 (w @ [c])"
proof -
  obtain u1 u2 where u: "roll_checksum1 s1 s2 (Suc (length w)) b None = (u1, u2)"
    by (metis surj_pair)
  have t: "t1 = u1 + schar c" "t2 = u2 + t1"
    using assms(2) u by (auto simp: roll_checksum1_def CHAR_OFFSET_def Let_def)
  have r: "rolled u1 u2 w" by (rule roll_shrink [OF assms(1) u])
  have 1: "take_bit 16 t1 = take_bit 16 (ck_s1 (w @ [c]))"
    unfolding t using r by (auto simp: rolled_def intro!: take_bit_add_cong)
  have "ck_s2 (w @ [c]) = ck_s2 w + ck_s1 (w @ [c])" by simp
  then have "take_bit 16 t2 = take_bit 16 (ck_s2 (w @ [c]))"
    unfolding t(2) using r 1 by (auto simp only: rolled_def intro!: take_bit_add_cong)
  with 1 show ?thesis by (simp add: rolled_def)
qed

text \<open>The strong digests are never longer than \<^verbatim>\<open>MAX_DIGEST_LEN\<close>, the size of every buffer that takes one.\<close>

definition MAX_DIGEST_LEN :: nat where "MAX_DIGEST_LEN = 64"

lemma csum_len_bounds: "csum_len_for_type t b = Inr n \<Longrightarrow> 1 \<le> n \<and> n \<le> MAX_DIGEST_LEN"
  by (cases t) (auto simp: MAX_DIGEST_LEN_def split: if_splits)

section \<open>Properties\<close>

text \<open>
  C32: the unrolled loop of \<^verbatim>\<open>get_checksum1\<close> computes the two reference sums of its buffer, packed
  as low and high half.
\<close>

theorem get_checksum1_correct:
  assumes "len \<le> length buf"
  shows "get_checksum1 buf len = (ck_s1 (take len buf) AND 0xffff) + push_bit 16 (ck_s2 (take len buf))"
  using get_checksum1_eq [OF assms] by (simp add: ck_sum_def)

theorem get_checksum1_correct_witness:
  "get_checksum1 [1, 255, 3, 4, 5, 200] 6
     = (ck_s1 (take 6 [1, 255, 3, 4, 5, 200]) AND 0xffff) + push_bit 16 (ck_s2 (take 6 [1, 255, 3, 4, 5, 200]))
   \<and> ck_s1 [1, 255, 3, 4, 5, 200] = 0xffffffd4"
proof
  show "get_checksum1 [1, 255, 3, 4, 5, 200] 6
     = (ck_s1 (take 6 [1, 255, 3, 4, 5, 200]) AND 0xffff) + push_bit 16 (ck_s2 (take 6 [1, 255, 3, 4, 5, 200]))"
    by (rule get_checksum1_correct) simp
  show "ck_s1 [1, 255, 3, 4, 5, 200] = 0xffffffd4" by code_simp
qed

text \<open>
  C19: rolling the halves of a window's packed sum by one byte, repacked, is what \<^verbatim>\<open>get_checksum1\<close>
  computes from scratch on the next window of the file.
\<close>

theorem rolling_checksum_correct:
  assumes "off + k < length buf" "0 < k"
    and "roll_checksum1 (get_checksum1 (drop off buf) k AND 0xffff) (drop_bit 16 (get_checksum1 (drop off buf) k))
           k (buf ! off) (Some (buf ! (off + k))) = (t1, t2)"
  shows "(t1 AND 0xffff) OR push_bit 16 t2 = get_checksum1 (drop (Suc off) buf) k"
proof -
  obtain j where k: "k = Suc j" using assms(2) by (cases k) auto
  have w: "take k (drop off buf) = buf ! off # take j (drop (Suc off) buf)"
    using assms(1) k by (simp add: Cons_nth_drop_Suc [symmetric])
  have w': "take k (drop (Suc off) buf) = take j (drop (Suc off) buf) @ [buf ! (off + k)]"
    using assms(1) k by (simp add: take_Suc_conv_app_nth)
  have l: "Suc (length (take j (drop (Suc off) buf))) = k" using assms(1) k by simp
  have g: "get_checksum1 (drop off buf) k = ck_sum (buf ! off # take j (drop (Suc off) buf))"
    using assms(1) w by (simp add: get_checksum1_eq)
  have "rolled t1 t2 (take j (drop (Suc off) buf) @ [buf ! (off + k)])"
    using assms(3) unfolding g by (intro roll_slide [OF rolled_start]) (simp only: l)
  then show ?thesis
    using assms(1) w' by (simp add: rolled_pack get_checksum1_eq)
qed

theorem rolling_checksum_correct_witness:
  "(let t = roll_checksum1 (get_checksum1 (drop 1 [9, 130, 7, 255, 66]) 3 AND 0xffff)
              (drop_bit 16 (get_checksum1 (drop 1 [9, 130, 7, 255, 66]) 3)) 3
              ([9, 130, 7, 255, 66] ! 1) (Some ([9, 130, 7, 255, 66] ! (1 + 3)))
    in (fst t AND 0xffff) OR push_bit 16 (snd t) = get_checksum1 (drop (Suc 1) [9, 130, 7, 255, 66]) 3)"
  unfolding Let_def by (rule rolling_checksum_correct, simp, simp, rule prod.collapse [symmetric])

end
