(* ===== verification/Sums.thy ===== *)
theory Sums
  imports Checksum "HOL-Library.Signed_Division"
begin

unbundle bit_operations_syntax

text \<open>
  The signature of a basis file: its block geometry (\<^verbatim>\<open>sum_sizes_sqroot\<close>), the header
  (\<^verbatim>\<open>write_sum_head\<close>, \<^verbatim>\<open>read_sum_head\<close>), and the stream of block checksums that the generator sends
  (\<^verbatim>\<open>generate_and_send_sums\<close>) and the sender receives (\<^verbatim>\<open>receive_sums\<close>). The strong checksum
  \<^verbatim>\<open>get_checksum2\<close> is the argument \<open>csum2\<close>.
\<close>

section \<open>Definitions\<close>

text \<open>\<^verbatim>\<open>struct sum_buf\<close> and \<^verbatim>\<open>struct sum_struct\<close>; \<open>sb_flags\<close> is the one bit \<^verbatim>\<open>SUMFLG_SAME_OFFSET\<close>.\<close>

record sum_buf =
  sb_offset :: int
  sb_len :: int
  sb_sum1 :: uint32
  sb_chain :: int
  sb_flags :: bool

record sum_struct =
  ss_flength :: int
  ss_sums :: "sum_buf list"
  ss_sum2_array :: "byte list"
  ss_count :: int
  ss_blength :: int
  ss_remainder :: int
  ss_s2length :: int

definition null_sum :: sum_struct where
  "null_sum = \<lparr>ss_flength = 0, ss_sums = [], ss_sum2_array = [], ss_count = 0, ss_blength = 0,
     ss_remainder = 0, ss_s2length = 0\<rparr>"

text \<open>The options and negotiated values that the signature code reads.\<close>

record sum_conf =
  protocol_version :: int
  xfer_sum_len :: int
  csum_length :: int
  block_size :: int
  append_mode :: int

definition BLOCK_SIZE :: int where "BLOCK_SIZE = 700"
definition MAX_BLOCK_SIZE :: int where "MAX_BLOCK_SIZE = 2 ^ 17"
definition OLD_MAX_BLOCK_SIZE :: int where "OLD_MAX_BLOCK_SIZE = 2 ^ 29"
definition SUM_LENGTH :: int where "SUM_LENGTH = 16"
definition BLOCKSUM_BIAS :: int where "BLOCKSUM_BIAS = 10"
definition SIZE_MAX :: int where "SIZE_MAX = 2 ^ 64 - 1"
definition sizeof_sum_buf :: int where "sizeof_sum_buf = 24"

definition max_blength :: "int \<Rightarrow> int" where
  "max_blength pv = (if pv < 30 then OLD_MAX_BLOCK_SIZE else MAX_BLOCK_SIZE)"

definition sum2_at :: "sum_conf \<Rightarrow> sum_struct \<Rightarrow> int \<Rightarrow> byte list" where
  "sum2_at cf s i = drop (nat (i * xfer_sum_len cf)) (ss_sum2_array s)"

subsection \<open>The header\<close>

definition write_sum_head :: "sum_conf \<Rightarrow> sum_struct option \<Rightarrow> byte list" where
  "write_sum_head cf sm =
     (let s = (case sm of None \<Rightarrow> null_sum | Some s \<Rightarrow> s)
      in write_int (ss_count s) @ write_int (ss_blength s)
         @ (if protocol_version cf \<ge> 27 then write_int (ss_s2length s) else [])
         @ write_int (ss_remainder s))"

definition read_sum_head :: "sum_conf \<Rightarrow> sum_struct reader" where
  "read_sum_head cf = rd_bind read_int (\<lambda>cnt.
     if cnt < 0 then rd_fail RERR_PROTOCOL
     else if xfer_sum_len cf > 0 \<and> cnt > SIZE_MAX div xfer_sum_len cf then rd_fail RERR_PROTOCOL
     else if cnt > SIZE_MAX div sizeof_sum_buf then rd_fail RERR_PROTOCOL
     else rd_bind read_int (\<lambda>bl.
       if bl < 0 \<or> bl > max_blength (protocol_version cf) then rd_fail RERR_PROTOCOL
       else rd_bind (if protocol_version cf < 27 then rd_return (csum_length cf) else read_int) (\<lambda>s2.
         if s2 < 0 \<or> s2 > xfer_sum_len cf then rd_fail RERR_PROTOCOL
         else rd_bind read_int (\<lambda>rm.
           if rm < 0 \<or> rm > bl then rd_fail RERR_PROTOCOL
           else rd_return (null_sum\<lparr>ss_count := cnt, ss_blength := bl, ss_s2length := s2,
                  ss_remainder := rm\<rparr>)))))"

subsection \<open>Block geometry\<close>

text \<open>\<^verbatim>\<open>for (c = 1, l = len; l >>= 2; c <<= 1)\<close>, in 32 bits.\<close>

fun sqroot_c :: "nat \<Rightarrow> int \<Rightarrow> int" where
  "sqroot_c l c = (if l div 4 \<noteq> 0 then sqroot_c (l div 4) (to_int32 (c * 2)) else c)"

text \<open>The \<^verbatim>\<open>do ... while (c >= 8)\<close> loop that sets the bits of the root from the top down.\<close>

function sqroot_bits :: "int \<Rightarrow> int \<Rightarrow> int \<Rightarrow> int" where
  "sqroot_bits len blength c =
     (let b1 = blength OR c;
          b2 = (if len < b1 * b1 then b1 AND NOT c else b1);
          c' = c div 2
      in if c' \<ge> 8 then sqroot_bits len b2 c' else b2)"
  by pat_completeness auto
termination by (relation "measure (\<lambda>(len, b, c). nat c)") auto

fun sum_bias_grow :: "nat \<Rightarrow> int \<Rightarrow> int" where
  "sum_bias_grow l b = (if l div 2 \<noteq> 0 then sum_bias_grow (l div 2) (b + 2) else b)"

fun sum_bias_shrink :: "nat \<Rightarrow> int \<Rightarrow> int" where
  "sum_bias_shrink c b = (if c div 2 \<noteq> 0 \<and> b \<noteq> 0 then sum_bias_shrink (c div 2) (b - 1) else b)"

declare sqroot_c.simps [simp del] sqroot_bits.simps [simp del]
  sum_bias_grow.simps [simp del] sum_bias_shrink.simps [simp del]

definition pick_blength :: "sum_conf \<Rightarrow> int \<Rightarrow> int" where
  "pick_blength cf len =
     (if block_size cf \<noteq> 0 then block_size cf
      else if len \<le> BLOCK_SIZE * BLOCK_SIZE then BLOCK_SIZE
      else
        let mx = max_blength (protocol_version cf);
            c = sqroot_c (nat len) 1
        in if c < 0 \<or> c \<ge> mx then mx
           else max (sqroot_bits len 0 c) BLOCK_SIZE)"

definition pick_s2length :: "sum_conf \<Rightarrow> int \<Rightarrow> int \<Rightarrow> int" where
  "pick_s2length cf len blen =
     (let max_s2length = min SUM_LENGTH (xfer_sum_len cf) in
      if protocol_version cf < 27 then csum_length cf
      else if csum_length cf = SUM_LENGTH then max_s2length
      else
        let b = sum_bias_shrink (nat blen) (sum_bias_grow (nat len) BLOCKSUM_BIAS);
            s2 = signed_divide (b + 1 - 32 + 7) 8
        in min (max s2 (csum_length cf)) max_s2length)"

definition sum_sizes_sqroot :: "sum_conf \<Rightarrow> int \<Rightarrow> sum_struct" where
  "sum_sizes_sqroot cf len =
     (if len < 0 then null_sum\<lparr>ss_count := -1\<rparr>
      else
        let blen = pick_blength cf len;
            rm = to_int32 (len mod blen);
            l = len div blen + (if rm \<noteq> 0 then 1 else 0)
        in \<lparr>ss_flength = len, ss_sums = [], ss_sum2_array = [],
            ss_count = (if to_int32 l \<noteq> l then -1 else l),
            ss_blength = blen, ss_remainder = rm, ss_s2length = pick_s2length cf len blen\<rparr>)"

subsection \<open>The stream of block checksums\<close>

text \<open>
  The loop of \<^verbatim>\<open>generate_and_send_sums\<close> over the \<open>n\<close> blocks that remain. \<open>B\<close> is the basis file as
  \<^verbatim>\<open>map_ptr\<close> shows it; the result is what goes to \<^verbatim>\<open>f_out\<close> and what goes to \<^verbatim>\<open>f_copy\<close>.
\<close>

primrec send_sums_loop :: "sum_conf \<Rightarrow> (byte list \<Rightarrow> byte list) \<Rightarrow> byte list \<Rightarrow> sum_struct \<Rightarrow> bool
    \<Rightarrow> nat \<Rightarrow> int \<Rightarrow> int \<Rightarrow> byte list \<times> byte list" where
  "send_sums_loop cf csum2 B s f_copy 0 offset len = ([], [])"
| "send_sums_loop cf csum2 B s f_copy (Suc n) offset len =
     (let n1 = min len (ss_blength s);
          mp = map_view B (nat offset) (nat n1);
          out = (if f_copy \<and> append_mode cf > 0 then []
                 else write_int (sint (get_checksum1 mp (nat n1))) @ take (nat (ss_s2length s)) (csum2 mp));
          cp = (if f_copy then mp else []);
          (out', cp') = send_sums_loop cf csum2 B s f_copy n (offset + n1) (len - n1)
      in (out @ out', cp @ cp'))"

definition generate_and_send_sums :: "sum_conf \<Rightarrow> (byte list \<Rightarrow> byte list) \<Rightarrow> byte list \<Rightarrow> int \<Rightarrow> bool
    \<Rightarrow> (byte list \<times> byte list) option" where
  "generate_and_send_sums cf csum2 B len f_copy =
     (let s = sum_sizes_sqroot cf len in
      if ss_count s < 0 then None
      else if append_mode cf > 0 \<and> \<not> f_copy then Some (write_sum_head cf (Some s), [])
      else
        let (out, cp) = send_sums_loop cf csum2 B s f_copy (nat (ss_count s)) 0 len
        in Some (write_sum_head cf (Some s) @ out, cp))"

text \<open>The loop of \<^verbatim>\<open>receive_sums\<close> at block \<open>i\<close>, with \<open>n\<close> blocks to come.\<close>

primrec receive_sums_loop :: "sum_conf \<Rightarrow> nat \<Rightarrow> int \<Rightarrow> int \<Rightarrow> sum_struct \<Rightarrow> sum_struct reader" where
  "receive_sums_loop cf 0 i offset s = rd_return (s\<lparr>ss_flength := offset\<rparr>)"
| "receive_sums_loop cf (Suc n) i offset s =
     rd_bind read_int (\<lambda>x. rd_bind (read_buf (nat (ss_s2length s))) (\<lambda>b.
       let l = (if i = ss_count s - 1 \<and> ss_remainder s \<noteq> 0 then ss_remainder s else ss_blength s);
           sb = \<lparr>sb_offset = offset, sb_len = l, sb_sum1 = word_of_int x, sb_chain = 0, sb_flags = False\<rparr>
       in receive_sums_loop cf n (i + 1) (offset + l)
            (s\<lparr>ss_sums := ss_sums s @ [sb],
               ss_sum2_array := blit (ss_sum2_array s) (nat (i * xfer_sum_len cf)) b\<rparr>)))"

definition receive_sums :: "sum_conf \<Rightarrow> sum_struct reader" where
  "receive_sums cf = rd_bind (read_sum_head cf) (\<lambda>s.
     if append_mode cf > 0 then
       rd_return (s\<lparr>ss_flength := ss_count s * ss_blength s
         - (if ss_remainder s \<noteq> 0 then ss_blength s - ss_remainder s else 0)\<rparr>)
     else if ss_count s = 0 then rd_return s
     else receive_sums_loop cf (nat (ss_count s)) 0 0
            (s\<lparr>ss_sum2_array := replicate (nat (ss_count s * xfer_sum_len cf)) 0\<rparr>))"

section \<open>The block length is a rounded square root\<close>

lemma sqroot_c_to_int32:
  "0 < l \<Longrightarrow> \<exists>k. sqroot_c l (to_int32 c) = to_int32 (c * 2 ^ k) \<and> 4 ^ k \<le> l \<and> l < 4 ^ Suc k"
proof (induction l "to_int32 c" arbitrary: c rule: sqroot_c.induct)
  case (1 l)
  show ?case
  proof (cases "l div 4 = 0")
    case True
    with "1.prems" show ?thesis by (intro exI [of _ 0]) (simp add: sqroot_c.simps [of l])
  next
    case False
    have eq: "to_int32 (to_int32 c * 2) = to_int32 (c * 2)"
      by (simp add: to_int32_def)
    obtain k where k: "sqroot_c (l div 4) (to_int32 (c * 2)) = to_int32 (c * 2 * 2 ^ k)"
      "4 ^ k \<le> l div 4" "l div 4 < 4 ^ Suc k"
      using "1.hyps" [OF False eq] False by auto
    then show ?thesis
      using False by (intro exI [of _ "Suc k"]) (auto simp: sqroot_c.simps [of l] eq mult.assoc)
  qed
qed

lemma or_pow2:
  assumes "2 ^ Suc k dvd (b :: int)"
  shows "b OR 2 ^ k = b + 2 ^ k" and "(b + 2 ^ k) AND NOT (2 ^ k) = b"
proof -
  obtain m where m: "b = push_bit (Suc k) m"
    using assms by (auto simp: push_bit_eq_mult dvd_def mult.commute)
  have n: "\<not> bit b k" unfolding m bit_push_bit_iff by simp
  show or: "b OR 2 ^ k = b + 2 ^ k"
    by (rule disjunctive_add [symmetric]) (use n in \<open>auto simp: bit_exp_iff\<close>)
  show "(b + 2 ^ k) AND NOT (2 ^ k) = b"
    unfolding or [symmetric] by (rule bit_eqI) (use n in \<open>auto simp: bit_simps\<close>)
qed

lemma sqroot_bits_correct:
  assumes "2 ^ Suc k dvd b" "0 \<le> b" "3 \<le> k" "b * b \<le> len" "len < (b + 2 * 2 ^ k) * (b + 2 * 2 ^ k)"
  shows "let r = sqroot_bits len b (2 ^ k) in 8 dvd r \<and> 0 \<le> r \<and> r * r \<le> len \<and> len < (r + 8) * (r + 8)"
  using assms
proof (induction k arbitrary: b)
  case 0
  then show ?case by simp
next
  case (Suc k)
  let ?c = "2 ^ Suc k :: int"
  let ?b = "if len < (b + ?c) * (b + ?c) then b else b + ?c"
  have step: "sqroot_bits len b ?c = (if 2 ^ k \<ge> (8 :: int) then sqroot_bits len ?b (2 ^ k) else ?b)"
    by (subst sqroot_bits.simps) (simp add: or_pow2 [OF Suc.prems(1)] Let_def del: power_Suc, simp)
  have dv: "2 ^ Suc k dvd b" using Suc.prems(1) by (rule dvd_trans [rotated]) simp
  then have dv': "2 ^ Suc k dvd ?b" by simp
  show ?case
  proof (cases "3 \<le> k")
    case True
    then have "(2 :: int) ^ 3 \<le> 2 ^ k" by (intro power_increasing) auto
    then show ?thesis
      using Suc.IH [OF dv' _ True] Suc.prems step by (auto simp: Let_def algebra_simps)
  next
    case False
    with Suc.prems(3) have k: "k = 2" by simp
    have "8 dvd b" using dv k by simp
    then show ?thesis using Suc.prems step k by (auto simp: Let_def algebra_simps)
  qed
qed

lemma max_blength_pow: "\<exists>m\<in>{17, 29}. max_blength pv = 2 ^ m"
  by (auto simp: max_blength_def MAX_BLOCK_SIZE_def OLD_MAX_BLOCK_SIZE_def)

lemma sqroot_c_cases:
  assumes "0 < len" "len < 2 ^ 63"
  shows "\<exists>k \<le> 31. sqroot_c (nat len) 1 = to_int32 (2 ^ k) \<and> 2 ^ k * 2 ^ k \<le> len \<and> len < 2 ^ Suc k * 2 ^ Suc k"
proof -
  obtain k where k: "sqroot_c (nat len) (to_int32 1) = to_int32 (1 * 2 ^ k)" "4 ^ k \<le> nat len" "nat len < 4 ^ Suc k"
    using sqroot_c_to_int32 [of "nat len" 1] assms(1) by auto
  have four: "(4 :: int) ^ j = 2 ^ j * 2 ^ j" for j by (simp flip: power_mult_distrib)
  have lo: "(4 :: int) ^ k \<le> len" and hi: "len < (4 :: int) ^ Suc k"
    using k(2,3) assms(1) by (simp_all only: le_nat_iff nat_less_iff of_nat_power of_nat_numeral less_imp_le)
  have "\<not> 32 \<le> k"
  proof
    assume "32 \<le> k"
    then have "(4 :: int) ^ 32 \<le> 4 ^ k" by (intro power_increasing) auto
    then show False using lo assms(2) by simp
  qed
  moreover have "to_int32 1 = 1" by (simp add: to_int32_id in_int32_def)
  ultimately show ?thesis
    using k(1) lo hi unfolding four by (intro exI [of _ k]) auto
qed

lemma to_int32_pow: "k < 31 \<Longrightarrow> to_int32 (2 ^ k) = 2 ^ k"
proof -
  assume "k < 31"
  then have "(2 :: int) ^ k < 2 ^ 31" by (intro power_strict_increasing) auto
  then show ?thesis by (intro to_int32_id) (auto simp: in_int32_def intro: order_trans [of _ 0])
qed

lemma to_int32_pow31: "to_int32 (2 ^ 31) = - (2 ^ 31)"
  by (simp add: to_int32_def)

text \<open>The choice of block length for a file above \<^verbatim>\<open>BLOCK_SIZE\<close> squared, by the top bit \<open>k\<close> of its root.\<close>

lemma pick_blength_by_root:
  assumes "BLOCK_SIZE * BLOCK_SIZE < len" "block_size cf = 0" "max_blength (protocol_version cf) = 2 ^ m"
    "m \<le> 31" "k \<le> 31" "sqroot_c (nat len) 1 = to_int32 (2 ^ k)"
  shows "pick_blength cf len = (if m \<le> k then 2 ^ m else max (sqroot_bits len 0 (2 ^ k)) BLOCK_SIZE)"
proof (cases "k = 31")
  case True
  then show ?thesis using assms to_int32_pow31 by (simp add: pick_blength_def)
next
  case False
  then have "(2 :: int) ^ m \<le> to_int32 (2 ^ k) \<longleftrightarrow> m \<le> k" "\<not> to_int32 (2 ^ k) < 0"
    using assms(5) by (simp_all add: to_int32_pow)
  then show ?thesis using assms False by (simp add: pick_blength_def to_int32_pow)
qed

lemma sq_mono: "0 \<le> (a :: int) \<Longrightarrow> a \<le> b \<Longrightarrow> a * a \<le> b * b"
  by (intro mult_mono) auto

lemma pick_blength_root:
  assumes "BLOCK_SIZE * BLOCK_SIZE < len" "len < 2 ^ 63" "block_size cf = 0"
  shows "let b = pick_blength cf len; mx = max_blength (protocol_version cf) in
    BLOCK_SIZE \<le> b \<and> b \<le> mx \<and> (b = BLOCK_SIZE \<or> 8 dvd b) \<and> b * b \<le> len \<and> (b < mx \<longrightarrow> len < (b + 8) * (b + 8))"
proof -
  obtain m where m: "max_blength (protocol_version cf) = 2 ^ m" "m = 17 \<or> m = 29" using max_blength_pow by blast
  obtain k where k: "k \<le> 31" "sqroot_c (nat len) 1 = to_int32 (2 ^ k)" "2 ^ k * 2 ^ k \<le> len" "len < 2 ^ Suc k * 2 ^ Suc k"
    using sqroot_c_cases [of len] assms by (auto simp: BLOCK_SIZE_def)
  have p: "pick_blength cf len = (if m \<le> k then 2 ^ m else max (sqroot_bits len 0 (2 ^ k)) BLOCK_SIZE)"
    using assms m k by (intro pick_blength_by_root) auto
  have mx: "BLOCK_SIZE \<le> 2 ^ m" "(8 :: int) dvd 2 ^ m" using m by (auto simp: BLOCK_SIZE_def)
  show ?thesis
  proof (cases "m \<le> k")
    case True
    then have "(2 :: int) ^ m * 2 ^ m \<le> 2 ^ k * 2 ^ k" by (intro sq_mono power_increasing) auto
    then show ?thesis using True p mx m k(3) by auto
  next
    case False
    define r where "r = sqroot_bits len 0 (2 ^ k)"
    have "\<not> k < 3"
    proof
      assume "k < 3"
      then have "(2 :: int) ^ Suc k * 2 ^ Suc k \<le> 2 ^ 3 * 2 ^ 3" by (intro sq_mono power_increasing) auto
      then show False using k(4) assms(1) by (simp add: BLOCK_SIZE_def)
    qed
    then have rr: "8 dvd r" "0 \<le> r" "r * r \<le> len" "len < (r + 8) * (r + 8)"
      using sqroot_bits_correct [of k 0 len] k(3,4) assms(1) by (auto simp: r_def Let_def BLOCK_SIZE_def)
    have "(2 :: int) ^ Suc k * 2 ^ Suc k \<le> 2 ^ m * 2 ^ m" using False by (intro sq_mono power_increasing) auto
    then have "\<not> 2 ^ m \<le> r" using sq_mono [of "2 ^ m" r] rr(3) k(4) by auto
    moreover have "len < (max r BLOCK_SIZE + 8) * (max r BLOCK_SIZE + 8)"
      using rr(2,4) sq_mono [of "r + 8" "max r BLOCK_SIZE + 8"] by simp
    ultimately show ?thesis using False p mx rr assms(1) m(1) by (auto simp: Let_def max_def r_def)
  qed
qed

lemma pick_blength_bounds:
  assumes "0 \<le> len" "len < 2 ^ 63" "block_size cf = 0"
  shows "BLOCK_SIZE \<le> pick_blength cf len" "pick_blength cf len \<le> max_blength (protocol_version cf)"
proof -
  have "BLOCK_SIZE \<le> pick_blength cf len \<and> pick_blength cf len \<le> max_blength (protocol_version cf)"
  proof (cases "BLOCK_SIZE * BLOCK_SIZE < len")
    case True
    then show ?thesis using pick_blength_root [OF True assms(2,3)] by (simp add: Let_def)
  next
    case False
    then show ?thesis using max_blength_pow [of "protocol_version cf"] assms(3)
      by (auto simp: pick_blength_def BLOCK_SIZE_def)
  qed
  then show "BLOCK_SIZE \<le> pick_blength cf len" "pick_blength cf len \<le> max_blength (protocol_version cf)"
    by auto
qed

section \<open>Signatures that describe a file\<close>

text \<open>
  \<open>tiles s n\<close>: the geometry in \<open>s\<close> cuts \<open>n\<close> bytes into full blocks and at most one shorter last
  block. \<open>block s B i\<close> is the data of block \<open>i\<close>. \<open>describes\<close>: every entry of \<open>s\<close> holds the place and
  the checksums of its block of \<open>B\<close>.
\<close>

definition tiles :: "sum_struct \<Rightarrow> nat \<Rightarrow> bool" where
  "tiles s n \<longleftrightarrow> 0 < ss_blength s \<and> 0 \<le> ss_remainder s \<and> ss_remainder s < ss_blength s \<and> 0 \<le> ss_count s
     \<and> int n = (ss_count s - (if ss_remainder s \<noteq> 0 then 1 else 0)) * ss_blength s + ss_remainder s"

definition block :: "sum_struct \<Rightarrow> byte list \<Rightarrow> nat \<Rightarrow> byte list" where
  "block s B i = seg B (i * nat (ss_blength s)) (nat (ss_blength s))"

definition entry_ok :: "sum_conf \<Rightarrow> (byte list \<Rightarrow> byte list) \<Rightarrow> sum_struct \<Rightarrow> byte list \<Rightarrow> nat \<Rightarrow> bool" where
  "entry_ok cf csum2 s B i \<longleftrightarrow>
     sb_offset (ss_sums s ! i) = int i * ss_blength s
     \<and> sb_len (ss_sums s ! i) = int (length (block s B i))
     \<and> sb_sum1 (ss_sums s ! i) = ck_sum (block s B i)
     \<and> take (nat (ss_s2length s)) (sum2_at cf s (int i)) = take (nat (ss_s2length s)) (csum2 (block s B i))"

definition describes :: "sum_conf \<Rightarrow> (byte list \<Rightarrow> byte list) \<Rightarrow> sum_struct \<Rightarrow> byte list \<Rightarrow> bool" where
  "describes cf csum2 s B \<longleftrightarrow> tiles s (length B) \<and> ss_flength s = int (length B)
     \<and> 0 \<le> ss_s2length s \<and> length (ss_sums s) = nat (ss_count s)
     \<and> (\<forall>i<length (ss_sums s). entry_ok cf csum2 s B i) \<and> (\<forall>e\<in>set (ss_sums s). \<not> sb_flags e)"

lemma tiles_count:
  assumes "tiles s n"
  shows "i < nat (ss_count s) \<longleftrightarrow> i * nat (ss_blength s) < n"
proof -
  define b where "b = nat (ss_blength s)"
  define r where "r = nat (ss_remainder s)"
  define c where "c = nat (ss_count s)"
  have eq: "ss_blength s = int b" "ss_remainder s = int r" "ss_count s = int c" "0 < b" "r < b"
    using assms by (auto simp: tiles_def b_def r_def c_def)
  have n: "if r = 0 then n = c * b else c \<noteq> 0 \<and> n = (c - 1) * b + r"
  proof (cases "r = 0")
    case True
    then have "int n = int (c * b)" using assms by (simp add: tiles_def eq)
    then show ?thesis using True by (simp only: of_nat_eq_iff simp_thms if_True)
  next
    case False
    then have *: "int n = (int c - 1) * int b + int r" using assms by (simp add: tiles_def eq)
    have "c \<noteq> 0"
    proof
      assume "c = 0"
      then show False using * eq(4,5) by simp
    qed
    then have "int n = int ((c - 1) * b + r)" using * by (simp add: of_nat_diff)
    then show ?thesis using False \<open>c \<noteq> 0\<close> by (simp only: of_nat_eq_iff if_False simp_thms)
  qed
  have "i < c \<longleftrightarrow> i * b < n"
  proof (cases "r = 0")
    case True then show ?thesis using n eq(4) by simp
  next
    case False
    then have c: "c = Suc (c - 1)" "n = (c - 1) * b + r" using n by auto
    have "i * b < n" if "i < c"
    proof -
      have "i * b \<le> (c - 1) * b" using that by (intro mult_le_mono1) simp
      then show ?thesis using c(2) False by linarith
    qed
    moreover have "n \<le> i * b" if "\<not> i < c"
    proof -
      have "Suc (c - 1) * b \<le> i * b" using that c(1) by (intro mult_le_mono1) simp
      then show ?thesis using c(2) eq(5) by simp
    qed
    ultimately show ?thesis by fastforce
  qed
  then show ?thesis by (simp add: b_def c_def)
qed

lemma tiles_block_length:
  assumes "tiles s (length B)" "i < nat (ss_count s)"
  shows "int (length (block s B i)) = min (int (length B) - int i * ss_blength s) (ss_blength s)"
    "int (length (block s B i)) = (if int i = ss_count s - 1 \<and> ss_remainder s \<noteq> 0 then ss_remainder s else ss_blength s)"
proof -
  define b where "b = nat (ss_blength s)"
  have b: "ss_blength s = int b" "0 < b" using assms(1) by (auto simp: tiles_def b_def)
  have lt: "i * b < length B" using tiles_count [OF assms(1)] assms(2) by (simp add: b_def)
  then show 1: "int (length (block s B i)) = min (int (length B) - int i * ss_blength s) (ss_blength s)"
    by (simp add: block_def length_seg_min b of_nat_min of_nat_diff less_imp_le min.commute)
  have "int i \<le> ss_count s - 1" using assms(2) by linarith
  then consider "int i = ss_count s - 1" | "int i \<le> ss_count s - 2" by linarith
  then show "int (length (block s B i)) = (if int i = ss_count s - 1 \<and> ss_remainder s \<noteq> 0 then ss_remainder s else ss_blength s)"
  proof cases
    case 1
    then have "ss_count s = int i + 1" by simp
    then show ?thesis using assms(1) unfolding \<open>int (length (block s B i)) = _\<close>
      by (auto simp: tiles_def algebra_simps)
  next
    case 2
    then have "(int i + 1) * ss_blength s \<le> (ss_count s - 1) * ss_blength s" using b by (intro mult_right_mono) auto
    then show ?thesis using assms(1) 2 unfolding \<open>int (length (block s B i)) = _\<close>
      by (cases "ss_remainder s = 0") (auto simp: tiles_def algebra_simps)
  qed
qed

lemma concat_blocks:
  assumes "tiles s (length B)"
  shows "n \<le> nat (ss_count s) \<Longrightarrow> concat (map (block s B) [0..<n]) = take (n * nat (ss_blength s)) B"
proof (induction n)
  case (Suc n)
  let ?b = "nat (ss_blength s)"
  have "take (n * ?b) B @ block s B n = take (Suc n * ?b) B"
    by (simp add: block_def take_seg_append add.commute)
  then show ?case using Suc by simp
qed simp

section \<open>Sending and receiving a signature\<close>

definition head_ok :: "sum_conf \<Rightarrow> sum_struct \<Rightarrow> bool" where
  "head_ok cf s \<longleftrightarrow> 0 \<le> ss_count s \<and> ss_count s < 2 ^ 31
     \<and> (0 < xfer_sum_len cf \<longrightarrow> ss_count s \<le> SIZE_MAX div xfer_sum_len cf)
     \<and> 0 \<le> ss_blength s \<and> ss_blength s \<le> max_blength (protocol_version cf)
     \<and> 0 \<le> ss_s2length s \<and> ss_s2length s \<le> xfer_sum_len cf \<and> ss_s2length s < 2 ^ 31
     \<and> (protocol_version cf < 27 \<longrightarrow> ss_s2length s = csum_length cf)
     \<and> 0 \<le> ss_remainder s \<and> ss_remainder s \<le> ss_blength s"

definition head_of :: "sum_struct \<Rightarrow> sum_struct" where
  "head_of s = null_sum\<lparr>ss_count := ss_count s, ss_blength := ss_blength s, ss_s2length := ss_s2length s,
     ss_remainder := ss_remainder s\<rparr>"

lemma read_sum_head_write_sum_head [wire_rt]:
  assumes "head_ok cf s"
  shows "read_sum_head cf (write_sum_head cf (Some s) @ r) = Inr (head_of s, r)"
proof -
  have "ss_blength s < 2 ^ 31"
    using assms max_blength_pow [of "protocol_version cf"] by (auto simp: head_ok_def)
  then have "in_int32 (ss_count s)" "in_int32 (ss_blength s)" "in_int32 (ss_s2length s)" "in_int32 (ss_remainder s)"
    using assms by (auto simp: head_ok_def in_int32_def)
  moreover have "\<not> SIZE_MAX div sizeof_sum_buf < ss_count s"
    using assms by (auto simp: head_ok_def SIZE_MAX_def sizeof_sum_buf_def)
  ultimately show ?thesis
    using assms by (auto simp: head_ok_def read_sum_head_def write_sum_head_def head_of_def reader_simps wire_rt)
qed

text \<open>What the receiving loop has built after \<open>i\<close> blocks.\<close>

definition partly :: "sum_conf \<Rightarrow> (byte list \<Rightarrow> byte list) \<Rightarrow> sum_struct \<Rightarrow> byte list \<Rightarrow> nat \<Rightarrow> bool" where
  "partly cf csum2 s B i \<longleftrightarrow> tiles s (length B) \<and> 0 \<le> ss_s2length s \<and> ss_s2length s \<le> xfer_sum_len cf
     \<and> length (ss_sums s) = i \<and> length (ss_sum2_array s) = nat (ss_count s) * nat (xfer_sum_len cf)
     \<and> (\<forall>j<i. entry_ok cf csum2 s B j) \<and> (\<forall>e\<in>set (ss_sums s). \<not> sb_flags e)"

lemma seg_sum2_at: "0 \<le> xfer_sum_len cf \<Longrightarrow>
    take n (sum2_at cf s (int i)) = seg (ss_sum2_array s) (i * nat (xfer_sum_len cf)) n"
  by (simp add: sum2_at_def seg_def nat_mult_distrib)

lemma partly_step:
  assumes p: "partly cf csum2 s B i" and i: "i < nat (ss_count s)"
    and b: "b = take (nat (ss_s2length s)) (csum2 (block s B i))" "length b = nat (ss_s2length s)"
    and s': "s' = s\<lparr>ss_sums := ss_sums s @ [\<lparr>sb_offset = int i * ss_blength s, sb_len = int (length (block s B i)),
               sb_sum1 = ck_sum (block s B i), sb_chain = 0, sb_flags = False\<rparr>],
             ss_sum2_array := blit (ss_sum2_array s) (i * nat (xfer_sum_len cf)) b\<rparr>"
  shows "partly cf csum2 s' B (Suc i)"
proof -
  define x where "x = nat (xfer_sum_len cf)"
  define n where "n = nat (ss_s2length s)"
  have nx: "n \<le> x" "0 \<le> xfer_sum_len cf" using p by (auto simp: partly_def n_def x_def)
  have le: "j * x + x \<le> k * x" if "j < k" for j k
    using mult_le_mono1 [of "Suc j" k x] that by simp
  have room: "i * x + n \<le> length (ss_sum2_array s)"
    using le [OF i] nx p by (auto simp: partly_def x_def [symmetric])
  have blk: "block s' B = block s B" by (simp add: s' block_def fun_eq_iff)
  have e: "entry_ok cf csum2 s' B j" if "j < Suc i" for j
  proof (cases "j = i")
    case True
    have "seg (blit (ss_sum2_array s) (i * x) b) (i * x) n = b"
      using room b(2) seg_blit_same [of "i * x" b "ss_sum2_array s"] by (simp add: n_def)
    then show ?thesis using True p nx
      by (simp add: entry_ok_def blk seg_sum2_at) (simp add: s' partly_def nth_append b(1) n_def x_def)
  next
    case False
    then have j: "j < i" using that by simp
    have "seg (blit (ss_sum2_array s) (i * x) b) (j * x) n = seg (ss_sum2_array s) (j * x) n"
      using le [OF j] nx room by (intro seg_blit_before) auto
    moreover have "entry_ok cf csum2 s B j" using p j by (simp add: partly_def)
    ultimately show ?thesis using j p nx
      by (simp add: entry_ok_def blk seg_sum2_at) (simp add: s' partly_def nth_append n_def x_def)
  qed
  have "length (ss_sum2_array s') = nat (ss_count s) * x"
    using room b(2) p by (simp add: s' partly_def x_def n_def)
  then show ?thesis
    using p e by (auto simp: partly_def s' x_def tiles_def)
qed

lemma in_int32_sint [simp]: "in_int32 (sint (w :: uint32))"
  using sint_range_size [of w] by (simp add: in_int32_def word_size)

lemma block_view:
  assumes "tiles s (length B)" "i < nat (ss_count s)"
  shows "map_view B (i * nat (ss_blength s)) (length (block s B i)) = block s B i"
  using tiles_count [OF assms(1)] assms(2)
  by (simp add: map_view_seg block_def length_seg_min) (simp add: seg_def min_def)

lemma receive_sums_loop_correct:
  assumes "partly cf csum2 s B i" "i + n = nat (ss_count s)"
    and "offset = min (int i * ss_blength s) (int (length B))"
    and s0: "ss_blength s0 = ss_blength s" "ss_s2length s0 = ss_s2length s"
    and dig: "\<And>x. nat (ss_s2length s) \<le> length (csum2 x)"
  shows "\<exists>s'. receive_sums_loop cf n (int i) offset s
           (fst (send_sums_loop cf csum2 B s0 False n offset (int (length B) - offset)) @ r) = Inr (s', r)
         \<and> describes cf csum2 s' B \<and> ss_blength s' = ss_blength s \<and> ss_s2length s' = ss_s2length s
         \<and> ss_count s' = ss_count s"
  using assms
proof (induction n arbitrary: i offset s)
  case 0
  have t: "tiles s (length B)" using "0.prems"(1) by (simp add: partly_def)
  have "\<not> i * nat (ss_blength s) < length B" using tiles_count [OF t, of i] "0.prems"(2) by simp
  then have "length B \<le> i * nat (ss_blength s)" by simp
  moreover have "int (i * nat (ss_blength s)) = int i * ss_blength s" using t by (simp add: tiles_def)
  ultimately have "int (length B) \<le> int i * ss_blength s" by linarith
  then have o: "offset = int (length B)" using "0.prems"(3) by simp
  have "block (s\<lparr>ss_flength := offset\<rparr>) B = block s B" by (simp add: block_def fun_eq_iff)
  then have "describes cf csum2 (s\<lparr>ss_flength := offset\<rparr>) B"
    using "0.prems"(1,2) o by (auto simp: describes_def partly_def tiles_def entry_ok_def sum2_at_def)
  then show ?case by (simp add: reader_simps)
next
  case (Suc n)
  let ?b = "block s B i" and ?m = "nat (ss_s2length s)"
  have t: "tiles s (length B)" and i: "i < nat (ss_count s)" and bl: "0 < ss_blength s"
    using Suc.prems by (simp_all add: partly_def tiles_def)
  have "i * nat (ss_blength s) < length B" using tiles_count [OF t] i by simp
  moreover have ib: "int (i * nat (ss_blength s)) = int i * ss_blength s" using bl by simp
  ultimately have lt: "int i * ss_blength s < int (length B)" by linarith
  then have o: "offset = int i * ss_blength s" "nat offset = i * nat (ss_blength s)"
    using Suc.prems(3) ib by linarith+
  have n1: "min (int (length B) - offset) (ss_blength s0) = int (length ?b)"
    using tiles_block_length(1) [OF t i] o s0 Suc.prems(4) by simp
  have mp: "map_view B (nat offset) (length ?b) = ?b" using block_view [OF t i] o by simp
  define s' where "s' = s\<lparr>ss_sums := ss_sums s @ [\<lparr>sb_offset = offset, sb_len = int (length ?b),
      sb_sum1 = ck_sum ?b, sb_chain = 0, sb_flags = False\<rparr>],
      ss_sum2_array := blit (ss_sum2_array s) (i * nat (xfer_sum_len cf)) (take ?m (csum2 ?b))\<rparr>"
  have p': "partly cf csum2 s' B (Suc i)"
    using Suc.prems(6) by (intro partly_step [OF Suc.prems(1) i refl]) (simp_all add: s'_def o)
  have x: "nat (int i * xfer_sum_len cf) = i * nat (xfer_sum_len cf)" by (simp add: nat_mult_distrib)
  have off': "offset + int (length ?b) = min (int (Suc i) * ss_blength s') (int (length B))"
    using n1 o s0 Suc.prems(4) by (auto simp: s'_def algebra_simps)
  obtain s'' where s'': "receive_sums_loop cf n (int (Suc i)) (offset + int (length ?b)) s'
        (fst (send_sums_loop cf csum2 B s0 False n (offset + int (length ?b))
           (int (length B) - (offset + int (length ?b)))) @ r) = Inr (s'', r)"
      "describes cf csum2 s'' B" "ss_blength s'' = ss_blength s'" "ss_s2length s'' = ss_s2length s'" "ss_count s'' = ss_count s'"
    using Suc.IH [OF p' _ off'] Suc.prems by (auto simp: s'_def)
  have "read_buf ?m (take ?m (csum2 ?b) @ rest) = Inr (take ?m (csum2 ?b), rest)" for rest
    using Suc.prems(6) [of ?b] read_buf_app [of ?m "take ?m (csum2 ?b)" rest] by simp
  then have "receive_sums_loop cf (Suc n) (int i) offset s
        (fst (send_sums_loop cf csum2 B s0 False (Suc n) offset (int (length B) - offset)) @ r)
      = Inr (s'', r)"
    using s''(1) Suc.prems(5)
    by (simp add: n1 mp Let_def case_prod_beta reader_simps wire_rt get_checksum1_eq x
        tiles_block_length(2) [OF t i, symmetric] s'_def [symmetric] diff_diff_eq add.commute)
  with s'' show ?case by (auto simp: s'_def)
qed

lemma sum_sizes_tiles:
  assumes "0 \<le> len" "0 < pick_blength cf len" "pick_blength cf len < 2 ^ 31"
    and "0 \<le> ss_count (sum_sizes_sqroot cf len)"
  shows "tiles (sum_sizes_sqroot cf len) (nat len)" "ss_count (sum_sizes_sqroot cf len) < 2 ^ 31"
proof -
  let ?b = "pick_blength cf len"
  have m: "0 \<le> len mod ?b" "len mod ?b < ?b" using assms(2) by auto
  have rm: "to_int32 (len mod ?b) = len mod ?b"
    by (rule to_int32_id) (use m assms(3) in \<open>unfold in_int32_def, linarith\<close>)
  let ?l = "len div ?b + (if len mod ?b \<noteq> 0 then 1 else 0)"
  have l: "to_int32 ?l = ?l" "ss_count (sum_sizes_sqroot cf len) = ?l"
    using assms(1,4) rm by (auto simp: sum_sizes_sqroot_def Let_def split: if_splits)
  have "to_int32 ?l < 2 ^ 31"
    using sint_range_size [of "word_of_int ?l :: uint32"] by (simp add: to_int32_def word_size)
  then show "ss_count (sum_sizes_sqroot cf len) < 2 ^ 31" using l by simp
  show "tiles (sum_sizes_sqroot cf len) (nat len)"
    using assms(1,2) l rm pos_mod_bound [of ?b len] pos_mod_sign [of ?b len] pos_imp_zdiv_nonneg_iff [of ?b len]
    by (auto simp: tiles_def sum_sizes_sqroot_def Let_def mult.commute)
qed

lemma pick_s2length_bounds:
  assumes "0 \<le> csum_length cf" "csum_length cf \<le> SUM_LENGTH" "csum_length cf \<le> xfer_sum_len cf"
  shows "0 \<le> pick_s2length cf len b" "pick_s2length cf len b \<le> SUM_LENGTH" "pick_s2length cf len b \<le> xfer_sum_len cf"
  using assms by (auto simp: pick_s2length_def Let_def SUM_LENGTH_def min_def max_def)

text \<open>The configurations of the signature code: what option parsing and negotiation leave.\<close>

definition conf_ok :: "sum_conf \<Rightarrow> bool" where
  "conf_ok cf \<longleftrightarrow> 0 \<le> csum_length cf \<and> csum_length cf \<le> SUM_LENGTH \<and> csum_length cf \<le> xfer_sum_len cf
     \<and> xfer_sum_len cf \<le> 64 \<and> 0 \<le> block_size cf \<and> block_size cf \<le> max_blength (protocol_version cf)"

lemma pick_blength_ok:
  assumes "conf_ok cf" "0 \<le> len" "len < 2 ^ 63"
  shows "0 < pick_blength cf len" "pick_blength cf len \<le> max_blength (protocol_version cf)"
    "pick_blength cf len < 2 ^ 31"
proof -
  have b: "0 < pick_blength cf len \<and> pick_blength cf len \<le> max_blength (protocol_version cf)"
  proof (cases "block_size cf = 0")
    case True
    show ?thesis
      using pick_blength_bounds [OF assms(2,3) True] by (simp add: BLOCK_SIZE_def)
  next
    case False
    then have "pick_blength cf len = block_size cf" by (simp add: pick_blength_def)
    then show ?thesis
      using False assms(1) by (simp add: conf_ok_def)
  qed
  then show "0 < pick_blength cf len" "pick_blength cf len \<le> max_blength (protocol_version cf)" by auto
  show "pick_blength cf len < 2 ^ 31"
    using b max_blength_pow [of "protocol_version cf"] by auto
qed

lemma sum_sizes_head_ok:
  assumes "conf_ok cf" "0 \<le> len" "len < 2 ^ 63" "0 \<le> ss_count (sum_sizes_sqroot cf len)"
  shows "head_ok cf (sum_sizes_sqroot cf len)"
proof -
  let ?s = "sum_sizes_sqroot cf len"
  note t = sum_sizes_tiles [OF assms(2) pick_blength_ok(1,3) [OF assms(1-3)] assms(4)]
  have f: "ss_blength ?s = pick_blength cf len" "ss_s2length ?s = pick_s2length cf len (pick_blength cf len)"
    using assms(2) by (simp_all add: sum_sizes_sqroot_def Let_def)
  have cl: "0 \<le> csum_length cf" "csum_length cf \<le> SUM_LENGTH" "csum_length cf \<le> xfer_sum_len cf"
    using assms(1) by (auto simp: conf_ok_def)
  have "SIZE_MAX div 64 \<le> SIZE_MAX div xfer_sum_len cf" if "0 < xfer_sum_len cf"
    using assms(1) that by (intro zdiv_mono2) (auto simp: conf_ok_def SIZE_MAX_def)
  then have "0 < xfer_sum_len cf \<longrightarrow> ss_count ?s \<le> SIZE_MAX div xfer_sum_len cf"
    using t(2) by (auto simp: SIZE_MAX_def)
  then show ?thesis
    using t pick_s2length_bounds [OF cl, of len "pick_blength cf len"] pick_blength_ok(2) [OF assms(1-3)] assms(4)
    unfolding head_ok_def f by (auto simp: tiles_def f SUM_LENGTH_def) (simp_all add: pick_s2length_def)
qed

section \<open>Properties\<close>

lemma tiles_remainder: "tiles s n \<Longrightarrow> ss_remainder s = int n mod ss_blength s"
  by (auto simp: tiles_def)

lemma receive_generated:
  assumes cf: "conf_ok cf" "append_mode cf \<le> 0" and len: "int (length B) < 2 ^ 63"
    and dig: "\<And>x. nat (xfer_sum_len cf) \<le> length (csum2 x)"
    and gen: "generate_and_send_sums cf csum2 B (int (length B)) False = Some (out, cp)"
  shows "\<exists>s. receive_sums cf (out @ r) = Inr (s, r) \<and> (0 < length B \<longrightarrow> describes cf csum2 s B)
     \<and> (length B = 0 \<longrightarrow> ss_count s = 0)
     \<and> ss_blength s = ss_blength (sum_sizes_sqroot cf (int (length B))) \<and> head_ok cf s"
proof -
  let ?s = "sum_sizes_sqroot cf (int (length B))"
  have c: "0 \<le> ss_count ?s" using gen by (auto simp: generate_and_send_sums_def Let_def split: if_splits)
  have out: "out = write_sum_head cf (Some ?s)
      @ fst (send_sums_loop cf csum2 B ?s False (nat (ss_count ?s)) 0 (int (length B)))"
    using gen cf(2) c by (auto simp: generate_and_send_sums_def Let_def split: if_splits prod.splits)
  have h: "head_ok cf ?s" using sum_sizes_head_ok [OF cf(1) _ len c] by simp
  have t: "tiles ?s (length B)"
    using sum_sizes_tiles(1) [OF _ pick_blength_ok(1,3) [OF cf(1) _ len] c] by simp
  have nz: "ss_count ?s = 0 \<longleftrightarrow> length B = 0"
    using tiles_count [OF t, of 0] c by auto
  define s0 where "s0 = (head_of ?s)\<lparr>ss_sum2_array := replicate (nat (ss_count ?s * xfer_sum_len cf)) 0\<rparr>"
  have p: "partly cf csum2 s0 B 0"
    using t h by (auto simp: partly_def s0_def head_of_def tiles_def head_ok_def null_sum_def nat_mult_distrib)
  have d0: "nat (ss_s2length s0) \<le> length (csum2 x)" for x
    using h by (intro le_trans [OF nat_mono dig]) (simp add: s0_def head_of_def head_ok_def)
  have "\<exists>s'. receive_sums_loop cf (nat (ss_count s0)) (int 0) 0 s0
           (fst (send_sums_loop cf csum2 B ?s False (nat (ss_count s0)) 0 (int (length B) - 0)) @ r) = Inr (s', r)
         \<and> describes cf csum2 s' B \<and> ss_blength s' = ss_blength s0 \<and> ss_s2length s' = ss_s2length s0
         \<and> ss_count s' = ss_count s0"
    by (rule receive_sums_loop_correct [OF p]) (simp_all add: d0, simp_all add: s0_def head_of_def)
  moreover have "head_ok cf s'" if "describes cf csum2 s' B" "ss_blength s' = ss_blength s0" "ss_s2length s' = ss_s2length s0" "ss_count s' = ss_count s0" for s'
  proof -
    have "ss_remainder s' = ss_remainder ?s" using that(2) tiles_remainder [OF t] tiles_remainder [of s' "length B"] that(1) by (simp add: describes_def s0_def head_of_def)
    then show ?thesis using h that by (simp add: head_ok_def s0_def head_of_def)
  qed
  ultimately show ?thesis
    using cf(2) nz h by (cases "length B = 0")
      (auto simp: out receive_sums_def reader_simps wire_rt s0_def head_of_def null_sum_def head_ok_def)
qed

text \<open>
  C16: what the generator sends for a basis file \<open>B\<close>, the sender's \<^verbatim>\<open>receive_sums\<close> accepts and turns
  into a signature that describes \<open>B\<close>: the blocks tile the file, and entry \<open>i\<close> holds the offset,
  length, weak sum and truncated strong sum of block \<open>i\<close>. The digest only has to be as long as negotiated.
\<close>

theorem signature_roundtrip:
  assumes cf: "conf_ok cf" "append_mode cf \<le> 0" and len: "int (length B) < 2 ^ 63"
    and dig: "\<And>x. nat (xfer_sum_len cf) \<le> length (csum2 x)"
    and gen: "generate_and_send_sums cf csum2 B (int (length B)) False = Some (out, cp)"
  shows "\<exists>s. receive_sums cf (out @ r) = Inr (s, r) \<and> (0 < length B \<longrightarrow> describes cf csum2 s B)
     \<and> (length B = 0 \<longrightarrow> ss_count s = 0)
     \<and> ss_blength s = ss_blength (sum_sizes_sqroot cf (int (length B)))"
  using receive_generated [OF assms, of r] by blast

lemma generate_and_send_sums_Some:
  "0 \<le> ss_count (sum_sizes_sqroot cf len) \<Longrightarrow> \<exists>out cp. generate_and_send_sums cf csum2 B len f_copy = Some (out, cp)"
  by (simp add: generate_and_send_sums_def Let_def case_prod_beta)

theorem signature_roundtrip_witness:
  "\<exists>cf csum2 out cp s. cf = \<lparr>protocol_version = 31, xfer_sum_len = 16, csum_length = 2, block_size = 2, append_mode = 0\<rparr>
     \<and> csum2 = (\<lambda>x. take 16 (x @ replicate 16 7))
     \<and> generate_and_send_sums cf csum2 [1, 2, 3, 4, 5] (int (length [1, 2, 3, 4, 5 :: byte])) False = Some (out, cp)
     \<and> receive_sums cf (out @ [9]) = Inr (s, [9]) \<and> describes cf csum2 s [1, 2, 3, 4, 5]"
proof -
  define cf where "cf = \<lparr>protocol_version = 31, xfer_sum_len = 16, csum_length = 2, block_size = 2, append_mode = 0\<rparr>"
  define csum2 where "csum2 = (\<lambda>x :: byte list. take 16 (x @ replicate 16 (7 :: byte)))"
  have "ss_count (sum_sizes_sqroot cf (int (length [1, 2, 3, 4, 5 :: byte]))) = 3"
    unfolding cf_def by code_simp
  then obtain out cp where g:
    "generate_and_send_sums cf csum2 [1, 2, 3, 4, 5] (int (length [1, 2, 3, 4, 5 :: byte])) False = Some (out, cp)"
    using generate_and_send_sums_Some [of cf "int (length [1, 2, 3, 4, 5 :: byte])"] by fastforce
  have "conf_ok cf" "append_mode cf \<le> 0"
    by (simp_all add: cf_def conf_ok_def SUM_LENGTH_def max_blength_def MAX_BLOCK_SIZE_def)
  moreover have "nat (xfer_sum_len cf) \<le> length (csum2 x)" for x by (simp add: cf_def csum2_def)
  ultimately obtain s where "receive_sums cf (out @ [9]) = Inr (s, [9])"
      "0 < length [1, 2, 3, 4, 5 :: byte] \<longrightarrow> describes cf csum2 s [1, 2, 3, 4, 5]"
    using signature_roundtrip [OF _ _ _ _ g, of "[9]"] by auto
  then show ?thesis using g cf_def csum2_def by auto
qed

lemma int_div_less_mult:
  assumes "0 < b" "a < c * b"
  shows "a div b < (c :: int)"
proof (rule ccontr)
  assume "\<not> a div b < c"
  then have "c * b \<le> a div b * b" using assms(1) by (intro mult_right_mono) auto
  also have "\<dots> \<le> a" using pos_mod_sign [OF assms(1), of a] div_mult_mod_eq [of a b] by linarith
  finally show False using assms(2) by simp
qed

text \<open>
  C28: without \<^verbatim>\<open>--block-size\<close>, the geometry that \<^verbatim>\<open>sum_sizes_sqroot\<close> picks for a file of up to
  \<open>2\<^sup>4\<^sup>7\<close> bytes is never refused, tiles the file exactly, keeps the block length between \<^verbatim>\<open>BLOCK_SIZE\<close>
  and the protocol's maximum, and is the square root of the file size rounded down to a multiple
  of 8 whenever it lies strictly between those bounds.
\<close>

theorem block_geometry:
  assumes "block_size cf = 0" "0 \<le> len" "len < 2 ^ 47"
  defines "s \<equiv> sum_sizes_sqroot cf len"
  shows "tiles s (nat len) \<and> ss_flength s = len \<and> BLOCK_SIZE \<le> ss_blength s
    \<and> ss_blength s \<le> max_blength (protocol_version cf)
    \<and> (BLOCK_SIZE < ss_blength s \<longrightarrow> 8 dvd ss_blength s \<and> ss_blength s * ss_blength s \<le> len)
    \<and> (ss_blength s < max_blength (protocol_version cf) \<longrightarrow> len < (ss_blength s + 8) * (ss_blength s + 8))"
proof -
  let ?b = "pick_blength cf len"
  have l63: "len < 2 ^ 63" using assms(3) by simp
  note b = pick_blength_bounds [OF assms(2) l63 assms(1)]
  have b31: "?b < 2 ^ 31" using b(2) max_blength_pow [of "protocol_version cf"] by auto
  have f: "ss_blength s = ?b" "ss_flength s = len"
    using assms(2) by (simp_all add: s_def sum_sizes_sqroot_def Let_def)
  have root: "(BLOCK_SIZE < ?b \<longrightarrow> 8 dvd ?b \<and> ?b * ?b \<le> len)
      \<and> (?b < max_blength (protocol_version cf) \<longrightarrow> len < (?b + 8) * (?b + 8))"
  proof (cases "BLOCK_SIZE * BLOCK_SIZE < len")
    case True
    then show ?thesis using pick_blength_root [OF True l63 assms(1)] by (auto simp: Let_def)
  next
    case False
    then show ?thesis using assms(1) by (auto simp: pick_blength_def BLOCK_SIZE_def)
  qed
  have "len < 2 ^ 30 * ?b"
  proof (cases "?b < max_blength (protocol_version cf)")
    case True
    have "8 * 8 \<le> ?b" "?b \<le> 2 ^ 29"
      using b max_blength_pow [of "protocol_version cf"] by (auto simp: BLOCK_SIZE_def)
    then have "64 * ?b \<le> ?b * ?b" "?b * ?b \<le> 536870912 * ?b" by (simp_all add: mult_right_mono)
    moreover have "(?b + 8) * (?b + 8) = ?b * ?b + 16 * ?b + 64" by (simp add: algebra_simps)
    ultimately have "(?b + 8) * (?b + 8) \<le> 1073741824 * ?b" using \<open>8 * 8 \<le> ?b\<close> by linarith
    then show ?thesis using root True by simp
  next
    case False
    then show ?thesis using b(2) assms(3) max_blength_pow [of "protocol_version cf"] by auto
  qed
  then have "len div ?b < 2 ^ 30"
    using b(1) by (intro int_div_less_mult) (auto simp: BLOCK_SIZE_def)
  then have "0 \<le> ss_count s"
    using assms(2) b(1) pos_imp_zdiv_nonneg_iff [of ?b len]
    by (auto simp: s_def sum_sizes_sqroot_def Let_def BLOCK_SIZE_def in_int32_def intro!: to_int32_id)
  then have "tiles s (nat len)"
    using sum_sizes_tiles(1) [OF assms(2) _ b31] b(1) by (simp add: s_def BLOCK_SIZE_def)
  then show ?thesis using root b f by simp
qed

theorem block_geometry_witness:
  "tiles (sum_sizes_sqroot \<lparr>protocol_version = 31, xfer_sum_len = 16, csum_length = 2, block_size = 0, append_mode = 0\<rparr>
      1000000) 1000000
   \<and> ss_blength (sum_sizes_sqroot \<lparr>protocol_version = 31, xfer_sum_len = 16, csum_length = 2, block_size = 0, append_mode = 0\<rparr>
      1000000) = 1000"
proof
  show "tiles (sum_sizes_sqroot \<lparr>protocol_version = 31, xfer_sum_len = 16, csum_length = 2, block_size = 0, append_mode = 0\<rparr>
      1000000) 1000000"
    using block_geometry [of "\<lparr>protocol_version = 31, xfer_sum_len = 16, csum_length = 2, block_size = 0, append_mode = 0\<rparr>" 1000000]
    by simp
  show "ss_blength (sum_sizes_sqroot \<lparr>protocol_version = 31, xfer_sum_len = 16, csum_length = 2, block_size = 0, append_mode = 0\<rparr>
      1000000) = 1000"
    by (simp add: sum_sizes_sqroot_def pick_blength_def BLOCK_SIZE_def max_blength_def MAX_BLOCK_SIZE_def
        sqroot_c.simps sqroot_bits.simps to_int32_def)
qed

lemma read_sum_head_bounds:
  assumes "read_sum_head cf w = Inr (s, r)"
  shows "0 \<le> ss_count s \<and> 0 \<le> ss_blength s \<and> ss_blength s \<le> max_blength (protocol_version cf)
    \<and> 0 \<le> ss_s2length s \<and> ss_s2length s \<le> xfer_sum_len cf \<and> 0 \<le> ss_remainder s \<and> ss_remainder s \<le> ss_blength s
    \<and> ss_sums s = []"
  using assms
  by (auto simp: read_sum_head_def rd_bind_eq_Inr rd_return_def rd_fail_def null_sum_def split: if_splits)

lemma receive_sums_loop_bounds:
  assumes "receive_sums_loop cf n i offset s w = Inr (s', r)"
    and "0 \<le> i" "int n + i = ss_count s" "length (ss_sums s) = nat i"
    and "length (ss_sum2_array s) = nat (ss_count s * xfer_sum_len cf)"
    and "0 \<le> ss_s2length s" "ss_s2length s \<le> xfer_sum_len cf" "ss_remainder s \<le> ss_blength s" "0 \<le> ss_remainder s"
    and "\<forall>e\<in>set (ss_sums s). 0 \<le> sb_len e \<and> sb_len e \<le> ss_blength s"
  shows "length (ss_sums s') = nat (ss_count s) \<and> ss_count s' = ss_count s \<and> ss_blength s' = ss_blength s
    \<and> ss_s2length s' = ss_s2length s \<and> length (ss_sum2_array s') = nat (ss_count s * xfer_sum_len cf)
    \<and> (\<forall>e\<in>set (ss_sums s'). 0 \<le> sb_len e \<and> sb_len e \<le> ss_blength s)"
  using assms
proof (induction n arbitrary: i offset s w)
  case 0
  then show ?case by (auto simp: rd_return_def)
next
  case (Suc n)
  let ?l = "if i = ss_count s - 1 \<and> ss_remainder s \<noteq> 0 then ss_remainder s else ss_blength s"
  obtain x w1 b w2 where x: "read_int w = Inr (x, w1)" and b: "read_buf (nat (ss_s2length s)) w1 = Inr (b, w2)"
    and l: "receive_sums_loop cf n (i + 1) (offset + ?l)
       (s\<lparr>ss_sums := ss_sums s @ [\<lparr>sb_offset = offset, sb_len = ?l, sb_sum1 = word_of_int x, sb_chain = 0, sb_flags = False\<rparr>],
          ss_sum2_array := blit (ss_sum2_array s) (nat (i * xfer_sum_len cf)) b\<rparr>) w2 = Inr (s', r)"
    using Suc.prems(1) by (auto simp: rd_bind_eq_Inr Let_def)
  have lb: "length b = nat (ss_s2length s)" using b by (auto simp: read_buf_def split: if_splits)
  have "(i + 1) * xfer_sum_len cf \<le> ss_count s * xfer_sum_len cf"
    using Suc.prems by (intro mult_right_mono) auto
  then have "i * xfer_sum_len cf + ss_s2length s \<le> ss_count s * xfer_sum_len cf"
    using Suc.prems(7) by (simp add: distrib_right)
  moreover have "0 \<le> i * xfer_sum_len cf" using Suc.prems(2,6,7) by simp
  ultimately have "nat (i * xfer_sum_len cf) + length b \<le> length (ss_sum2_array s)"
    unfolding lb Suc.prems(5) using Suc.prems(6) by linarith
  then show ?case
    using Suc.IH [OF l] Suc.prems by (auto simp: nat_add_distrib)
qed

text \<open>
  C22: whatever bytes arrive, a signature that \<^verbatim>\<open>receive_sums\<close> returns (outside append mode, with a
  positive digest length) is safe to use: its counts and lengths are inside the protocol bounds,
  it has \<^verbatim>\<open>count\<close> entries, no entry is longer than a block, and the array of strong sums has room for
  every entry; the geometry is exactly the one the header named.
\<close>

theorem receive_sums_safe:
  assumes "receive_sums cf w = Inr (s, r)" "append_mode cf \<le> 0"
  shows "0 \<le> ss_count s \<and> length (ss_sums s) = nat (ss_count s)
    \<and> 0 \<le> ss_blength s \<and> ss_blength s \<le> max_blength (protocol_version cf)
    \<and> 0 \<le> ss_s2length s \<and> ss_s2length s \<le> xfer_sum_len cf
    \<and> (ss_count s \<noteq> 0 \<longrightarrow> length (ss_sum2_array s) = nat (ss_count s * xfer_sum_len cf))
    \<and> (\<forall>e\<in>set (ss_sums s). 0 \<le> sb_len e \<and> sb_len e \<le> ss_blength s)"
proof -
  obtain h w1 where h: "read_sum_head cf w = Inr (h, w1)"
    using assms(1) by (auto simp: receive_sums_def rd_bind_eq_Inr)
  note hb = read_sum_head_bounds [OF h]
  show ?thesis
  proof (cases "ss_count h = 0")
    case True
    then show ?thesis using assms h hb by (auto simp: receive_sums_def reader_simps)
  next
    case False
    then have l: "receive_sums_loop cf (nat (ss_count h)) 0 0
        (h\<lparr>ss_sum2_array := replicate (nat (ss_count h * xfer_sum_len cf)) 0\<rparr>) w1 = Inr (s, r)"
      using assms h by (simp add: receive_sums_def reader_simps)
    show ?thesis using receive_sums_loop_bounds [OF l] hb by auto
  qed
qed

theorem receive_sums_safe_witness:
  "\<exists>s. receive_sums \<lparr>protocol_version = 31, xfer_sum_len = 16, csum_length = 2, block_size = 0, append_mode = 0\<rparr>
         [1, 0, 0, 0, 2, 0, 0, 0, 2, 0, 0, 0, 1, 0, 0, 0, 5, 0, 0, 0, 7, 8] = Inr (s, [])
     \<and> ss_count s = 1 \<and> length (ss_sums s) = nat (ss_count s)"
proof -
  let ?cf = "\<lparr>protocol_version = 31, xfer_sum_len = 16, csum_length = 2, block_size = 0, append_mode = 0\<rparr>"
  let ?w = "[1, 0, 0, 0, 2, 0, 0, 0, 2, 0, 0, 0, 1, 0, 0, 0, 5, 0, 0, 0, 7, 8] :: byte list"
  let ?s = "\<lparr>ss_flength = 1, ss_sums = [\<lparr>sb_offset = 0, sb_len = 1, sb_sum1 = 5, sb_chain = 0, sb_flags = False\<rparr>],
     ss_sum2_array = [7, 8] @ replicate 14 0, ss_count = 1, ss_blength = 2, ss_remainder = 1, ss_s2length = 2\<rparr>"
  have "receive_sums ?cf ?w = Inr (?s, [])" by code_simp
  then show ?thesis using receive_sums_safe [of ?cf ?w ?s "[]"] by simp
qed

end
