(* ===== verification/Match.thy ===== *)
theory Match
  imports Sums
begin

unbundle bit_operations_syntax

text \<open>
  The delta search of \<^verbatim>\<open>match.c\<close>: the table of weak sums, the scan of a file for blocks of the basis
  file, and the calls of \<^verbatim>\<open>send_token\<close> by which literal data and block numbers go out. The file is
  seen through \<open>map_win\<close>, which stands for \<^verbatim>\<open>map_ptr\<close> on a file without read errors; the strong checksum is an argument.
\<close>

section \<open>Definitions\<close>

definition CHUNK_SIZE :: int where "CHUNK_SIZE = 32 * 1024"
definition TRADITIONAL_TABLESIZE :: uint32 where "TRADITIONAL_TABLESIZE = 2 ^ 16"
definition MAX_CHAIN_LEN :: int where "MAX_CHAIN_LEN = 1024"

text \<open>A call \<^verbatim>\<open>send_token(f, token, buf, offset, n, toklen)\<close>.\<close>

record send_call =
  sc_token :: int
  sc_offset :: int
  sc_n :: int
  sc_toklen :: int

text \<open>
  What the search reads: the signature options, the strong checksum, \<^verbatim>\<open>updating_basis_file\<close>, the
  file behind \<^verbatim>\<open>buf\<close> and its length.
\<close>

record menv =
  me_cf :: sum_conf
  me_csum2 :: "byte list \<Rightarrow> byte list"
  updating_basis_file :: bool
  me_file :: "byte list"
  me_len :: int

text \<open>
  The state of the search: the signature (whose chains and flags change), the static variables of
  \<^verbatim>\<open>match.c\<close>, the bytes given to \<^verbatim>\<open>sum_update\<close>, the calls sent, and the local variables of
  \<^verbatim>\<open>hash_search\<close>.
\<close>

record mstate =
  ms_s :: sum_struct
  tablesize :: uint32
  hash_table :: "uint32 \<Rightarrow> int"
  last_match :: int
  false_alarms :: int
  hash_hits :: int
  matches :: int
  data_transfer :: int
  matched_data :: int
  ms_fed :: "byte list"
  ms_calls :: "send_call list"
  hs_offset :: int
  aligned_offset :: int
  aligned_i :: int
  want_i :: int
  hs_k :: int
  hs_s1 :: uint32
  hs_s2 :: uint32
  hs_sum :: uint32
  hs_sum2 :: "byte list"

subsection \<open>The hash table\<close>

definition SUM2HASH2 :: "uint32 \<Rightarrow> uint32 \<Rightarrow> uint32" where
  "SUM2HASH2 s1 s2 = (s1 + s2) AND 0xFFFF"

definition SUM2HASH :: "uint32 \<Rightarrow> uint32" where
  "SUM2HASH sm = SUM2HASH2 (sm AND 0xFFFF) (drop_bit 16 sm)"

definition BIG_SUM2HASH :: "uint32 \<Rightarrow> uint32 \<Rightarrow> uint32" where
  "BIG_SUM2HASH tsize sm = sm mod tsize"

definition hash_of :: "uint32 \<Rightarrow> uint32 \<Rightarrow> uint32" where
  "hash_of tsize sm = (if tsize = TRADITIONAL_TABLESIZE then SUM2HASH sm else BIG_SUM2HASH tsize sm)"

definition pick_tablesize :: "int \<Rightarrow> uint32" where
  "pick_tablesize cnt =
     (let t = (word_of_int (cnt div 8) :: uint32) * 10 + 11
      in if t < TRADITIONAL_TABLESIZE then TRADITIONAL_TABLESIZE else t)"

definition set_chain :: "nat \<Rightarrow> int \<Rightarrow> sum_struct \<Rightarrow> sum_struct" where
  "set_chain i c s = s\<lparr>ss_sums := (ss_sums s)[i := (ss_sums s ! i)\<lparr>sb_chain := c\<rparr>]\<rparr>"

definition set_same_offset :: "nat \<Rightarrow> sum_struct \<Rightarrow> sum_struct" where
  "set_same_offset i s = s\<lparr>ss_sums := (ss_sums s)[i := (ss_sums s ! i)\<lparr>sb_flags := True\<rparr>]\<rparr>"

text \<open>The loop over the blocks, \<open>n\<close> of them still to enter; block \<open>i\<close> becomes the head of its chain.\<close>

primrec enter_blocks :: "nat \<Rightarrow> nat \<Rightarrow> mstate \<Rightarrow> mstate" where
  "enter_blocks 0 i st = st"
| "enter_blocks (Suc n) i st =
     (let t = hash_of (tablesize st) (sb_sum1 (ss_sums (ms_s st) ! i))
      in enter_blocks n (Suc i)
           (st\<lparr>ms_s := set_chain i (hash_table st t) (ms_s st), hash_table := (hash_table st)(t := int i)\<rparr>))"

definition build_hash_table :: "mstate \<Rightarrow> mstate" where
  "build_hash_table st =
     enter_blocks (nat (ss_count (ms_s st))) 0
       (st\<lparr>tablesize := pick_tablesize (ss_count (ms_s st)), hash_table := (\<lambda>_. -1)\<rparr>)"

subsection \<open>The file window\<close>

text \<open>
  \<^verbatim>\<open>map_ptr\<close> seen by its callers: no bytes for length 0, exit on a negative length, and on a negative
  offset, to which it cannot seek.
\<close>

definition map_win :: "menv \<Rightarrow> int \<Rightarrow> int \<Rightarrow> byte list run" where
  "map_win me offset len =
     (if len = 0 then Some (Inr [])
      else if len < 0 \<or> offset < 0 then Some (Inl RERR_FILEIO)
      else Some (Inr (map_view (me_file me) (nat offset) (nat len))))"

subsection \<open>Sending literals and matches\<close>

text \<open>The loop \<^verbatim>\<open>for (j = 0; j < n; j += CHUNK_SIZE)\<close> that feeds the file checksum.\<close>

function feed_sum :: "byte list \<Rightarrow> int \<Rightarrow> int \<Rightarrow> int \<Rightarrow> byte list" where
  "feed_sum F start j n =
     (if j < n then map_view F (nat (start + j)) (nat (min CHUNK_SIZE (n - j))) @ feed_sum F start (j + CHUNK_SIZE) n
      else [])"
  by pat_completeness auto
termination by (relation "measure (\<lambda>(F, start, j, n). nat (n - j))") (auto simp: CHUNK_SIZE_def)

declare feed_sum.simps [simp del]

definition matched :: "menv \<Rightarrow> mstate \<Rightarrow> int \<Rightarrow> int \<Rightarrow> mstate" where
  "matched me st offset i =
     (let n = to_int32 (offset - last_match st);
          toklen = (if i < 0 then 0 else sb_len (ss_sums (ms_s st) ! nat i));
          n' = (if i \<ge> 0 then n + toklen else n)
      in st\<lparr>ms_calls := ms_calls st @ [\<lparr>sc_token = i, sc_offset = last_match st, sc_n = n, sc_toklen = toklen\<rparr>],
            data_transfer := data_transfer st + n,
            matched_data := matched_data st + toklen,
            ms_fed := ms_fed st @ (if xfer_sum_len (me_cf me) \<noteq> 0 then feed_sum (me_file me) (last_match st) 0 n' else []),
            last_match := (if i \<ge> 0 then offset + toklen else offset)\<rparr>)"

subsection \<open>One offset of the search\<close>

text \<open>\<^verbatim>\<open>prev\<close> points at a table slot or at the chain field of a block.\<close>

datatype slot = Bucket uint32 | Chain nat

fun set_slot :: "slot \<Rightarrow> int \<Rightarrow> mstate \<Rightarrow> mstate" where
  "set_slot (Bucket h) c st = st\<lparr>hash_table := (hash_table st)(h := c)\<rparr>"
| "set_slot (Chain j) c st = st\<lparr>ms_s := set_chain j c (ms_s st)\<rparr>"

definition sum2_matches :: "menv \<Rightarrow> mstate \<Rightarrow> int \<Rightarrow> bool" where
  "sum2_matches me st i \<longleftrightarrow>
     take (nat (ss_s2length (ms_s st))) (hs_sum2 st)
       = take (nat (ss_s2length (ms_s st))) (sum2_at (me_cf me) (ms_s st) i)"

text \<open>\<^verbatim>\<open>while (aligned_offset < offset)\<close>; as many rounds as bytes to go are enough for a positive block length.\<close>

primrec align_loop :: "nat \<Rightarrow> int \<Rightarrow> int \<Rightarrow> int \<Rightarrow> int \<Rightarrow> (int \<times> int) option" where
  "align_loop 0 bl off ao ai = (if ao < off then None else Some (ao, ai))"
| "align_loop (Suc n) bl off ao ai = (if ao < off then align_loop n bl off (ao + bl) (ai + 1) else Some (ao, ai))"

text \<open>
  The block under \<^verbatim>\<open>if (updating_basis_file)\<close>, from a match of block \<open>i\<close> with window length \<open>l\<close> up to the
  label \<^verbatim>\<open>check_want_i\<close>: the state and the block number there.
\<close>

definition realign :: "menv \<Rightarrow> mstate \<Rightarrow> int \<Rightarrow> int \<Rightarrow> (mstate \<times> int) run" where
  "realign me st i l =
     (if \<not> updating_basis_file me then Some (Inr (st, i))
      else case align_loop (nat (hs_offset st - aligned_offset st)) (ss_blength (ms_s st)) (hs_offset st)
                  (aligned_offset st) (aligned_i st) of
        None \<Rightarrow> None
      | Some (ao, ai) \<Rightarrow>
          let st1 = st\<lparr>aligned_offset := ao, aligned_i := ai\<rparr>;
              ea = ss_sums (ms_s st) ! nat ai;
              mark = (\<lambda>st'. st'\<lparr>ms_s := set_same_offset (nat ai) (ms_s st'), want_i := ai\<rparr>)
          in if (hs_offset st = ao \<or> (hs_sum st = 0 \<and> l = ss_blength (ms_s st) \<and> ao + l \<le> me_len me))
                \<and> ai < ss_count (ms_s st) then
               if i \<noteq> ai \<and> (hs_sum st \<noteq> sb_sum1 ea \<or> l \<noteq> sb_len ea \<or> \<not> sum2_matches me st ai)
               then Some (Inr (st1, i))
               else if hs_offset st \<noteq> ao then
                 let backup = max 0 (to_int32 (ao - last_match st)) in
                 run_bind (map_win me (ao - backup) (l + backup)) (\<lambda>mp.
                   let w = drop (nat backup) mp;
                       st2 = st1\<lparr>hs_sum := get_checksum1 w (nat l)\<rparr>
                   in if hs_sum st2 \<noteq> sb_sum1 ea then Some (Inr (st2, ai))
                      else
                        let st3 = st2\<lparr>hs_sum2 := me_csum2 me (take (nat l) w)\<rparr>
                        in if \<not> sum2_matches me st3 ai then Some (Inr (st3, ai))
                           else Some (Inr (mark (st3\<lparr>hs_offset := ao\<rparr>), ai)))
               else Some (Inr (mark st1, ai))
             else Some (Inr (st1, i)))"

text \<open>From \<^verbatim>\<open>check_want_i\<close> to the \<^verbatim>\<open>break\<close>.\<close>

definition prefer_want :: "menv \<Rightarrow> mstate \<Rightarrow> int \<Rightarrow> int" where
  "prefer_want me st i =
     (let w = want_i st; ew = ss_sums (ms_s st) ! nat w in
      if i \<noteq> w \<and> w < ss_count (ms_s st)
         \<and> (\<not> updating_basis_file me \<or> sb_offset ew \<ge> hs_offset st \<or> sb_flags ew)
         \<and> hs_sum st = sb_sum1 ew \<and> sum2_matches me st w
      then w else i)"

definition load_window :: "menv \<Rightarrow> mstate \<Rightarrow> mstate run" where
  "load_window me st =
     (let k = min (ss_blength (ms_s st)) (me_len me - hs_offset st) in
      run_bind (map_win me (hs_offset st) k) (\<lambda>mp.
        let sm = get_checksum1 mp (nat k)
        in Some (Inr (st\<lparr>hs_k := k, hs_sum := sm, hs_s1 := sm AND 0xFFFF, hs_s2 := drop_bit 16 sm\<rparr>))))"

definition take_match :: "menv \<Rightarrow> mstate \<Rightarrow> int \<Rightarrow> mstate run" where
  "take_match me st i0 =
     (let i = prefer_want me st i0;
          st1 = matched me (st\<lparr>want_i := i + 1\<rparr>) (hs_offset st) i;
          st2 = st1\<lparr>hs_offset := hs_offset st1 + sb_len (ss_sums (ms_s st) ! nat i) - 1\<rparr>
      in run_bind (load_window me st2) (\<lambda>st3. Some (Inr (st3\<lparr>matches := matches st3 + 1\<rparr>))))"

text \<open>
  The inner \<^verbatim>\<open>do ... while ((i = s->sums[i].chain) >= 0)\<close> loop over one chain, up to the label
  \<^verbatim>\<open>null_hash\<close>. The first argument is fuel.
\<close>

primrec scan_chain :: "nat \<Rightarrow> menv \<Rightarrow> int \<Rightarrow> slot \<Rightarrow> int \<Rightarrow> bool \<Rightarrow> mstate \<Rightarrow> mstate run" where
  "scan_chain 0 me i prev chain_len done_csum2 st = None"
| "scan_chain (Suc fuel) me i prev chain_len done_csum2 st =
     (let s = ms_s st;
          e = ss_sums s ! nat i;
          l = min (ss_blength s) (me_len me - hs_offset st);
          continue = (\<lambda>prev' cl dn st'.
            let i' = sb_chain (ss_sums (ms_s st') ! nat i)
            in if i' \<ge> 0 then scan_chain fuel me i' prev' cl dn st' else Some (Inr st'))
      in if updating_basis_file me \<and> sb_offset e < hs_offset st \<and> \<not> sb_flags e
         then continue prev chain_len done_csum2 (set_slot prev (sb_chain e) st)
         else if hs_sum st \<noteq> sb_sum1 e then continue (Chain (nat i)) chain_len done_csum2 st
         else if chain_len + 1 > MAX_CHAIN_LEN then Some (Inr st)
         else if l \<noteq> sb_len e then continue (Chain (nat i)) (chain_len + 1) done_csum2 st
         else run_bind (if done_csum2 then Some (Inr st)
                        else run_bind (map_win me (hs_offset st) l)
                               (\<lambda>mp. Some (Inr (st\<lparr>hs_sum2 := me_csum2 me mp\<rparr>)))) (\<lambda>st1.
           if \<not> sum2_matches me st1 i
           then continue (Chain (nat i)) (chain_len + 1) True (st1\<lparr>false_alarms := false_alarms st1 + 1\<rparr>)
           else run_bind (realign me st1 i l) (\<lambda>(st2, i2). take_match me st2 i2)))"

text \<open>The code from \<^verbatim>\<open>null_hash\<close> to the end of the loop body.\<close>

definition null_hash :: "menv \<Rightarrow> int \<Rightarrow> mstate \<Rightarrow> mstate run" where
  "null_hash me endp st =
     (let backup = max 0 (to_int32 (hs_offset st - last_match st));
          more = hs_offset st + hs_k st < me_len me
      in run_bind (map_win me (hs_offset st - backup) (hs_k st + (if more then 1 else 0) + backup)) (\<lambda>mp.
           case drop (nat backup) mp of
             [] \<Rightarrow> Some (Inl RERR_CRASHED)
           | c # cs \<Rightarrow>
               let (s1', s2') = roll_checksum1 (hs_s1 st) (hs_s2 st) (nat (hs_k st)) c
                     (if more then Some ((c # cs) ! nat (hs_k st)) else None);
                   st1 = st\<lparr>hs_s1 := s1', hs_s2 := s2', hs_k := (if more then hs_k st else hs_k st - 1)\<rparr>
               in Some (Inr (if backup \<ge> ss_blength (ms_s st) + CHUNK_SIZE \<and> endp - hs_offset st > CHUNK_SIZE
                             then matched me st1 (hs_offset st - ss_blength (ms_s st)) (-2) else st1))))"

text \<open>The body of the outer loop, without its final \<^verbatim>\<open>++offset\<close>.\<close>

definition search_body :: "menv \<Rightarrow> int \<Rightarrow> mstate \<Rightarrow> mstate run" where
  "search_body me endp st =
     (let sm = (hs_s1 st AND 0xffff) OR push_bit 16 (hs_s2 st);
          trad = (tablesize st = TRADITIONAL_TABLESIZE);
          h = (if trad then SUM2HASH2 (hs_s1 st) (hs_s2 st) else BIG_SUM2HASH (tablesize st) sm);
          i = hash_table st h
      in if i < 0 then null_hash me endp (if trad then st else st\<lparr>hs_sum := sm\<rparr>)
         else run_bind (scan_chain (Suc (nat i)) me i (Bucket h) 0 False
                          (st\<lparr>hs_sum := sm, hash_hits := hash_hits st + 1\<rparr>))
                (null_hash me endp))"

primrec search_loop :: "nat \<Rightarrow> menv \<Rightarrow> int \<Rightarrow> mstate \<Rightarrow> mstate run" where
  "search_loop 0 me endp st = None"
| "search_loop (Suc fuel) me endp st =
     run_bind (search_body me endp st) (\<lambda>st1.
       let st2 = st1\<lparr>hs_offset := hs_offset st1 + 1\<rparr>
       in if hs_offset st2 < endp then search_loop fuel me endp st2 else Some (Inr st2))"

definition hash_search :: "nat \<Rightarrow> menv \<Rightarrow> mstate \<Rightarrow> mstate run" where
  "hash_search fuel me st =
     (let endp = me_len me + 1 - sb_len (ss_sums (ms_s st) ! nat (ss_count (ms_s st) - 1)) in
      run_bind (load_window me (st\<lparr>want_i := 0, hs_offset := 0, aligned_offset := 0, aligned_i := 0,
                                   hs_sum2 := replicate MAX_DIGEST_LEN 0\<rparr>)) (\<lambda>st1.
        run_bind (search_loop fuel me endp st1) (\<lambda>st2.
          Some (Inr (matched me st2 (me_len me) (-1))))))"

subsection \<open>A whole file\<close>

text \<open>The static variables as \<^verbatim>\<open>match_sums\<close> resets them.\<close>

definition match_init :: "sum_struct \<Rightarrow> mstate" where
  "match_init s = \<lparr>ms_s = s, tablesize = 0, hash_table = (\<lambda>_. -1), last_match = 0, false_alarms = 0, hash_hits = 0,
     matches = 0, data_transfer = 0, matched_data = 0, ms_fed = [], ms_calls = [], hs_offset = 0, aligned_offset = 0,
     aligned_i = 0, want_i = 0, hs_k = 0, hs_s1 = 0, hs_s2 = 0, hs_sum = 0, hs_sum2 = []\<rparr>"

text \<open>With \<^verbatim>\<open>--append-verify\<close> the data that the receiver already has is fed to the file checksum in chunks.\<close>

function append_feed :: "byte list \<Rightarrow> int \<Rightarrow> int \<Rightarrow> int \<Rightarrow> byte list" where
  "append_feed F flen lm j =
     (if j < flen then map_view F (nat lm) (nat CHUNK_SIZE) @ append_feed F flen j (j + CHUNK_SIZE)
      else if lm < flen then map_view F (nat lm) (nat (flen - lm))
      else [])"
  by pat_completeness auto
termination by (relation "measure (\<lambda>(F, flen, lm, j). nat (flen - j))") (auto simp: CHUNK_SIZE_def)

declare append_feed.simps [simp del]

definition skip_appended :: "menv \<Rightarrow> mstate \<Rightarrow> mstate" where
  "skip_appended me st =
     (if append_mode (me_cf me) > 0 then
        st\<lparr>ms_fed := (if append_mode (me_cf me) = 2
                      then ms_fed st @ append_feed (me_file me) (ss_flength (ms_s st)) 0 CHUNK_SIZE else ms_fed st),
           last_match := ss_flength (ms_s st), ms_s := (ms_s st)\<lparr>ss_count := 0\<rparr>\<rparr>
      else st)"

text \<open>Without a signature: literal data in pieces of \<^verbatim>\<open>rdma_literal_chunk_size()\<close> bytes.\<close>

primrec literal_loop :: "nat \<Rightarrow> menv \<Rightarrow> int \<Rightarrow> int \<Rightarrow> mstate \<Rightarrow> mstate run" where
  "literal_loop 0 me step j st = None"
| "literal_loop (Suc fuel) me step j st =
     (if j < me_len me then literal_loop fuel me step (j + step) (matched me st j (-2)) else Some (Inr st))"

definition match_sums :: "nat \<Rightarrow> menv \<Rightarrow> int \<Rightarrow> sum_struct \<Rightarrow> mstate run" where
  "match_sums fuel me literal_step s =
     (let st = skip_appended me (match_init s) in
      if me_len me > 0 \<and> ss_count (ms_s st) > 0 then hash_search fuel me (build_hash_table st)
      else run_bind (literal_loop fuel me literal_step (last_match st + literal_step) st)
             (\<lambda>st'. Some (Inr (matched me st' (me_len me) (-1)))))"

text \<open>
  The checksum of the whole file that follows the data; after a read error it is replaced by one
  that is certain to be wrong.
\<close>

definition sender_file_sum :: "nat \<Rightarrow> bool \<Rightarrow> byte list \<Rightarrow> byte list" where
  "sender_file_sum xfer_len read_error digest =
     (if read_error then
        (if list_all (\<lambda>b. b = 0) (take xfer_len digest)
         then (replicate xfer_len 0)[xfer_len - 1 := (1 :: byte)]
         else replicate xfer_len 0)
      else take xfer_len digest)"

section \<open>What the receiver makes of the calls\<close>

text \<open>
  \<open>recon\<close>: the receiver copies each call's literal bytes and then the named block of its basis
  file. \<open>inplace_call\<close>: the receiver whose output file is the basis file itself, holding what has
  been written so far over what was there before; blocks are read from that file.
\<close>

definition recon_call :: "sum_struct \<Rightarrow> byte list \<Rightarrow> byte list \<Rightarrow> send_call \<Rightarrow> byte list" where
  "recon_call s F B c = seg F (nat (sc_offset c)) (nat (sc_n c))
     @ (if sc_token c \<ge> 0 then block s B (nat (sc_token c)) else [])"

definition recon :: "sum_struct \<Rightarrow> byte list \<Rightarrow> byte list \<Rightarrow> send_call list \<Rightarrow> byte list" where
  "recon s F B cs = concat (map (recon_call s F B) cs)"

definition inplace_call :: "sum_struct \<Rightarrow> byte list \<Rightarrow> nat \<times> byte list \<Rightarrow> send_call \<Rightarrow> nat \<times> byte list" where
  "inplace_call s F = (\<lambda>(pos, buf) c.
     let lit = seg F (nat (sc_offset c)) (nat (sc_n c));
         pos1 = pos + length lit;
         buf1 = blit buf pos lit;
         dat = (if sc_token c \<ge> 0 then seg buf1 (nat (sc_token c) * nat (ss_blength s)) (nat (sc_toklen c)) else [])
     in (pos1 + length dat, blit buf1 pos1 dat))"

definition inplace :: "sum_struct \<Rightarrow> byte list \<Rightarrow> byte list \<Rightarrow> send_call list \<Rightarrow> nat \<times> byte list" where
  "inplace s F B cs = foldl (inplace_call s F) (0, B) cs"

lemma recon_snoc: "recon s F B (cs @ [c]) = recon s F B cs @ recon_call s F B c"
  by (simp add: recon_def)

lemma inplace_snoc: "inplace s F B (cs @ [c]) = inplace_call s F (inplace s F B cs) c"
  by (simp add: inplace_def)

lemma block_cong: "ss_blength s = ss_blength s' \<Longrightarrow> block s = block s'"
  by (simp add: block_def fun_eq_iff)

lemma recon_cong:
  assumes "ss_blength s = ss_blength s'"
  shows "recon s = recon s'"
proof -
  have "recon_call s = recon_call s'"
    by (intro ext) (simp add: recon_call_def block_cong [OF assms])
  then show ?thesis by (intro ext) (simp only: recon_def)
qed

lemma inplace_cong:
  assumes "ss_blength s = ss_blength s'"
  shows "inplace s = inplace s'"
proof -
  have "inplace_call s = inplace_call s'"
    unfolding inplace_call_def assms ..
  then show ?thesis by (intro ext) (simp only: inplace_def)
qed

lemma blit_mixed:
  assumes "p \<le> length F"
  shows "blit (take p F @ drop p B) p xs = take p F @ xs @ drop (p + length xs) B"
  using assms by (simp add: blit_def add.commute)

section \<open>Invariants of the search\<close>

definition wf_sums :: "menv \<Rightarrow> sum_struct \<Rightarrow> byte list \<Rightarrow> bool" where
  "wf_sums me s B \<longleftrightarrow> tiles s (length B) \<and> 0 < ss_count s \<and> ss_blength s \<le> OLD_MAX_BLOCK_SIZE
     \<and> length (ss_sums s) = nat (ss_count s) \<and> (\<forall>i<length (ss_sums s). entry_ok (me_cf me) (me_csum2 me) s B i)"

definition chains_ok :: "sum_struct \<Rightarrow> (uint32 \<Rightarrow> int) \<Rightarrow> bool" where
  "chains_ok s tab \<longleftrightarrow> (\<forall>j<length (ss_sums s). -1 \<le> sb_chain (ss_sums s ! j) \<and> sb_chain (ss_sums s ! j) < int j)
     \<and> (\<forall>h. -1 \<le> tab h \<and> tab h < ss_count s)"

text \<open>A block marked \<^verbatim>\<open>SUMFLG_SAME_OFFSET\<close> lies in the part already written, unchanged.\<close>

definition flags_ok :: "menv \<Rightarrow> byte list \<Rightarrow> sum_struct \<Rightarrow> int \<Rightarrow> bool" where
  "flags_ok me B s lm \<longleftrightarrow> (\<forall>i<length (ss_sums s). sb_flags (ss_sums s ! i) \<longrightarrow>
     seg (me_file me) (i * nat (ss_blength s)) (length (block s B i)) = block s B i
     \<and> int (i * nat (ss_blength s) + length (block s B i)) \<le> lm)"

text \<open>What has been sent so far is exactly the file up to \<^verbatim>\<open>last_match\<close>.\<close>

definition sent_ok :: "menv \<Rightarrow> byte list \<Rightarrow> mstate \<Rightarrow> bool" where
  "sent_ok me B st \<longleftrightarrow> (let F = me_file me; p = nat (last_match st) in
     0 \<le> last_match st \<and> last_match st \<le> me_len me
     \<and> recon (ms_s st) F B (ms_calls st) = take p F
     \<and> (xfer_sum_len (me_cf me) \<noteq> 0 \<longrightarrow> ms_fed st = take p F)
     \<and> (updating_basis_file me \<longrightarrow> inplace (ms_s st) F B (ms_calls st) = (p, take p F @ drop p B)))"

text \<open>
  The calls themselves: each names a part of the file, and a block of the signature or no block (-2);
  the last call of a file, and only that one, has token -1.
\<close>

definition call_range :: "byte list \<Rightarrow> send_call \<Rightarrow> bool" where
  "call_range F c \<longleftrightarrow> 0 \<le> sc_n c \<and> sc_n c < 2 ^ 31 \<and> 0 \<le> sc_offset c \<and> sc_offset c + sc_n c \<le> int (length F)"

definition open_call :: "byte list \<Rightarrow> int \<Rightarrow> send_call \<Rightarrow> bool" where
  "open_call F cnt c \<longleftrightarrow> call_range F c \<and> (sc_token c = -2 \<or> 0 \<le> sc_token c \<and> sc_token c < cnt)"

definition calls_ok :: "byte list \<Rightarrow> int \<Rightarrow> send_call list \<Rightarrow> bool" where
  "calls_ok F cnt cs \<longleftrightarrow> cs \<noteq> [] \<and> call_range F (last cs) \<and> sc_token (last cs) = -1 \<and> list_all (open_call F cnt) (butlast cs)"

definition base_ok :: "menv \<Rightarrow> byte list \<Rightarrow> mstate \<Rightarrow> bool" where
  "base_ok me B st \<longleftrightarrow> me_len me = int (length (me_file me)) \<and> wf_sums me (ms_s st) B
     \<and> chains_ok (ms_s st) (hash_table st) \<and> flags_ok me B (ms_s st) (last_match st) \<and> sent_ok me B st
     \<and> list_all (open_call (me_file me) (ss_count (ms_s st))) (ms_calls st)"

lemma feed_sum_view:
  assumes "0 \<le> start" "0 \<le> j" "j \<le> n" "start + n \<le> int (length F)"
  shows "feed_sum F start j n = seg F (nat (start + j)) (nat (n - j))"
  using assms
proof (induction F start j n rule: feed_sum.induct)
  case (1 F start j n)
  show ?case
  proof (cases "j < n")
    case False
    then show ?thesis using "1.prems" by (simp add: feed_sum.simps)
  next
    case True
    define m where "m = min CHUNK_SIZE (n - j)"
    have m: "0 < m" "m \<le> n - j" using True by (auto simp: m_def CHUNK_SIZE_def)
    have v: "map_view F (nat (start + j)) (nat m) = seg F (nat (start + j)) (nat m)"
      using m "1.prems" by (intro map_view_seg) linarith
    have r: "feed_sum F start (j + CHUNK_SIZE) n = seg F (nat (start + j) + nat m) (nat (n - j) - nat m)"
    proof (cases "j + CHUNK_SIZE < n")
      case True
      then have "m = CHUNK_SIZE" by (auto simp: m_def)
      then show ?thesis using "1.IH" [OF \<open>j < n\<close>] "1.prems" True
        by (simp add: CHUNK_SIZE_def nat_add_distrib nat_diff_distrib algebra_simps)
    next
      case False
      then have "m = n - j" by (auto simp: m_def)
      then show ?thesis using False by (simp add: feed_sum.simps)
    qed
    have "nat m + (nat (n - j) - nat m) = nat (n - j)" using m by linarith
    then show ?thesis
      by (subst feed_sum.simps) (use True v r in \<open>simp add: m_def [symmetric] seg_append\<close>)
  qed
qed

section \<open>Sending keeps the invariants\<close>

lemma inplace_lit:
  assumes "inplace s F B cs = (p, take p F @ drop p B)" "p \<le> length F" "p + n \<le> length F"
    and "sc_offset c = int p" "sc_n c = int n" "sc_token c < 0"
  shows "inplace s F B (cs @ [c]) = (p + n, take (p + n) F @ drop (p + n) B)"
  using assms by (simp add: inplace_snoc inplace_call_def blit_mixed)
    (simp add: blit_def take_seg_append Let_def flip: append_assoc)

lemma inplace_match:
  assumes ip: "inplace s F B cs = (p, take p F @ drop p B)"
    and le: "p + n + m \<le> length F"
    and c: "sc_offset c = int p" "sc_n c = int n" "sc_token c = int i" "sc_toklen c = int m"
    and blk: "m = length (block s B i)" "seg F (p + n) m = block s B i"
    and safe: "p + n \<le> i * nat (ss_blength s)
      \<or> (seg F (i * nat (ss_blength s)) m = block s B i \<and> i * nat (ss_blength s) + m \<le> p + n)"
  shows "inplace s F B (cs @ [c]) = (p + n + m, take (p + n + m) F @ drop (p + n + m) B)"
proof -
  let ?o = "i * nat (ss_blength s)"
  have b1: "blit (take p F @ drop p B) p (seg F p n) = take (p + n) F @ drop (p + n) B"
    using le by (simp add: blit_mixed take_seg_append flip: append_assoc)
  have d: "seg (take (p + n) F @ drop (p + n) B) ?o m = block s B i"
  proof (cases "p + n \<le> ?o")
    case True
    then have "seg (take (p + n) F @ drop (p + n) B) ?o m = seg B ?o m"
      using le by (simp add: seg_def)
    also have "\<dots> = block s B i"
      unfolding blk(1) block_def seg_def length_take by (simp add: min_def)
    finally show ?thesis .
  next
    case False
    then have s: "seg F ?o m = block s B i" "?o + m \<le> p + n" using safe by auto
    have "seg (take (p + n) F @ drop (p + n) B) ?o m = seg (take (p + n) F) ?o m"
      using s(2) le by (simp add: seg_def)
    then show ?thesis using s by (simp add: seg_take)
  qed
  have "blit (take (p + n) F @ drop (p + n) B) (p + n) (seg F (p + n) m) = take (p + n + m) F @ drop (p + n + m) B"
    using le by (simp add: blit_mixed take_seg_append flip: append_assoc)
  then show ?thesis
    using ip le c blk b1 d by (simp add: inplace_snoc inplace_call_def Let_def)
qed

lemma matched_simps:
  assumes "last_match st \<le> offset" "offset - last_match st < 2 ^ 31"
  shows "ms_calls (matched me st offset i) = ms_calls st
      @ [\<lparr>sc_token = i, sc_offset = last_match st, sc_n = offset - last_match st,
          sc_toklen = (if i < 0 then 0 else sb_len (ss_sums (ms_s st) ! nat i))\<rparr>]"
    "last_match (matched me st offset i) = offset + (if i < 0 then 0 else sb_len (ss_sums (ms_s st) ! nat i))"
    "xfer_sum_len (me_cf me) \<noteq> 0 \<Longrightarrow> ms_fed (matched me st offset i) = ms_fed st @ feed_sum (me_file me) (last_match st) 0
      (offset - last_match st + (if i < 0 then 0 else sb_len (ss_sums (ms_s st) ! nat i)))"
proof -
  have "to_int32 (offset - last_match st) = offset - last_match st"
    using assms by (intro to_int32_id) (simp add: in_int32_def)
  then show "ms_calls (matched me st offset i) = ms_calls st
      @ [\<lparr>sc_token = i, sc_offset = last_match st, sc_n = offset - last_match st,
          sc_toklen = (if i < 0 then 0 else sb_len (ss_sums (ms_s st) ! nat i))\<rparr>]"
    "last_match (matched me st offset i) = offset + (if i < 0 then 0 else sb_len (ss_sums (ms_s st) ! nat i))"
    "xfer_sum_len (me_cf me) \<noteq> 0 \<Longrightarrow> ms_fed (matched me st offset i) = ms_fed st @ feed_sum (me_file me) (last_match st) 0
      (offset - last_match st + (if i < 0 then 0 else sb_len (ss_sums (ms_s st) ! nat i)))"
    by (simp_all add: matched_def Let_def)
qed

lemma matched_frame [simp]:
  "ms_s (matched me st offset i) = ms_s st" "hash_table (matched me st offset i) = hash_table st"
  "tablesize (matched me st offset i) = tablesize st" "hs_offset (matched me st offset i) = hs_offset st"
  "hs_k (matched me st offset i) = hs_k st" "hs_s1 (matched me st offset i) = hs_s1 st"
  "hs_s2 (matched me st offset i) = hs_s2 st" "want_i (matched me st offset i) = want_i st"
  "aligned_offset (matched me st offset i) = aligned_offset st" "aligned_i (matched me st offset i) = aligned_i st"
  by (simp_all add: matched_def Let_def)

lemma sent_ok_advance:
  assumes sent: "sent_ok me B st" and s: "ss_blength (ms_s st') = ss_blength (ms_s st)"
    and len: "me_len me = int (length (me_file me))"
    and p: "last_match st = int p" "last_match st' = int q" "p \<le> q" "q \<le> length (me_file me)"
    and c: "ms_calls st' = ms_calls st @ [c]" "recon_call (ms_s st) (me_file me) B c = seg (me_file me) p (q - p)"
    and fed: "xfer_sum_len (me_cf me) \<noteq> 0 \<Longrightarrow> ms_fed st' = ms_fed st @ seg (me_file me) p (q - p)"
    and ip: "\<lbrakk>updating_basis_file me; inplace (ms_s st) (me_file me) B (ms_calls st) = (p, take p (me_file me) @ drop p B)\<rbrakk>
      \<Longrightarrow> inplace (ms_s st) (me_file me) B (ms_calls st @ [c]) = (q, take q (me_file me) @ drop q B)"
  shows "sent_ok me B st'"
proof -
  have "take p (me_file me) @ seg (me_file me) p (q - p) = take q (me_file me)"
    using p(3) by (simp add: take_seg_append)
  then show ?thesis
    using sent len p(4) fed ip unfolding sent_ok_def Let_def c(1) p(1,2) recon_cong [OF s] inplace_cong [OF s]
    by (simp add: recon_snoc c(2))
qed

lemma sent_ok_literal:
  assumes sent: "sent_ok me B st" and len: "me_len me = int (length (me_file me))"
    and o: "last_match st \<le> offset" "offset - last_match st < 2 ^ 31" "offset \<le> me_len me" and i: "i < 0"
  shows "sent_ok me B (matched me st offset i)"
proof -
  note ms = matched_simps [OF o(1,2)]
  let ?F = "me_file me"
  define p where "p = nat (last_match st)"
  define n where "n = nat (offset - last_match st)"
  have p: "last_match st = int p" using sent by (simp add: sent_ok_def Let_def p_def)
  have n: "offset = int (p + n)" "offset - int p = int n" using o(1) p by (simp_all add: n_def)
  have le: "p + n \<le> length ?F" using o(3) len n(1) by simp
  have fs: "feed_sum ?F (int p) 0 (int n) = seg ?F p n"
    using feed_sum_view [of "int p" 0 "int n" ?F] le by simp
  show ?thesis
  proof (rule sent_ok_advance [OF sent _ len p, where q = "p + n"])
    show "ms_calls (matched me st offset i) = ms_calls st
        @ [\<lparr>sc_token = i, sc_offset = int p, sc_n = int n, sc_toklen = 0\<rparr>]"
      using ms(1) [of me i] i by (simp add: p n(2))
    show "xfer_sum_len (me_cf me) \<noteq> 0 \<Longrightarrow> ms_fed (matched me st offset i) = ms_fed st @ seg ?F p (p + n - p)"
      using ms(3) [of me i] i fs by (simp add: p n(2))
  qed (use i le ms(2) [of me i] n(1) in \<open>simp_all add: recon_call_def inplace_lit\<close>)
qed

lemma matched_call_range:
  assumes "base_ok me B st" "last_match st \<le> offset" "offset - last_match st < 2 ^ 31" "offset \<le> me_len me"
  shows "call_range (me_file me) \<lparr>sc_token = i, sc_offset = last_match st, sc_n = offset - last_match st, sc_toklen = l\<rparr>"
  using assms by (simp add: call_range_def base_ok_def sent_ok_def Let_def)

lemma matched_literal_ok:
  assumes b: "base_ok me B st" and o: "last_match st \<le> offset" "offset - last_match st < 2 ^ 31" "offset \<le> me_len me"
  shows "base_ok me B (matched me st offset (-2))"
proof -
  let ?i = "-2 :: int"
  have "sent_ok me B (matched me st offset ?i)"
    using b o by (intro sent_ok_literal) (simp_all add: base_ok_def)
  moreover have "flags_ok me B (ms_s st) offset"
    using b o(1) unfolding base_ok_def flags_ok_def by fastforce
  moreover have "list_all (open_call (me_file me) (ss_count (ms_s st))) (ms_calls (matched me st offset ?i))"
    using b matched_call_range [OF b o] matched_simps(1) [OF o(1,2), of me ?i] by (simp add: base_ok_def open_call_def)
  ultimately show ?thesis using b matched_simps(2) [OF o(1,2), of me ?i] by (simp add: base_ok_def)
qed

lemma wf_sums_entry:
  assumes "wf_sums me s B" "i < nat (ss_count s)"
  shows "sb_offset (ss_sums s ! i) = int (i * nat (ss_blength s))"
    "sb_len (ss_sums s ! i) = int (length (block s B i))"
    "sb_sum1 (ss_sums s ! i) = ck_sum (block s B i)"
    "take (nat (ss_s2length s)) (sum2_at (me_cf me) s (int i)) = take (nat (ss_s2length s)) (me_csum2 me (block s B i))"
  using assms by (auto simp: wf_sums_def entry_ok_def tiles_def)

lemma matched_block_ok:
  assumes b: "base_ok me B st" and o: "last_match st \<le> offset" "offset - last_match st < 2 ^ 31"
    and i: "i < nat (ss_count (ms_s st))"
    and w: "seg (me_file me) (nat offset) (length (block (ms_s st) B i)) = block (ms_s st) B i"
    and o': "offset + int (length (block (ms_s st) B i)) \<le> me_len me"
    and safe: "updating_basis_file me \<Longrightarrow> sb_offset (ss_sums (ms_s st) ! i) \<ge> offset \<or> sb_flags (ss_sums (ms_s st) ! i)"
  shows "base_ok me B (matched me st offset (int i))"
proof -
  note ms = matched_simps [OF o(1,2)]
  let ?F = "me_file me" and ?s = "ms_s st"
  define p where "p = nat (last_match st)"
  define n where "n = nat (offset - last_match st)"
  define m where "m = length (block ?s B i)"
  have sent: "sent_ok me B st" and len: "me_len me = int (length ?F)" and wf: "wf_sums me ?s B"
    and fl: "flags_ok me B ?s (last_match st)" using b by (simp_all add: base_ok_def)
  have p: "last_match st = int p" using sent by (simp add: sent_ok_def Let_def p_def)
  have n: "offset = int (p + n)" "offset - int p = int n" using o(1) p by (simp_all add: n_def)
  have le: "p + n + m \<le> length ?F" using o' len n(1) by (simp add: m_def)
  have el: "sb_len (ss_sums ?s ! i) = int m" using wf_sums_entry [OF wf i] by (simp add: m_def)
  have w': "seg ?F (p + n) m = block ?s B i" using w n(1) by (simp add: m_def del: of_nat_add)
  have fs: "feed_sum ?F (int p) 0 (int n + int m) = seg ?F p (n + m)"
    using feed_sum_view [of "int p" 0 "int n + int m" ?F] le by (simp add: nat_add_distrib)
  have "sent_ok me B (matched me st offset (int i))"
  proof (rule sent_ok_advance [OF sent _ len p, where q = "p + n + m"])
    show "ms_calls (matched me st offset (int i)) = ms_calls st
        @ [\<lparr>sc_token = int i, sc_offset = int p, sc_n = int n, sc_toklen = int m\<rparr>]"
      using ms(1) [of me "int i"] by (simp add: p n(2) el)
    show "recon_call ?s ?F B \<lparr>sc_token = int i, sc_offset = int p, sc_n = int n, sc_toklen = int m\<rparr>
        = seg ?F p (p + n + m - p)"
      by (simp add: recon_call_def seg_append add.assoc flip: w')
    show "xfer_sum_len (me_cf me) \<noteq> 0 \<Longrightarrow> ms_fed (matched me st offset (int i)) = ms_fed st @ seg ?F p (p + n + m - p)"
      using ms(3) [of me "int i"] fs by (simp add: p n(2) el)
    show "inplace ?s ?F B (ms_calls st @ [\<lparr>sc_token = int i, sc_offset = int p, sc_n = int n, sc_toklen = int m\<rparr>])
        = (p + n + m, take (p + n + m) ?F @ drop (p + n + m) B)"
      if "updating_basis_file me" "inplace ?s ?F B (ms_calls st) = (p, take p ?F @ drop p B)"
    proof (rule inplace_match [OF that(2) le _ _ _ _ _ w'])
      show "p + n \<le> i * nat (ss_blength ?s)
          \<or> seg ?F (i * nat (ss_blength ?s)) m = block ?s B i \<and> i * nat (ss_blength ?s) + m \<le> p + n"
      proof (cases "sb_flags (ss_sums ?s ! i)")
        case True
        then have f: "seg ?F (i * nat (ss_blength ?s)) m = block ?s B i" "int (i * nat (ss_blength ?s) + m) \<le> int p"
          using fl i wf unfolding flags_ok_def wf_sums_def m_def p by (simp_all del: of_nat_add of_nat_mult)
        then show ?thesis unfolding of_nat_le_iff by simp
      next
        case False
        then show ?thesis using safe [OF that(1)] wf_sums_entry(1) [OF wf i] n(1) by (simp del: of_nat_add of_nat_mult)
      qed
    qed (simp_all add: m_def)
  qed (use ms(2) [of me "int i"] le n(1) el in simp_all)
  moreover have "flags_ok me B ?s (offset + int m)"
    using fl o(1) unfolding flags_ok_def by fastforce
  moreover have "list_all (open_call ?F (ss_count ?s)) (ms_calls (matched me st offset (int i)))"
  proof -
    have "offset \<le> me_len me" using o' by linarith
    then show ?thesis using b i matched_call_range [OF b o] ms(1) [of me "int i"] by (simp add: base_ok_def open_call_def)
  qed
  ultimately show ?thesis using b ms(2) [of me "int i"] el by (simp add: base_ok_def)
qed

section \<open>What does not change\<close>

text \<open>
  The search only changes the chains and the flags of the signature. Everything that the
  correctness argument reads of it is the same after such a change.
\<close>

definition same_sums :: "sum_struct \<Rightarrow> sum_struct \<Rightarrow> bool" where
  "same_sums s s' \<longleftrightarrow> ss_count s' = ss_count s \<and> ss_blength s' = ss_blength s \<and> ss_remainder s' = ss_remainder s
     \<and> ss_s2length s' = ss_s2length s \<and> ss_sum2_array s' = ss_sum2_array s \<and> length (ss_sums s') = length (ss_sums s)
     \<and> (\<forall>i<length (ss_sums s). sb_offset (ss_sums s' ! i) = sb_offset (ss_sums s ! i)
          \<and> sb_len (ss_sums s' ! i) = sb_len (ss_sums s ! i) \<and> sb_sum1 (ss_sums s' ! i) = sb_sum1 (ss_sums s ! i))"

lemma same_sums_set_chain: "same_sums s (set_chain i c s)"
  by (cases "i < length (ss_sums s)") (auto simp: same_sums_def set_chain_def nth_list_update)

lemma same_sums_set_same_offset: "same_sums s (set_same_offset i s)"
  by (cases "i < length (ss_sums s)") (auto simp: same_sums_def set_same_offset_def nth_list_update)

lemma same_sums_block: "same_sums s s' \<Longrightarrow> block s' = block s"
  by (rule block_cong) (simp add: same_sums_def)

lemma same_sums_wf: "same_sums s s' \<Longrightarrow> wf_sums me s B \<Longrightarrow> wf_sums me s' B"
  using same_sums_block [of s s']
  by (auto simp: same_sums_def wf_sums_def tiles_def entry_ok_def sum2_at_def)

lemma chains_ok_set_chain:
  assumes "chains_ok s tab" "-1 \<le> c" "c < int i"
  shows "chains_ok (set_chain i c s) tab"
proof -
  have "-1 \<le> sb_chain (ss_sums (set_chain i c s) ! j) \<and> sb_chain (ss_sums (set_chain i c s) ! j) < int j"
    if "j < length (ss_sums s)" for j
    using assms that by (cases "i = j") (auto simp: chains_ok_def set_chain_def)
  then show ?thesis using assms(1) same_sums_set_chain [of s i c] by (auto simp: chains_ok_def same_sums_def)
qed

lemma chains_ok_set_same_offset: "chains_ok s tab \<Longrightarrow> chains_ok (set_same_offset i s) tab"
  using same_sums_set_same_offset [of s i]
  by (cases "i < length (ss_sums s)") (auto simp: chains_ok_def set_same_offset_def nth_list_update)

lemma flags_set_chain: "sb_flags (ss_sums (set_chain i c s) ! j) = sb_flags (ss_sums s ! j)"
  by (cases "i < length (ss_sums s)"; cases "i = j") (auto simp: set_chain_def list_update_beyond)

lemma flags_ok_set_chain: "flags_ok me B s lm \<Longrightarrow> flags_ok me B (set_chain i c s) lm"
  using same_sums_block [OF same_sums_set_chain [of s i c]] same_sums_set_chain [of s i c]
  by (simp add: flags_ok_def flags_set_chain same_sums_def)

lemma flags_ok_set_same_offset:
  assumes "flags_ok me B s lm"
    and "seg (me_file me) (i * nat (ss_blength s)) (length (block s B i)) = block s B i"
    and "int (i * nat (ss_blength s) + length (block s B i)) \<le> lm"
  shows "flags_ok me B (set_same_offset i s) lm"
proof -
  have f: "sb_flags (ss_sums (set_same_offset i s) ! j) \<Longrightarrow> j = i \<or> sb_flags (ss_sums s ! j)" for j
    by (cases "i < length (ss_sums s)"; cases "i = j") (auto simp: set_same_offset_def)
  have g: "ss_blength (set_same_offset i s) = ss_blength s" "length (ss_sums (set_same_offset i s)) = length (ss_sums s)"
    using same_sums_set_same_offset [of s i] by (simp_all add: same_sums_def)
  show ?thesis
    unfolding flags_ok_def same_sums_block [OF same_sums_set_same_offset] g
    using assms f unfolding flags_ok_def by metis
qed

text \<open>
  The hypotheses on the data. No window of the file has the strong sum, as truncated, and the weak
  sum of a block without being that block; when updating in place, the strong sum alone decides,
  and a weak sum of 0 on a full window stands for one content, as the code takes it to stand for zeros.
\<close>

definition no_collision :: "menv \<Rightarrow> sum_struct \<Rightarrow> byte list \<Rightarrow> bool" where
  "no_collision me s B \<longleftrightarrow> (\<forall>p<length (me_file me). \<forall>i<nat (ss_count s).
     (let w = seg (me_file me) p (nat (ss_blength s)) in
      take (nat (ss_s2length s)) (me_csum2 me w) = take (nat (ss_s2length s)) (me_csum2 me (block s B i))
      \<and> (updating_basis_file me \<or> ck_sum w = ck_sum (block s B i)) \<longrightarrow> w = block s B i))"

definition zero_windows :: "menv \<Rightarrow> sum_struct \<Rightarrow> bool" where
  "zero_windows me s \<longleftrightarrow> (let F = me_file me; b = nat (ss_blength s) in
     updating_basis_file me \<longrightarrow> (\<forall>p<length F. \<forall>q<length F. p + b \<le> length F \<and> q + b \<le> length F
       \<and> ck_sum (seg F p b) = 0 \<and> ck_sum (seg F q b) = 0 \<longrightarrow> seg F p b = seg F q b))"

definition run_ok :: "menv \<Rightarrow> byte list \<Rightarrow> mstate \<Rightarrow> bool" where
  "run_ok me B st \<longleftrightarrow> base_ok me B st \<and> no_collision me (ms_s st) B \<and> zero_windows me (ms_s st)"

lemma run_ok_matched_literal:
  assumes "run_ok me B st" "last_match st \<le> offset" "offset - last_match st < 2 ^ 31" "offset \<le> me_len me"
  shows "run_ok me B (matched me st offset (-2))"
  using assms matched_literal_ok [of me B st offset] by (simp add: run_ok_def)

lemma run_ok_cong:
  assumes "run_ok me B st" "same_sums (ms_s st) (ms_s st')" "chains_ok (ms_s st') (hash_table st')"
    "flags_ok me B (ms_s st') (last_match st')"
    "last_match st' = last_match st" "ms_calls st' = ms_calls st" "ms_fed st' = ms_fed st"
  shows "run_ok me B st'"
proof -
  have b: "ss_blength (ms_s st') = ss_blength (ms_s st)" using assms(2) by (simp add: same_sums_def)
  have "sent_ok me B st'"
    using assms by (simp add: run_ok_def base_ok_def sent_ok_def Let_def recon_cong [OF b] inplace_cong [OF b])
  then show ?thesis
    using assms same_sums_wf [OF assms(2)] same_sums_block [OF assms(2)]
    by (simp add: run_ok_def base_ok_def no_collision_def zero_windows_def same_sums_def)
qed

lemma run_ok_set_slot:
  assumes "run_ok me B st" "-1 \<le> c" "c < ss_count (ms_s st)" "\<And>j. prev = Chain j \<Longrightarrow> c < int j"
  shows "run_ok me B (set_slot prev c st)"
proof (cases prev)
  case (Bucket h)
  then show ?thesis using assms
    by (intro run_ok_cong [OF assms(1)]) (auto simp: same_sums_def run_ok_def base_ok_def chains_ok_def)
next
  case (Chain j)
  have "chains_ok (ms_s st) (hash_table st)" "flags_ok me B (ms_s st) (last_match st)"
    using assms(1) by (simp_all add: run_ok_def base_ok_def)
  then show ?thesis using assms Chain
    by (intro run_ok_cong [OF assms(1)])
      (auto intro: same_sums_set_chain chains_ok_set_chain flags_ok_set_chain)
qed

lemma run_ok_locals [simp]:
  "run_ok me B (st\<lparr>hs_offset := x1\<rparr>) = run_ok me B st"
  "run_ok me B (st\<lparr>aligned_offset := x2\<rparr>) = run_ok me B st"
  "run_ok me B (st\<lparr>aligned_i := x3\<rparr>) = run_ok me B st"
  "run_ok me B (st\<lparr>want_i := x4\<rparr>) = run_ok me B st"
  "run_ok me B (st\<lparr>hs_k := x5\<rparr>) = run_ok me B st"
  "run_ok me B (st\<lparr>hs_s1 := x6\<rparr>) = run_ok me B st"
  "run_ok me B (st\<lparr>hs_s2 := x7\<rparr>) = run_ok me B st"
  "run_ok me B (st\<lparr>hs_sum := x8\<rparr>) = run_ok me B st"
  "run_ok me B (st\<lparr>hs_sum2 := x9\<rparr>) = run_ok me B st"
  "run_ok me B (st\<lparr>false_alarms := y1\<rparr>) = run_ok me B st"
  "run_ok me B (st\<lparr>hash_hits := y2\<rparr>) = run_ok me B st"
  "run_ok me B (st\<lparr>matches := y3\<rparr>) = run_ok me B st"
  by (simp_all add: run_ok_def base_ok_def sent_ok_def)

section \<open>The position of the search\<close>

text \<open>How far the search may run ahead of \<^verbatim>\<open>last_match\<close> before literal data is flushed.\<close>

definition lag :: "int \<Rightarrow> int \<Rightarrow> int \<Rightarrow> int" where
  "lag bl endp off = bl + CHUNK_SIZE + min (CHUNK_SIZE + 1) (max 0 (CHUNK_SIZE + 1 - (endp - off)))"

text \<open>The rolling sums stand for the window at \<open>off\<close>, and the aligned position is a block boundary.\<close>

definition pos_ok :: "menv \<Rightarrow> int \<Rightarrow> int \<Rightarrow> mstate \<Rightarrow> bool" where
  "pos_ok me endp off st \<longleftrightarrow> (let bl = ss_blength (ms_s st) in
     0 \<le> off \<and> off \<le> me_len me \<and> hs_k st = min bl (me_len me - off)
     \<and> rolled (hs_s1 st) (hs_s2 st) (seg (me_file me) (nat off) (nat bl))
     \<and> off - last_match st \<le> lag bl endp off
     \<and> 0 \<le> want_i st \<and> 0 \<le> aligned_i st \<and> aligned_offset st = aligned_i st * bl \<and> aligned_offset st \<le> off + bl)"

text \<open>At the head of the loop, and at the label \<^verbatim>\<open>null_hash\<close>, where a match may have moved the offset to the
  last byte of the matched block.\<close>

definition at_head :: "menv \<Rightarrow> byte list \<Rightarrow> int \<Rightarrow> mstate \<Rightarrow> bool" where
  "at_head me B endp st \<longleftrightarrow> run_ok me B st \<and> pos_ok me endp (hs_offset st) st \<and> hs_offset st < me_len me
     \<and> last_match st \<le> hs_offset st \<and> (endp \<le> hs_offset st \<longrightarrow> hs_offset st \<le> last_match st)"

definition at_null :: "menv \<Rightarrow> byte list \<Rightarrow> int \<Rightarrow> mstate \<Rightarrow> bool" where
  "at_null me B endp st \<longleftrightarrow> run_ok me B st \<and> pos_ok me endp (hs_offset st) st \<and> hs_offset st < me_len me
     \<and> last_match st \<le> hs_offset st + 1 \<and> (endp \<le> hs_offset st \<longrightarrow> hs_offset st \<le> last_match st)"

lemma run_ok_facts:
  assumes "run_ok me B st"
  shows "me_len me = int (length (me_file me))" "wf_sums me (ms_s st) B" "0 < ss_blength (ms_s st)"
    "ss_blength (ms_s st) \<le> 2 ^ 29" "0 < ss_count (ms_s st)" "0 \<le> last_match st" "last_match st \<le> me_len me"
    "length (ss_sums (ms_s st)) = nat (ss_count (ms_s st))"
  using assms
  by (auto simp: run_ok_def base_ok_def wf_sums_def tiles_def OLD_MAX_BLOCK_SIZE_def sent_ok_def Let_def)

lemma lag_bound: "lag bl endp off \<le> bl + 65537" "bl + CHUNK_SIZE \<le> lag bl endp off"
  by (auto simp: lag_def CHUNK_SIZE_def)

lemma lag_Suc:
  assumes "off - lm \<le> lag bl endp off" "endp \<le> off \<longrightarrow> off \<le> lm" "0 < bl"
    and "\<not> (bl + CHUNK_SIZE \<le> max 0 (off - lm) \<and> CHUNK_SIZE < endp - off)"
  shows "off + 1 - lm \<le> lag bl endp (off + 1)"
  using assms by (auto simp: lag_def CHUNK_SIZE_def min_def max_def split: if_splits)

lemma seg_min_length: "seg F p n = seg F p (min n (length F - p))"
  by (simp add: seg_def min_def)

lemma nat_min_rest: "0 \<le> off \<Longrightarrow> nat (min b (int L - off)) = min (nat b) (L - nat off)"
  by (cases "b \<le> int L - off") (simp_all add: min_def nat_diff_distrib, linarith+)

lemma window_step:
  assumes "p < length F" "0 < b"
  shows "\<exists>w. seg F p b = F ! p # w
    \<and> seg F (Suc p) b = (if p + b < length F then w @ [F ! (p + b)] else w)
    \<and> length (F ! p # w) = min b (length F - p)"
proof -
  obtain c where b: "b = Suc c" using assms(2) by (cases b) auto
  have "seg F p b = F ! p # seg F (Suc p) c" using assms(1) b by (simp add: seg_Suc)
  moreover have "seg F (Suc p) b = (if p + b < length F then seg F (Suc p) c @ [F ! (p + b)] else seg F (Suc p) c)"
    using b seg_snoc [of "Suc p" c F] by (auto simp: seg_def)
  moreover have "length (F ! p # seg F (Suc p) c) = min b (length F - p)"
    using assms(1) b by (auto simp: length_seg_min)
  ultimately show ?thesis by blast
qed

lemma load_window_ok:
  assumes r: "run_ok me B st" and o: "0 \<le> hs_offset st" "hs_offset st < me_len me"
  shows "\<exists>s1 s2. load_window me st = Some (Inr (st\<lparr>hs_k := min (ss_blength (ms_s st)) (me_len me - hs_offset st),
      hs_sum := ck_sum (seg (me_file me) (nat (hs_offset st)) (nat (ss_blength (ms_s st)))), hs_s1 := s1, hs_s2 := s2\<rparr>))
    \<and> rolled s1 s2 (seg (me_file me) (nat (hs_offset st)) (nat (ss_blength (ms_s st))))"
proof -
  note f = run_ok_facts [OF r]
  let ?F = "me_file me" and ?b = "ss_blength (ms_s st)" and ?o = "hs_offset st"
  define k where "k = min ?b (me_len me - ?o)"
  have k: "0 < k" "nat ?o + nat k \<le> length ?F" "nat k = min (nat ?b) (length ?F - nat ?o)"
    using f(1,3) o by (auto simp: k_def)
  have w: "map_view ?F (nat ?o) (nat k) = seg ?F (nat ?o) (nat ?b)"
    using k(2,3) seg_min_length [of ?F "nat ?o" "nat ?b"] by (simp add: map_view_seg)
  have c: "get_checksum1 (seg ?F (nat ?o) (nat ?b)) (nat k) = ck_sum (seg ?F (nat ?o) (nat ?b))"
    using k(3) get_checksum1_eq [of "nat k" "seg ?F (nat ?o) (nat ?b)"] by (simp add: length_seg_min)
  show ?thesis
    unfolding load_window_def Let_def k_def [symmetric] map_win_def
    using k(1) o(1) rolled_start [of "seg ?F (nat ?o) (nat ?b)"] by (auto simp: w c)
qed

lemma run_ok_upd_k:
  "run_ok me B (st\<lparr>hs_s1 := a, hs_s2 := b, hs_k := c\<rparr>) = run_ok me B st"
  by simp

text \<open>The step at \<^verbatim>\<open>null_hash\<close> returns, keeps the invariants, and leaves the sums of the next window.\<close>

lemma null_hash_roll:
  assumes r: "run_ok me B st" and p: "pos_ok me endp off st" and o: "off = hs_offset st" "off < me_len me"
    and lm: "last_match st \<le> off + 1"
  shows "\<exists>t1 t2. null_hash me endp st =
      (let bl = ss_blength (ms_s st);
           st1 = st\<lparr>hs_s1 := t1, hs_s2 := t2, hs_k := min bl (me_len me - (off + 1))\<rparr>
       in Some (Inr (if max 0 (off - last_match st) \<ge> bl + CHUNK_SIZE \<and> endp - off > CHUNK_SIZE
                     then matched me st1 (off - bl) (-2) else st1)))
    \<and> rolled t1 t2 (seg (me_file me) (nat (off + 1)) (nat (ss_blength (ms_s st))))"
proof -
  note f = run_ok_facts [OF r]
  let ?F = "me_file me" and ?b = "nat (ss_blength (ms_s st))" and ?p = "nat off"
  define k where "k = hs_k st"
  define backup where "backup = max 0 (off - last_match st)"
  have off: "0 \<le> off" "nat (off + 1) = Suc ?p" "?p < length ?F"
    using p o(2) f(1) by (auto simp: pos_ok_def Let_def)
  have k: "k = min (ss_blength (ms_s st)) (me_len me - off)" "0 < k"
    using p o(2) f(3) by (auto simp: pos_ok_def Let_def k_def)
  then have k: "nat k = min ?b (length ?F - ?p)" "0 < k" "k = min (ss_blength (ms_s st)) (me_len me - off)"
    using nat_min_rest [OF off(1)] f(1) by simp_all
  have lg: "off - last_match st < 2 ^ 31"
    using p lag_bound(1) [of "ss_blength (ms_s st)" endp off] f(4) by (auto simp: pos_ok_def Let_def)
  have b32: "max 0 (to_int32 (off - last_match st)) = backup"
    unfolding backup_def using lg lm by (subst to_int32_id) (auto simp: in_int32_def)
  define more where "more = (off + k < me_len me)"
  have more: "more \<longleftrightarrow> ?p + ?b < length ?F" "more \<Longrightarrow> nat k = ?b"
    using k(1,3) off f(1) by (auto simp: more_def min_def split: if_splits)
  obtain w where w: "seg ?F ?p ?b = ?F ! ?p # w"
      "seg ?F (Suc ?p) ?b = (if ?p + ?b < length ?F then w @ [?F ! (?p + ?b)] else w)"
      "length (?F ! ?p # w) = min ?b (length ?F - ?p)"
    using window_step [of ?p ?F ?b] off(3) f(3) by auto
  have bk: "0 \<le> backup" "backup \<le> off" using f(6) off(1) by (auto simp: backup_def)
  define n where "n = k + (if more then 1 else 0)"
  have n: "0 < n" "nat n \<le> length ?F - ?p" "nat (n + backup) = nat backup + nat n"
    using k(2,3) off o(2) f(1) bk by (auto simp: n_def more_def)
  have mv: "map_view ?F (nat (off - backup)) (nat (n + backup)) = seg ?F (nat (off - backup)) (nat backup + nat n)"
    unfolding n(3) using n bk off by (intro map_view_seg) linarith
  have dr: "drop (nat backup) (seg ?F (nat (off - backup)) (nat backup + nat n)) = seg ?F ?p (nat n)"
    using bk off(1) by (simp add: seg_def drop_take nat_diff_distrib)
  have mw: "map_win me (off - backup) (k + (if more then 1 else 0) + backup)
      = Some (Inr (seg ?F (nat (off - backup)) (nat backup + nat n)))"
    unfolding n_def [symmetric] map_win_def mv using n(1) bk by simp
  obtain m where m: "nat n = Suc m" using n(1) by (cases "nat n") auto
  have hd: "seg ?F ?p (nat n) = ?F ! ?p # seg ?F (Suc ?p) m" using off(3) m by (simp add: seg_Suc)
  have nk: "more \<Longrightarrow> (?F ! ?p # seg ?F (Suc ?p) m) ! nat k = ?F ! (?p + ?b)"
  proof -
    assume "more"
    then have "nat k < nat n" "?p + nat k < length ?F" using k(2) more by (auto simp: n_def)
    then show ?thesis using nth_seg [of "nat k" "nat n" ?p ?F] more(2) [OF \<open>more\<close>] by (simp add: hd)
  qed
  obtain t1 t2 where t: "roll_checksum1 (hs_s1 st) (hs_s2 st) (nat k) (?F ! ?p) (if more then Some (?F ! (?p + ?b)) else None) = (t1, t2)"
    by fastforce
  have "rolled (hs_s1 st) (hs_s2 st) (?F ! ?p # w)" using p w(1) by (simp add: pos_ok_def Let_def)
  moreover have "Suc (length w) = nat k" using w(3) k(1) by simp
  ultimately have rl: "rolled t1 t2 (seg ?F (Suc ?p) ?b)"
    using roll_slide [of "hs_s1 st" "hs_s2 st" "?F ! ?p" w] roll_shrink [of "hs_s1 st" "hs_s2 st" "?F ! ?p" w] t w(2) more(1)
    by (cases more) auto
  have k': "(if more then k else k - 1) = min (ss_blength (ms_s st)) (me_len me - (off + 1))"
    using k(3) by (auto simp: more_def)
  have "null_hash me endp st =
      (let st1 = st\<lparr>hs_s1 := t1, hs_s2 := t2, hs_k := min (ss_blength (ms_s st)) (me_len me - (off + 1))\<rparr>
       in Some (Inr (if backup \<ge> ss_blength (ms_s st) + CHUNK_SIZE \<and> endp - off > CHUNK_SIZE
                     then matched me st1 (off - ss_blength (ms_s st)) (-2) else st1)))"
    unfolding null_hash_def Let_def o(1) [symmetric] b32 k_def [symmetric] more_def [symmetric] mw
    using nk t k' by (cases more) (simp_all add: dr hd)
  then show ?thesis using rl unfolding backup_def off(2) Let_def by blast
qed

lemma null_hash_ok:
  assumes "at_null me B endp st"
  shows "\<exists>st'. null_hash me endp st = Some (Inr st') \<and> run_ok me B st' \<and> hs_offset st' = hs_offset st
    \<and> pos_ok me endp (hs_offset st + 1) st' \<and> last_match st' \<le> hs_offset st + 1"
proof -
  define off where "off = hs_offset st"
  define bl where "bl = ss_blength (ms_s st)"
  have r: "run_ok me B st" and p: "pos_ok me endp off st" and o: "off < me_len me"
    and lm: "last_match st \<le> off + 1" "endp \<le> off \<longrightarrow> off \<le> last_match st"
    using assms by (auto simp: at_null_def off_def)
  note f = run_ok_facts [OF r]
  obtain t1 t2 where n: "null_hash me endp st =
      (let st1 = st\<lparr>hs_s1 := t1, hs_s2 := t2, hs_k := min bl (me_len me - (off + 1))\<rparr>
       in Some (Inr (if max 0 (off - last_match st) \<ge> bl + CHUNK_SIZE \<and> endp - off > CHUNK_SIZE
                     then matched me st1 (off - bl) (-2) else st1)))"
    and rl: "rolled t1 t2 (seg (me_file me) (nat (off + 1)) (nat bl))"
    using null_hash_roll [OF r p off_def o lm(1)] unfolding bl_def [symmetric] Let_def by blast
  define st1 where "st1 = st\<lparr>hs_s1 := t1, hs_s2 := t2, hs_k := min bl (me_len me - (off + 1))\<rparr>"
  have r1: "run_ok me B st1" using r by (simp add: st1_def)
  have q: "0 \<le> off" "off - last_match st \<le> lag bl endp off" "0 \<le> want_i st" "0 \<le> aligned_i st"
      "aligned_offset st = aligned_i st * bl" "aligned_offset st \<le> off + bl"
    using p by (auto simp: pos_ok_def Let_def bl_def)
  show ?thesis
  proof (cases "max 0 (off - last_match st) \<ge> bl + CHUNK_SIZE \<and> endp - off > CHUNK_SIZE")
    case True
    let ?st = "matched me st1 (off - bl) (-2)"
    have b: "last_match st1 \<le> off - bl" "off - bl - last_match st1 < 2 ^ 31"
      using True q(2) lag_bound(1) [of bl endp off] f(3,4) by (auto simp: st1_def bl_def CHUNK_SIZE_def)
    have "run_ok me B ?st" using run_ok_matched_literal [OF r1 b] o f(3) by (simp add: bl_def)
    moreover have "last_match ?st = off - bl" using matched_simps(2) [OF b] by simp
    moreover have "off + 1 - (off - bl) \<le> lag bl endp (off + 1)"
      using lag_bound(2) [of bl endp "off + 1"] by (simp add: CHUNK_SIZE_def)
    ultimately show ?thesis
      using n True rl q o f(3) unfolding pos_ok_def Let_def
      by (auto simp: st1_def off_def [symmetric] bl_def [symmetric])
  next
    case False
    have "off + 1 - last_match st \<le> lag bl endp (off + 1)"
      using lag_Suc [OF q(2) lm(2) _ False] f(3) by (simp add: bl_def)
    then show ?thesis
      using n False rl q o f(3) r1 lm(1) unfolding pos_ok_def Let_def
      by (auto simp: st1_def off_def [symmetric] bl_def [symmetric])
  qed
qed

section \<open>Taking a match\<close>

text \<open>The block that is sent is the one whose data the window shows, and is safe to read in place.\<close>

definition block_here :: "menv \<Rightarrow> byte list \<Rightarrow> mstate \<Rightarrow> int \<Rightarrow> bool" where
  "block_here me B st i \<longleftrightarrow> 0 \<le> i \<and> i < ss_count (ms_s st)
     \<and> seg (me_file me) (nat (hs_offset st)) (nat (ss_blength (ms_s st))) = block (ms_s st) B (nat i)
     \<and> (updating_basis_file me \<longrightarrow> hs_offset st \<le> sb_offset (ss_sums (ms_s st) ! nat i) \<or> sb_flags (ss_sums (ms_s st) ! nat i))"

text \<open>The sums at hand identify the window: a block with the same sums is the window's data.\<close>

definition sums_tell :: "menv \<Rightarrow> byte list \<Rightarrow> mstate \<Rightarrow> bool" where
  "sums_tell me B st \<longleftrightarrow> (\<forall>j. 0 \<le> j \<and> j < ss_count (ms_s st) \<and> hs_sum st = sb_sum1 (ss_sums (ms_s st) ! nat j)
      \<and> sum2_matches me st j
      \<longrightarrow> seg (me_file me) (nat (hs_offset st)) (nat (ss_blength (ms_s st))) = block (ms_s st) B (nat j))"

lemma prefer_want_here:
  assumes "block_here me B st i" "sums_tell me B st" "0 \<le> want_i st"
  shows "block_here me B st (prefer_want me st i)"
  using assms by (auto simp: prefer_want_def Let_def block_here_def sums_tell_def)

lemma take_match_ok:
  assumes r: "run_ok me B st" and o: "0 \<le> hs_offset st" "hs_offset st < me_len me"
    and lm: "last_match st \<le> hs_offset st" "hs_offset st - last_match st < 2 ^ 31"
    and bh: "block_here me B st (prefer_want me st i)"
    and al: "0 \<le> aligned_i st" "aligned_offset st = aligned_i st * ss_blength (ms_s st)"
      "aligned_offset st \<le> hs_offset st + ss_blength (ms_s st)"
  shows "\<exists>st'. take_match me st i = Some (Inr st') \<and> at_null me B endp st' \<and> hs_offset st \<le> hs_offset st'
    \<and> ms_s st' = ms_s st
    \<and> last_match st' = hs_offset st + int (length (block (ms_s st) B (nat (prefer_want me st i))))"
proof -
  note f = run_ok_facts [OF r]
  let ?F = "me_file me" and ?o = "hs_offset st" and ?s = "ms_s st"
  define j where "j = nat (prefer_want me st i)"
  define w where "w = block ?s B j"
  have j: "prefer_want me st i = int j" "j < nat (ss_count ?s)" "seg ?F (nat ?o) (nat (ss_blength ?s)) = w"
    using bh by (auto simp: block_here_def j_def w_def)
  have lw: "length w = min (nat (ss_blength ?s)) (length ?F - nat ?o)"
    using j(3) by (simp flip: j(3) add: length_seg_min)
  then have lw1: "0 < length w" "?o + int (length w) \<le> me_len me" "int (length w) \<le> ss_blength ?s"
    using o f(1,3) by auto
  have len: "sb_len (ss_sums ?s ! j) = int (length w)" using wf_sums_entry(2) [OF f(2) j(2)] by (simp add: w_def)
  define st1 where "st1 = matched me (st\<lparr>want_i := int j + 1\<rparr>) ?o (int j)"
  have seg_w: "seg ?F (nat ?o) (length w) = w"
    using j(3) lw seg_min_length [of ?F "nat ?o" "nat (ss_blength ?s)"] by simp
  have rw: "run_ok me B (st\<lparr>want_i := int j + 1\<rparr>)" using r by simp
  have "base_ok me B st1"
    unfolding st1_def
  proof (rule matched_block_ok)
    show "base_ok me B (st\<lparr>want_i := int j + 1\<rparr>)" using rw unfolding run_ok_def by blast
  qed (use lm j lw1 seg_w bh in \<open>auto simp: w_def block_here_def\<close>)
  then have r1: "run_ok me B st1" using r by (simp add: run_ok_def st1_def)
  have lm1: "last_match st1 = ?o + int (length w)"
    using matched_simps(2) [of "st\<lparr>want_i := int j + 1\<rparr>" ?o me "int j"] lm len by (simp add: st1_def)
  define st2 where "st2 = st1\<lparr>hs_offset := ?o + int (length w) - 1\<rparr>"
  have r2: "run_ok me B st2" using r1 by (simp add: st2_def)
  have o2: "0 \<le> hs_offset st2" "hs_offset st2 < me_len me" using lw1 o by (simp_all add: st2_def del: length_greater_0_conv)
  obtain a b where l: "load_window me st2 = Some (Inr (st2\<lparr>hs_k := min (ss_blength (ms_s st2)) (me_len me - hs_offset st2),
      hs_sum := ck_sum (seg ?F (nat (hs_offset st2)) (nat (ss_blength (ms_s st2)))), hs_s1 := a, hs_s2 := b\<rparr>))"
    and rl: "rolled a b (seg ?F (nat (hs_offset st2)) (nat (ss_blength (ms_s st2))))"
    using load_window_ok [OF r2 o2] by blast
  define st3 where "st3 = st2\<lparr>hs_k := min (ss_blength (ms_s st2)) (me_len me - hs_offset st2),
      hs_sum := ck_sum (seg ?F (nat (hs_offset st2)) (nat (ss_blength (ms_s st2)))), hs_s1 := a, hs_s2 := b,
      matches := matches st2 + 1\<rparr>"
  have tm: "take_match me st i = Some (Inr st3)"
    unfolding take_match_def Let_def j(1) nat_int len
    using l by (simp add: st1_def [symmetric]) (simp add: st2_def st1_def st3_def)
  have "- 1 \<le> lag (ss_blength ?s) endp (hs_offset st2)"
    using lag_bound(2) [of "ss_blength ?s" endp "hs_offset st2"] f(3) by (simp add: CHUNK_SIZE_def)
  then have "at_null me B endp st3"
    using r2 o2 rl lm1 al lw1 unfolding at_null_def pos_ok_def Let_def
    by (simp add: st3_def del: length_greater_0_conv) (simp add: st2_def st1_def del: length_greater_0_conv)
  then show ?thesis
    using tm lm1 lw1(1) by (simp add: st3_def st2_def del: length_greater_0_conv)
      (simp add: st1_def w_def j_def del: length_greater_0_conv)
qed

section \<open>Re-alignment\<close>

lemma set_same_offset_simps [simp]:
  "ss_blength (set_same_offset a s) = ss_blength s" "ss_count (set_same_offset a s) = ss_count s"
  "ss_s2length (set_same_offset a s) = ss_s2length s"
  "sb_len (ss_sums (set_same_offset a s) ! j) = sb_len (ss_sums s ! j)"
  by (cases "a < length (ss_sums s)"; cases "a = j"; simp add: set_same_offset_def list_update_beyond)+

text \<open>Marking a block before its match is sent is the same as marking it afterwards.\<close>

lemma take_match_mark:
  "take_match me (st\<lparr>ms_s := set_same_offset a (ms_s st), want_i := int a\<rparr>) (int a)
   = run_bind (take_match me (st\<lparr>want_i := int a\<rparr>) (int a))
       (\<lambda>st'. Some (Inr (st'\<lparr>ms_s := set_same_offset a (ms_s st')\<rparr>)))"
  by (auto simp: take_match_def prefer_want_def Let_def matched_def load_window_def map_win_def)

lemma run_ok_mark:
  assumes "run_ok me B st" "a < nat (ss_count (ms_s st))"
    and "seg (me_file me) (a * nat (ss_blength (ms_s st))) (length (block (ms_s st) B a)) = block (ms_s st) B a"
    and "int (a * nat (ss_blength (ms_s st)) + length (block (ms_s st) B a)) \<le> last_match st"
  shows "run_ok me B (st\<lparr>ms_s := set_same_offset a (ms_s st)\<rparr>)"
proof (rule run_ok_cong [OF assms(1)])
  show "flags_ok me B (ms_s (st\<lparr>ms_s := set_same_offset a (ms_s st)\<rparr>)) (last_match (st\<lparr>ms_s := set_same_offset a (ms_s st)\<rparr>))"
    using assms by (auto intro!: flags_ok_set_same_offset simp: run_ok_def base_ok_def)
  show "chains_ok (ms_s (st\<lparr>ms_s := set_same_offset a (ms_s st)\<rparr>)) (hash_table (st\<lparr>ms_s := set_same_offset a (ms_s st)\<rparr>))"
    using assms(1) by (simp add: chains_ok_set_same_offset run_ok_def base_ok_def)
qed (simp_all add: same_sums_set_same_offset)

lemma align_loop_ok:
  assumes "0 < bl" "ao = ai * bl" "0 \<le> ai" "nat (off - ao) \<le> n" "ao \<le> off + bl"
  shows "\<exists>ai'. align_loop n bl off ao ai = Some (ai' * bl, ai') \<and> 0 \<le> ai' \<and> off \<le> ai' * bl \<and> ai' * bl \<le> off + bl"
  using assms
proof (induction n arbitrary: ao ai)
  case 0
  then show ?case by auto
next
  case (Suc n)
  show ?case
  proof (cases "ao < off")
    case True
    have "\<exists>ai'. align_loop n bl off (ao + bl) (ai + 1) = Some (ai' * bl, ai') \<and> 0 \<le> ai' \<and> off \<le> ai' * bl \<and> ai' * bl \<le> off + bl"
      using Suc.prems True by (intro Suc.IH) (auto simp: algebra_simps)
    then show ?thesis using True by simp
  next
    case False
    then show ?thesis using Suc.prems by auto
  qed
qed

lemma sums_tell_window:
  assumes r: "run_ok me B st" and o: "0 \<le> hs_offset st" "hs_offset st < me_len me"
    and w: "w = seg (me_file me) (nat (hs_offset st)) (nat (ss_blength (ms_s st)))"
    and s: "hs_sum2 st = me_csum2 me w" "updating_basis_file me \<or> hs_sum st = ck_sum w"
  shows "sums_tell me B st"
  unfolding sums_tell_def
proof (intro allI impI)
  fix j
  assume j: "0 \<le> j \<and> j < ss_count (ms_s st) \<and> hs_sum st = sb_sum1 (ss_sums (ms_s st) ! nat j) \<and> sum2_matches me st j"
  note f = run_ok_facts [OF r]
  have nj: "nat j < nat (ss_count (ms_s st))" "int (nat j) = j" using j by auto
  have nc: "no_collision me (ms_s st) B" using r by (simp add: run_ok_def)
  have "nat (hs_offset st) < length (me_file me)" using o f(1) by simp
  moreover have "take (nat (ss_s2length (ms_s st))) (me_csum2 me w)
      = take (nat (ss_s2length (ms_s st))) (me_csum2 me (block (ms_s st) B (nat j)))"
    using j wf_sums_entry(4) [OF f(2) nj(1)] s(1) nj(2) by (simp add: sum2_matches_def)
  moreover have "updating_basis_file me \<or> ck_sum w = ck_sum (block (ms_s st) B (nat j))"
    using j wf_sums_entry(3) [OF f(2) nj(1)] s(2) by auto
  ultimately show "seg (me_file me) (nat (hs_offset st)) (nat (ss_blength (ms_s st))) = block (ms_s st) B (nat j)"
    using nc nj(1) unfolding no_collision_def Let_def w by blast
qed

text \<open>A match at a block boundary: the block is marked, and sent.\<close>

lemma marked_match_ok:
  assumes r: "run_ok me B st" and o: "hs_offset st = int a * ss_blength (ms_s st)" "hs_offset st < me_len me"
    and lm: "last_match st \<le> hs_offset st" "hs_offset st - last_match st < 2 ^ 31"
    and a: "int a < ss_count (ms_s st)"
      "seg (me_file me) (nat (hs_offset st)) (nat (ss_blength (ms_s st))) = block (ms_s st) B a"
    and al: "aligned_i st = int a" "aligned_offset st = hs_offset st"
  shows "\<exists>st'. take_match me (st\<lparr>ms_s := set_same_offset a (ms_s st), want_i := int a\<rparr>) (int a) = Some (Inr st')
    \<and> at_null me B endp st' \<and> hs_offset st \<le> hs_offset st'"
proof -
  note f = run_ok_facts [OF r]
  let ?st = "st\<lparr>want_i := int a\<rparr>"
  have an: "a < nat (ss_count (ms_s st))" using a(1) by simp
  have oa: "nat (hs_offset st) = a * nat (ss_blength (ms_s st))" using o(1) f(3) by (simp add: nat_mult_distrib)
  have pw: "prefer_want me ?st (int a) = int a" by (simp add: prefer_want_def Let_def)
  have bh: "block_here me B ?st (prefer_want me ?st (int a))"
    unfolding pw block_here_def using a wf_sums_entry(1) [OF f(2) an] o(1) f(3) by auto
  have "\<exists>st'. take_match me ?st (int a) = Some (Inr st') \<and> at_null me B endp st' \<and> hs_offset ?st \<le> hs_offset st'
    \<and> ms_s st' = ms_s ?st
    \<and> last_match st' = hs_offset ?st + int (length (block (ms_s ?st) B (nat (prefer_want me ?st (int a)))))"
    by (rule take_match_ok [OF _ _ _ _ _ bh]) (use r o lm al f(3) in auto)
  then obtain st' where st': "take_match me ?st (int a) = Some (Inr st')" "at_null me B endp st'"
      "hs_offset st \<le> hs_offset st'" "ms_s st' = ms_s st" "last_match st' = hs_offset st + int (length (block (ms_s st) B a))"
    unfolding pw by auto
  have "seg (me_file me) (a * nat (ss_blength (ms_s st))) (length (block (ms_s st) B a)) = block (ms_s st) B a"
    using a(2) unfolding oa by (metis append_Nil2 length_seg_min seg_min_length)
  moreover have "int (a * nat (ss_blength (ms_s st)) + length (block (ms_s st) B a)) \<le> last_match st'"
    using st'(5) o(1) f(3) by simp
  ultimately have "run_ok me B (st'\<lparr>ms_s := set_same_offset a (ms_s st')\<rparr>)"
    using run_ok_mark [of me B st' a] st'(2,4) an by (simp add: at_null_def)
  then have "at_null me B endp (st'\<lparr>ms_s := set_same_offset a (ms_s st')\<rparr>)"
    using st'(2) by (simp add: at_null_def pos_ok_def Let_def)
  then show ?thesis using st'(1,3) by (simp add: take_match_mark)
qed

lemma plain_match_ok:
  assumes r: "run_ok me B st" and o: "0 \<le> hs_offset st" "hs_offset st < me_len me"
    and lm: "last_match st \<le> hs_offset st" "hs_offset st - last_match st < 2 ^ 31"
    and bh: "block_here me B st i" and t: "sums_tell me B st" and wi: "0 \<le> want_i st"
    and al: "0 \<le> aligned_i st" "aligned_offset st = aligned_i st * ss_blength (ms_s st)"
      "aligned_offset st \<le> hs_offset st + ss_blength (ms_s st)"
  shows "\<exists>st'. take_match me st i = Some (Inr st') \<and> at_null me B endp st' \<and> hs_offset st \<le> hs_offset st'"
  using take_match_ok [OF r o lm prefer_want_here [OF bh t wi] al] by blast

text \<open>The window that \<open>realign\<close> loads at the aligned position.\<close>

lemma aligned_window:
  assumes "me_len me = int (length (me_file me))" "0 \<le> lm" "lm \<le> ao" "ao - lm < 2 ^ 31" "0 < l" "ao + l \<le> me_len me"
  defines "bk \<equiv> max 0 (to_int32 (ao - lm))"
  shows "\<exists>mp. map_win me (ao - bk) (l + bk) = Some (Inr mp) \<and> drop (nat bk) mp = seg (me_file me) (nat ao) (nat l)"
proof -
  have bk: "bk = ao - lm" unfolding bk_def using assms by (subst to_int32_id) (auto simp: in_int32_def)
  have n: "nat (l + bk) = nat bk + nat l" "nat (ao - bk) + nat bk = nat ao" using bk assms(2,3,5) by linarith+
  have "map_view (me_file me) (nat (ao - bk)) (nat bk + nat l) = seg (me_file me) (nat (ao - bk)) (nat bk + nat l)"
    using n assms bk by (intro map_view_seg) linarith
  moreover have "drop (nat bk) (seg (me_file me) (nat (ao - bk)) (nat bk + nat l)) = seg (me_file me) (nat ao) (nat l)"
    using n(2) by (simp add: seg_def drop_take add.commute)
  moreover have "0 < l + bk" "bk \<le> ao" using assms(2,3,5) bk by simp_all
  ultimately show ?thesis unfolding map_win_def n(1) by auto
qed

text \<open>
  In place, the sums of the window and of the block at the next boundary agree, and the window there
  is loaded: either its weak sum differs, or it holds the same data.
\<close>

lemma zero_windowsD:
  assumes "zero_windows me s" "updating_basis_file me" "0 < ss_blength s"
    and "p + nat (ss_blength s) \<le> length (me_file me)" "q + nat (ss_blength s) \<le> length (me_file me)"
    and "ck_sum (seg (me_file me) p (nat (ss_blength s))) = 0" "ck_sum (seg (me_file me) q (nat (ss_blength s))) = 0"
  shows "seg (me_file me) p (nat (ss_blength s)) = seg (me_file me) q (nat (ss_blength s))"
proof -
  have "p < length (me_file me)" "q < length (me_file me)" using assms(3-5) by linarith+
  then show ?thesis using assms unfolding zero_windows_def Let_def by blast
qed

lemma realign_ahead:
  assumes r: "run_ok me B st" and upd: "updating_basis_file me"
    and o: "0 \<le> hs_offset st" "hs_offset st < me_len me" "last_match st \<le> hs_offset st"
    and ao: "hs_offset st \<le> ao" "ao - last_match st < 2 ^ 31" "ao + ss_blength (ms_s st) \<le> me_len me"
    and a: "a < nat (ss_count (ms_s st))"
    and w: "seg (me_file me) (nat (hs_offset st)) (nat (ss_blength (ms_s st))) = block (ms_s st) B a"
    and z: "ck_sum (block (ms_s st) B a) = 0" "hs_offset st + ss_blength (ms_s st) \<le> me_len me"
  defines "bk \<equiv> max 0 (to_int32 (ao - last_match st))" and "wa \<equiv> seg (me_file me) (nat ao) (nat (ss_blength (ms_s st)))"
  shows "\<exists>mp. map_win me (ao - bk) (ss_blength (ms_s st) + bk) = Some (Inr mp) \<and> drop (nat bk) mp = wa"
    "get_checksum1 wa (nat (ss_blength (ms_s st))) = ck_sum wa" "take (nat (ss_blength (ms_s st))) wa = wa"
    "ck_sum wa = sb_sum1 (ss_sums (ms_s st) ! a) \<Longrightarrow> wa = block (ms_s st) B a"
proof -
  note f = run_ok_facts [OF r]
  let ?b = "nat (ss_blength (ms_s st))"
  show "\<exists>mp. map_win me (ao - bk) (ss_blength (ms_s st) + bk) = Some (Inr mp) \<and> drop (nat bk) mp = wa"
    unfolding bk_def wa_def using aligned_window [OF f(1,6) _ ao(2) f(3) ao(3)] o ao by simp
  have lw: "length wa = ?b" unfolding wa_def using ao o f(1,3) by (intro length_seg) linarith
  then show "get_checksum1 wa ?b = ck_sum wa" "take ?b wa = wa" by (simp_all add: get_checksum1_eq)
  assume "ck_sum wa = sb_sum1 (ss_sums (ms_s st) ! a)"
  then have "ck_sum wa = 0" using wf_sums_entry(3) [OF f(2) a] z(1) by simp
  moreover have "nat ao + ?b \<le> length (me_file me)" "nat (hs_offset st) + ?b \<le> length (me_file me)" "0 < ?b"
    using ao o z f(1,3) by linarith+
  moreover have "zero_windows me (ms_s st)" using r by (simp add: run_ok_def)
  ultimately have "wa = seg (me_file me) (nat (hs_offset st)) ?b"
    using z(1) w f(3) unfolding wa_def by (intro zero_windowsD upd) simp_all
  then show "wa = block (ms_s st) B a" using w by simp
qed

lemma realign_upd:
  fixes l i ao ai :: int
  assumes "updating_basis_file me"
    and "align_loop (nat (hs_offset st - aligned_offset st)) (ss_blength (ms_s st)) (hs_offset st) (aligned_offset st) (aligned_i st)
      = Some (ao, ai)"
  defines "st1 \<equiv> st\<lparr>aligned_offset := ao, aligned_i := ai\<rparr>" and "ea \<equiv> ss_sums (ms_s st) ! nat ai"
    and "bk \<equiv> max 0 (to_int32 (ao - last_match st))"
    and "C \<equiv> (hs_offset st = ao \<or> (hs_sum st = 0 \<and> l = ss_blength (ms_s st) \<and> ao + l \<le> me_len me)) \<and> ai < ss_count (ms_s st)"
    and "M \<equiv> i \<noteq> ai \<and> (hs_sum st \<noteq> sb_sum1 (ss_sums (ms_s st) ! nat ai) \<or> l \<noteq> sb_len (ss_sums (ms_s st) ! nat ai)
       \<or> \<not> sum2_matches me st ai)"
  shows "\<not> C \<or> M \<Longrightarrow> realign me st i l = Some (Inr (st1, i))"
    "C \<Longrightarrow> \<not> M \<Longrightarrow> hs_offset st = ao \<Longrightarrow>
       realign me st i l = Some (Inr (st1\<lparr>ms_s := set_same_offset (nat ai) (ms_s st1), want_i := ai\<rparr>, ai))"
    "C \<Longrightarrow> \<not> M \<Longrightarrow> hs_offset st \<noteq> ao \<Longrightarrow> map_win me (ao - bk) (l + bk) = Some (Inr mp) \<Longrightarrow>
       realign me st i l =
         (let w = drop (nat bk) mp; st2 = st1\<lparr>hs_sum := get_checksum1 w (nat l)\<rparr>; st3 = st2\<lparr>hs_sum2 := me_csum2 me (take (nat l) w)\<rparr>
          in if get_checksum1 w (nat l) \<noteq> sb_sum1 ea then Some (Inr (st2, ai))
             else if \<not> sum2_matches me st3 ai then Some (Inr (st3, ai))
             else Some (Inr (st3\<lparr>hs_offset := ao, ms_s := set_same_offset (nat ai) (ms_s st), want_i := ai\<rparr>, ai)))"
proof -
  have unf: "realign me st i l =
     (if C then
        if M then Some (Inr (st1, i))
        else if hs_offset st \<noteq> ao then
          run_bind (map_win me (ao - bk) (l + bk)) (\<lambda>mp.
            let w = drop (nat bk) mp; st2 = st1\<lparr>hs_sum := get_checksum1 w (nat l)\<rparr>; st3 = st2\<lparr>hs_sum2 := me_csum2 me (take (nat l) w)\<rparr>
            in if get_checksum1 w (nat l) \<noteq> sb_sum1 ea then Some (Inr (st2, ai))
               else if \<not> sum2_matches me st3 ai then Some (Inr (st3, ai))
               else Some (Inr (st3\<lparr>hs_offset := ao, ms_s := set_same_offset (nat ai) (ms_s st), want_i := ai\<rparr>, ai)))
        else Some (Inr (st1\<lparr>ms_s := set_same_offset (nat ai) (ms_s st1), want_i := ai\<rparr>, ai))
      else Some (Inr (st1, i)))"
    unfolding realign_def assms(2) C_def M_def ea_def bk_def st1_def using assms(1)
    by (simp add: Let_def cong: if_cong)
  show "\<not> C \<or> M \<Longrightarrow> realign me st i l = Some (Inr (st1, i))"
    "C \<Longrightarrow> \<not> M \<Longrightarrow> hs_offset st = ao \<Longrightarrow>
       realign me st i l = Some (Inr (st1\<lparr>ms_s := set_same_offset (nat ai) (ms_s st1), want_i := ai\<rparr>, ai))"
    unfolding unf by auto
  assume "C" "\<not> M" "hs_offset st \<noteq> ao" "map_win me (ao - bk) (l + bk) = Some (Inr mp)"
  then show "realign me st i l =
         (let w = drop (nat bk) mp; st2 = st1\<lparr>hs_sum := get_checksum1 w (nat l)\<rparr>; st3 = st2\<lparr>hs_sum2 := me_csum2 me (take (nat l) w)\<rparr>
          in if get_checksum1 w (nat l) \<noteq> sb_sum1 ea then Some (Inr (st2, ai))
             else if \<not> sum2_matches me st3 ai then Some (Inr (st3, ai))
             else Some (Inr (st3\<lparr>hs_offset := ao, ms_s := set_same_offset (nat ai) (ms_s st), want_i := ai\<rparr>, ai)))"
    unfolding unf by simp
qed


text \<open>A window that shows block \<open>i\<close> is sent as a match, after the in-place re-alignment.\<close>

lemma found_ok:
  assumes h: "at_head me B endp st" and bh: "block_here me B st i"
    and w: "w = seg (me_file me) (nat (hs_offset st)) (nat (ss_blength (ms_s st)))"
    and s: "hs_sum st = ck_sum w" "hs_sum2 st = me_csum2 me w"
    and l: "l = min (ss_blength (ms_s st)) (me_len me - hs_offset st)"
  shows "\<exists>st'. run_bind (realign me st i l) (\<lambda>(st2, i2). take_match me st2 i2) = Some (Inr st')
    \<and> at_null me B endp st' \<and> hs_offset st \<le> hs_offset st'"
proof -
  let ?s = "ms_s st" and ?F = "me_file me" and ?o = "hs_offset st"
  define bl where "bl = ss_blength ?s"
  have r: "run_ok me B st" and lm: "last_match st \<le> ?o" and o: "0 \<le> ?o" "?o < me_len me"
    and wi: "0 \<le> want_i st" and al: "0 \<le> aligned_i st" "aligned_offset st = aligned_i st * bl" "aligned_offset st \<le> ?o + bl"
    and lg: "?o - last_match st \<le> lag bl endp ?o"
    using h by (auto simp: at_head_def pos_ok_def Let_def bl_def)
  note f = run_ok_facts [OF r, folded bl_def]
  have lm31: "?o + bl - last_match st < 2 ^ 31" "?o - last_match st < 2 ^ 31"
    using lg lag_bound(1) [of bl endp ?o] f(3,4) by auto
  have tell: "sums_tell me B st" by (rule sums_tell_window [OF r o w]) (use s in auto)
  show ?thesis
  proof (cases "updating_basis_file me")
    case False
    then show ?thesis using plain_match_ok [OF r o lm lm31(2) bh tell wi] al by (simp add: realign_def bl_def)
  next
    case upd: True
    obtain ai where ai: "align_loop (nat (?o - aligned_offset st)) bl ?o (aligned_offset st) (aligned_i st) = Some (ai * bl, ai)"
        "0 \<le> ai" "?o \<le> ai * bl" "ai * bl \<le> ?o + bl"
      using align_loop_ok [OF f(3) al(2,1) _ al(3)] by auto
    define a where "a = nat ai"
    have a: "ai = int a" using ai(2) by (simp add: a_def)
    define st1 where "st1 = st\<lparr>aligned_offset := ai * bl, aligned_i := ai\<rparr>"
    have r1: "run_ok me B st1" using r by (simp add: st1_def)
    have plain: "\<exists>st'. take_match me st2 j = Some (Inr st') \<and> at_null me B endp st' \<and> ?o \<le> hs_offset st'"
      if "block_here me B st j" "st2 = st1\<lparr>hs_sum := x\<rparr>" "updating_basis_file me \<or> x = hs_sum st" for st2 j x
    proof -
      have "sums_tell me B st2"
        by (rule sums_tell_window [of _ _ _ w]) (use that o w s r1 upd in \<open>auto simp: st1_def\<close>)
      then show ?thesis
        using plain_match_ok [of me B st2 j endp] that r1 o lm lm31 wi ai
        by (simp add: st1_def block_here_def bl_def)
    qed
    have st1x: "st1\<lparr>hs_sum := hs_sum st\<rparr> = st1" by (simp add: st1_def)
    define ea where "ea = ss_sums ?s ! a"
    note R = realign_upd [OF upd ai(1) [unfolded bl_def], folded bl_def, folded st1_def, of l i, folded a_def, folded ea_def]
    show ?thesis
    proof (cases "((?o = ai * bl \<or> hs_sum st = 0 \<and> l = bl \<and> ai * bl + l \<le> me_len me) \<and> ai < ss_count ?s)
        \<and> \<not> (i \<noteq> ai \<and> (hs_sum st \<noteq> sb_sum1 ea \<or> l \<noteq> sb_len ea \<or> \<not> sum2_matches me st ai))")
      case False
      then have "realign me st i l = Some (Inr (st1, i))" by (intro R(1)) blast
      then show ?thesis using plain [OF bh st1x [symmetric]] by simp
    next
      case True
      then have an: "a < nat (ss_count ?s)" "ai < ss_count ?s" using a by auto
      have wa: "w = block ?s B a"
      proof (cases "i = ai")
        case True then show ?thesis using bh w by (simp add: block_here_def a_def)
      next
        case False
        then have "hs_sum st = sb_sum1 ea" "sum2_matches me st ai" using True by auto
        then show ?thesis using tell [unfolded sums_tell_def, rule_format, of ai] an(2) ai(2) w by (simp add: ea_def a_def)
      qed
      have off_a: "sb_offset (ss_sums ?s ! a) = ai * bl"
        using wf_sums_entry(1) [OF f(2) an(1)] f(3) a by (simp add: bl_def)
      have bha: "block_here me B st ai"
        using wa w an(2) ai(2,3) off_a a unfolding block_here_def by (simp add: bl_def)
      show ?thesis
      proof (cases "?o = ai * bl")
        case True': True
        then have "realign me st i l = Some (Inr (st1\<lparr>ms_s := set_same_offset a (ms_s st1), want_i := ai\<rparr>, ai))"
          using True by (intro R(2)) blast+
        then show ?thesis
          using marked_match_ok [OF r1, of a endp] True' o lm lm31 a an wa w
          by (simp add: st1_def bl_def)
      next
        case ne: False
        then have z: "hs_sum st = 0" "l = bl" "ai * bl + bl \<le> me_len me" using True by auto
        have z': "?o + bl \<le> me_len me" using z(2) l by (simp add: bl_def min_def split: if_splits)
        define wx where "wx = seg ?F (nat (ai * bl)) (nat bl)"
        have lm3: "ai * bl - last_match st < 2 ^ 31" using ai(4) lm31 by simp
        have ck0: "ck_sum (block ?s B a) = 0" using z(1) s(1) wa by simp
        have zz: "ai * bl + ss_blength ?s \<le> me_len me" "?o + ss_blength ?s \<le> me_len me"
          using z(3) z' by (simp_all add: bl_def)
        note ra = realign_ahead [OF r upd o lm ai(3) lm3 zz(1) an(1) _ ck0 zz(2), folded bl_def, folded wx_def ea_def]
        have wa': "seg ?F (nat ?o) (nat bl) = block ?s B a" using wa w by (simp add: bl_def)
        obtain mp where mp: "map_win me (ai * bl - max 0 (to_int32 (ai * bl - last_match st)))
              (l + max 0 (to_int32 (ai * bl - last_match st))) = Some (Inr mp)"
            "drop (nat (max 0 (to_int32 (ai * bl - last_match st)))) mp = wx"
          using ra(1) [OF wa'] z(2) by auto
        note wx = ra(2,3) [OF wa'] ra(4) [OF wa']
        have R3: "realign me st i l =
            (let st2 = st1\<lparr>hs_sum := ck_sum wx\<rparr>; st3 = st2\<lparr>hs_sum2 := me_csum2 me wx\<rparr>
             in if ck_sum wx \<noteq> sb_sum1 ea then Some (Inr (st2, ai))
                else if \<not> sum2_matches me st3 ai then Some (Inr (st3, ai))
                else Some (Inr (st3\<lparr>hs_offset := ai * bl, ms_s := set_same_offset a ?s, want_i := ai\<rparr>, ai)))"
          using R(3) [OF _ _ ne mp(1)] True unfolding mp(2) z(2) wx(1,2) Let_def by blast
        show ?thesis
        proof (cases "ck_sum wx = sb_sum1 ea")
          case False
          then show ?thesis using plain [OF bha refl] upd by (simp add: R3 Let_def)
        next
          case eq: True
          define st3 where "st3 = st1\<lparr>hs_sum := ck_sum wx, hs_sum2 := me_csum2 me wx, hs_offset := ai * bl\<rparr>"
          have "sum2_matches me (st1\<lparr>hs_sum := ck_sum wx, hs_sum2 := me_csum2 me wx\<rparr>) ai"
            using wf_sums_entry(4) [OF f(2) an(1)] wx(3) [OF eq] a by (simp add: sum2_matches_def st1_def)
          then have "realign me st i l = Some (Inr (st3\<lparr>ms_s := set_same_offset a (ms_s st3), want_i := ai\<rparr>, ai))"
            using eq by (simp add: R3 Let_def st3_def st1_def)
          moreover have "\<exists>st'. take_match me (st3\<lparr>ms_s := set_same_offset a (ms_s st3), want_i := int a\<rparr>) (int a) = Some (Inr st')
              \<and> at_null me B endp st' \<and> hs_offset st3 \<le> hs_offset st'"
            by (rule marked_match_ok)
              (use r1 o lm lm3 ai a an wx(3) [OF eq] z f(3) in \<open>auto simp: st3_def st1_def bl_def [symmetric] wx_def\<close>)
          ultimately show ?thesis using ai(3) a by (auto simp: st3_def)
        qed
      qed
    qed
  qed
qed

section \<open>The chain and the loop\<close>

definition slot_ok :: "slot \<Rightarrow> int \<Rightarrow> bool" where
  "slot_ok prev i \<longleftrightarrow> (case prev of Bucket h \<Rightarrow> True | Chain j \<Rightarrow> i < int j)"

lemma set_chain_simps [simp]:
  "ss_blength (set_chain a c s) = ss_blength s" "ss_count (set_chain a c s) = ss_count s"
  "ss_s2length (set_chain a c s) = ss_s2length s"
  "sb_len (ss_sums (set_chain a c s) ! j) = sb_len (ss_sums s ! j)"
  by (cases "a < length (ss_sums s)"; cases "a = j"; simp add: set_chain_def list_update_beyond)+

lemma set_slot_frame [simp]:
  "hs_offset (set_slot p c st) = hs_offset st" "last_match (set_slot p c st) = last_match st"
  "hs_sum (set_slot p c st) = hs_sum st" "hs_sum2 (set_slot p c st) = hs_sum2 st"
  "hs_k (set_slot p c st) = hs_k st" "hs_s1 (set_slot p c st) = hs_s1 st" "hs_s2 (set_slot p c st) = hs_s2 st"
  "want_i (set_slot p c st) = want_i st" "aligned_i (set_slot p c st) = aligned_i st"
  "aligned_offset (set_slot p c st) = aligned_offset st"
  "ss_blength (ms_s (set_slot p c st)) = ss_blength (ms_s st)" "ss_count (ms_s (set_slot p c st)) = ss_count (ms_s st)"
  by (cases p; simp)+

lemma set_slot_chain:
  "slot_ok prev i \<Longrightarrow> 0 \<le> i \<Longrightarrow>
     sb_chain (ss_sums (ms_s (set_slot prev c st)) ! nat i) = sb_chain (ss_sums (ms_s st) ! nat i)"
  by (cases prev) (auto simp: slot_ok_def set_chain_def nth_list_update_neq)

lemma at_head_set_slot:
  assumes "at_head me B endp st" "-1 \<le> c" "c < ss_count (ms_s st)" "slot_ok prev c"
  shows "at_head me B endp (set_slot prev c st)"
  using assms run_ok_set_slot [of me B st c prev]
  by (auto simp: at_head_def pos_ok_def Let_def slot_ok_def split: slot.splits)

lemma at_head_null: "at_head me B endp st \<Longrightarrow> at_null me B endp st"
  by (simp add: at_head_def at_null_def)

lemma at_head_locals [simp]: "at_head me B endp (st\<lparr>hs_sum2 := x\<rparr>) = at_head me B endp st"
  "at_head me B endp (st\<lparr>false_alarms := y\<rparr>) = at_head me B endp st"
  "at_head me B endp (st\<lparr>hs_sum := z\<rparr>) = at_head me B endp st"
  "at_head me B endp (st\<lparr>hash_hits := u\<rparr>) = at_head me B endp st"
  by (simp_all add: at_head_def pos_ok_def)

text \<open>Loading the strong sum of the window once per offset.\<close>

lemma load_sum2:
  assumes "at_head me B endp st"
  defines "w \<equiv> seg (me_file me) (nat (hs_offset st)) (nat (ss_blength (ms_s st)))"
    and "l \<equiv> min (ss_blength (ms_s st)) (me_len me - hs_offset st)"
  assumes "dn \<Longrightarrow> hs_sum2 st = me_csum2 me w"
  shows "(if dn then Some (Inr st) else run_bind (map_win me (hs_offset st) l) (\<lambda>mp. Some (Inr (st\<lparr>hs_sum2 := me_csum2 me mp\<rparr>))))
    = Some (Inr (st\<lparr>hs_sum2 := me_csum2 me w\<rparr>))"
proof (cases dn)
  case True
  then show ?thesis using assms(4) by simp
next
  case False
  have r: "run_ok me B st" and o: "0 \<le> hs_offset st" "hs_offset st < me_len me"
    using assms(1) by (auto simp: at_head_def pos_ok_def Let_def)
  note f = run_ok_facts [OF r]
  have "0 < l" using o f(3) by (simp add: l_def)
  moreover have nl: "nat l = min (nat (ss_blength (ms_s st))) (length (me_file me) - nat (hs_offset st))"
    unfolding l_def f(1) using o(1) by (rule nat_min_rest)
  moreover have "nat (hs_offset st) + nat l \<le> length (me_file me)" using nl o f(1) by linarith
  ultimately have "map_win me (hs_offset st) l = Some (Inr w)"
    using o(1) seg_min_length [of "me_file me" "nat (hs_offset st)" "nat (ss_blength (ms_s st))"]
    by (simp only: map_win_def map_view_seg w_def) simp
  then show ?thesis using False by simp
qed

text \<open>A block whose length, weak sum and strong sum are the window's is the window's data.\<close>

lemma block_here_found:
  assumes r: "run_ok me B st" and o: "0 \<le> hs_offset st" "hs_offset st < me_len me"
    and w: "w = seg (me_file me) (nat (hs_offset st)) (nat (ss_blength (ms_s st)))"
    and s: "hs_sum st = ck_sum w" "hs_sum2 st = me_csum2 me w"
    and i: "0 \<le> i" "i < ss_count (ms_s st)" "hs_sum st = sb_sum1 (ss_sums (ms_s st) ! nat i)" "sum2_matches me st i"
    and nb: "\<not> (updating_basis_file me \<and> sb_offset (ss_sums (ms_s st) ! nat i) < hs_offset st \<and> \<not> sb_flags (ss_sums (ms_s st) ! nat i))"
  shows "block_here me B st i"
proof -
  have "sums_tell me B st" by (rule sums_tell_window [OF r o w]) (use s in auto)
  then show ?thesis using i nb unfolding block_here_def sums_tell_def by auto
qed

lemma scan_chain_ok:
  assumes "at_head me B endp st" "0 \<le> i" "i < ss_count (ms_s st)" "nat i < fuel" "slot_ok prev i"
    and "hs_sum st = ck_sum (seg (me_file me) (nat (hs_offset st)) (nat (ss_blength (ms_s st))))"
    and "dn \<Longrightarrow> hs_sum2 st = me_csum2 me (seg (me_file me) (nat (hs_offset st)) (nat (ss_blength (ms_s st))))"
  shows "\<exists>st'. scan_chain fuel me i prev cl dn st = Some (Inr st') \<and> at_null me B endp st' \<and> hs_offset st \<le> hs_offset st'"
  using assms
proof (induction fuel arbitrary: i prev cl dn st)
  case 0
  then show ?case by simp
next
  case (Suc fuel)
  let ?s = "ms_s st" and ?o = "hs_offset st"
  define e where "e = ss_sums ?s ! nat i"
  define l where "l = min (ss_blength ?s) (me_len me - ?o)"
  define w where "w = seg (me_file me) (nat ?o) (nat (ss_blength ?s))"
  have r: "run_ok me B st" and o: "0 \<le> ?o" "?o < me_len me"
    using Suc.prems(1) by (auto simp: at_head_def pos_ok_def Let_def)
  note f = run_ok_facts [OF r]
  have ni: "nat i < nat (ss_count ?s)" "int (nat i) = i" using Suc.prems by auto
  have ch: "-1 \<le> sb_chain e" "sb_chain e < i"
    using r ni f(8) unfolding run_ok_def base_ok_def chains_ok_def e_def by metis+
  define continue where "continue = (\<lambda>prev' cl' dn' st1. let i' = sb_chain (ss_sums (ms_s st1) ! nat i)
        in if i' \<ge> 0 then scan_chain fuel me i' prev' cl' dn' st1 else Some (Inr st1))"
  have cont: "\<exists>st'. continue prev' cl' dn' st1 = Some (Inr st') \<and> at_null me B endp st' \<and> ?o \<le> hs_offset st'"
    if "at_head me B endp st1" "hs_offset st1 = ?o" "ss_blength (ms_s st1) = ss_blength ?s" "ss_count (ms_s st1) = ss_count ?s"
      "sb_chain (ss_sums (ms_s st1) ! nat i) = sb_chain e" "slot_ok prev' (sb_chain e)"
      "hs_sum st1 = ck_sum w" "dn' \<Longrightarrow> hs_sum2 st1 = me_csum2 me w" for st1 prev' cl' dn'
  proof (cases "sb_chain e \<ge> 0")
    case True
    have "nat (sb_chain e) < fuel" using True ch(2) Suc.prems(2,4) by linarith
    then show ?thesis using Suc.IH [of st1 "sb_chain e" prev' dn' cl'] that True ch(2) Suc.prems(3)
      by (simp add: w_def continue_def)
  next
    case False
    then show ?thesis using that at_head_null by (simp add: Let_def continue_def)
  qed
  have next_slot: "slot_ok (Chain (nat i)) (sb_chain e)" using ch ni by (simp add: slot_ok_def)
  have unf: "scan_chain (Suc fuel) me i prev cl dn st =
     (if updating_basis_file me \<and> sb_offset e < ?o \<and> \<not> sb_flags e
      then continue prev cl dn (set_slot prev (sb_chain e) st)
      else if hs_sum st \<noteq> sb_sum1 e then continue (Chain (nat i)) cl dn st
      else if cl + 1 > MAX_CHAIN_LEN then Some (Inr st)
      else if l \<noteq> sb_len e then continue (Chain (nat i)) (cl + 1) dn st
      else run_bind (if dn then Some (Inr st)
             else run_bind (map_win me ?o l) (\<lambda>mp. Some (Inr (st\<lparr>hs_sum2 := me_csum2 me mp\<rparr>)))) (\<lambda>st1.
           if \<not> sum2_matches me st1 i
           then continue (Chain (nat i)) (cl + 1) True (st1\<lparr>false_alarms := false_alarms st1 + 1\<rparr>)
           else run_bind (realign me st1 i l) (\<lambda>(st2, i2). take_match me st2 i2)))"
    by (simp only: scan_chain.simps Let_def e_def l_def continue_def)
  show ?case
  proof (cases "updating_basis_file me \<and> sb_offset e < ?o \<and> \<not> sb_flags e")
    case bypass: True
    have "slot_ok prev (sb_chain e)" using Suc.prems(5) ch(2) by (auto simp: slot_ok_def split: slot.splits)
    then show ?thesis
      unfolding unf if_P [OF bypass] using Suc.prems ch set_slot_chain [OF Suc.prems(5,2)]
      by (intro cont at_head_set_slot) (auto simp: w_def e_def)
  next
    case nb: False
    define st1 where "st1 = st\<lparr>hs_sum2 := me_csum2 me w\<rparr>"
    have h1: "at_head me B endp st1" "run_ok me B st1" using Suc.prems(1) r by (simp_all add: st1_def)
    have sum2: "(if dn then Some (Inr st) else run_bind (map_win me ?o l) (\<lambda>mp. Some (Inr (st\<lparr>hs_sum2 := me_csum2 me mp\<rparr>))))
        = Some (Inr st1)"
      unfolding st1_def w_def l_def by (rule load_sum2 [OF Suc.prems(1,7)])
    have plain: "\<exists>st'. continue (Chain (nat i)) cl' dn st = Some (Inr st') \<and> at_null me B endp st' \<and> ?o \<le> hs_offset st'" for cl'
      using Suc.prems next_slot by (intro cont) (auto simp: w_def e_def)
    have alarm: "\<exists>st'. continue (Chain (nat i)) cl' True (st1\<lparr>false_alarms := n\<rparr>) = Some (Inr st')
        \<and> at_null me B endp st' \<and> ?o \<le> hs_offset st'" for cl' n
      using Suc.prems next_slot h1(1) by (intro cont) (auto simp: w_def e_def st1_def)
    have found: "\<exists>st'. run_bind (realign me st1 i l) (\<lambda>(st2, i2). take_match me st2 i2) = Some (Inr st')
        \<and> at_null me B endp st' \<and> ?o \<le> hs_offset st'"
      if "hs_sum st = sb_sum1 e" "sum2_matches me st1 i"
    proof -
      have "block_here me B st1 i"
        by (rule block_here_found [OF h1(2), of w]) (use Suc.prems that nb o in \<open>auto simp: st1_def w_def e_def\<close>)
      then show ?thesis
        using found_ok [OF h1(1), of i w l] Suc.prems(6) by (simp add: st1_def w_def l_def)
    qed
    show ?thesis
      unfolding unf if_not_P [OF nb] sum2 run_bind_simps using plain alarm found Suc.prems(1) at_head_null by auto
  qed
qed

lemma search_body_ok:
  assumes h: "at_head me B endp st"
  shows "\<exists>st'. search_body me endp st = Some (Inr st') \<and> run_ok me B st' \<and> hs_offset st \<le> hs_offset st'
    \<and> hs_offset st' < me_len me
    \<and> pos_ok me endp (hs_offset st' + 1) st' \<and> last_match st' \<le> hs_offset st' + 1"
proof -
  let ?w = "seg (me_file me) (nat (hs_offset st)) (nat (ss_blength (ms_s st)))"
  define sm where "sm = (hs_s1 st AND 0xffff) OR push_bit 16 (hs_s2 st)"
  have r: "run_ok me B st" using h by (simp add: at_head_def)
  have sm: "sm = ck_sum ?w"
    unfolding sm_def by (rule rolled_pack) (use h in \<open>simp add: at_head_def pos_ok_def Let_def\<close>)
  define h' where "h' = (if tablesize st = TRADITIONAL_TABLESIZE then SUM2HASH2 (hs_s1 st) (hs_s2 st)
      else BIG_SUM2HASH (tablesize st) sm)"
  define i where "i = hash_table st h'"
  have i: "-1 \<le> i" "i < ss_count (ms_s st)"
    using r by (auto simp: i_def run_ok_def base_ok_def chains_ok_def)
  have "\<exists>st1. search_body me endp st = null_hash me endp st1 \<and> at_null me B endp st1 \<and> hs_offset st \<le> hs_offset st1"
  proof (cases "i < 0")
    case True
    then show ?thesis using at_head_null [OF h] at_head_null [of me B endp "st\<lparr>hs_sum := sm\<rparr>"] h
      by (auto simp: search_body_def Let_def sm_def [symmetric] h'_def [symmetric] i_def [symmetric])
  next
    case False
    have "\<exists>st'. scan_chain (Suc (nat i)) me i (Bucket h') 0 False (st\<lparr>hs_sum := sm, hash_hits := hash_hits st + 1\<rparr>) = Some (Inr st')
        \<and> at_null me B endp st' \<and> hs_offset (st\<lparr>hs_sum := sm, hash_hits := hash_hits st + 1\<rparr>) \<le> hs_offset st'"
      by (rule scan_chain_ok) (use h i False sm in \<open>simp_all add: slot_ok_def\<close>)
    then obtain st1 where "scan_chain (Suc (nat i)) me i (Bucket h') 0 False (st\<lparr>hs_sum := sm, hash_hits := hash_hits st + 1\<rparr>)
        = Some (Inr st1)" "at_null me B endp st1" "hs_offset st \<le> hs_offset st1" by auto
    then show ?thesis using False
      by (simp add: search_body_def Let_def sm_def [symmetric] h'_def [symmetric] i_def [symmetric] del: scan_chain.simps) blast
  qed
  then obtain st1 where s1: "search_body me endp st = null_hash me endp st1" "at_null me B endp st1" "hs_offset st \<le> hs_offset st1"
    by blast
  then show ?thesis using null_hash_ok [OF s1(2)] by (auto simp: at_null_def)
qed

lemma search_loop_ok:
  assumes "at_head me B endp st" "endp \<le> me_len me" "nat (me_len me - hs_offset st) < fuel"
  shows "\<exists>st'. search_loop fuel me endp st = Some (Inr st') \<and> run_ok me B st' \<and> endp \<le> hs_offset st'
    \<and> pos_ok me endp (hs_offset st') st'"
  using assms
proof (induction fuel arbitrary: st)
  case 0
  then show ?case by simp
next
  case (Suc fuel)
  obtain st1 where s1: "search_body me endp st = Some (Inr st1)" "run_ok me B st1" "hs_offset st \<le> hs_offset st1"
      "hs_offset st1 < me_len me" "pos_ok me endp (hs_offset st1 + 1) st1" "last_match st1 \<le> hs_offset st1 + 1"
    using search_body_ok [OF Suc.prems(1)] by blast
  define st2 where "st2 = st1\<lparr>hs_offset := hs_offset st1 + 1\<rparr>"
  have p2: "run_ok me B st2" "pos_ok me endp (hs_offset st2) st2" "last_match st2 \<le> hs_offset st2"
    using s1 by (simp_all add: st2_def pos_ok_def)
  show ?case
  proof (cases "hs_offset st2 < endp")
    case True
    then have "at_head me B endp st2" using p2 Suc.prems(2) by (auto simp: at_head_def)
    moreover have "nat (me_len me - hs_offset st2) < fuel"
      using s1(3,4) Suc.prems(3) by (simp add: st2_def)
    ultimately show ?thesis using Suc.IH [of st2] Suc.prems(2) s1(1) True
      by (simp add: Let_def) (simp add: st2_def)
  next
    case False
    then show ?thesis using s1(1) p2 by (simp add: Let_def) (simp add: st2_def)
  qed
qed

text \<open>The whole search: with fuel for every offset it returns, and everything is sent.\<close>

lemma hash_search_ok:
  assumes r: "run_ok me B st" and lm: "last_match st = 0" and len: "0 < me_len me" and fuel: "nat (me_len me) < fuel"
  shows "\<exists>st'. hash_search fuel me st = Some (Inr st') \<and> sent_ok me B st' \<and> last_match st' = me_len me
    \<and> calls_ok (me_file me) (ss_count (ms_s st')) (ms_calls st') \<and> tiles (ms_s st') (length B)"
proof -
  note f = run_ok_facts [OF r]
  define c where "c = nat (ss_count (ms_s st) - 1)"
  have c: "c < nat (ss_count (ms_s st))" using f(5) by (simp add: c_def)
  define ll where "ll = sb_len (ss_sums (ms_s st) ! c)"
  have t: "tiles (ms_s st) (length B)" using f(2) by (simp add: wf_sums_def)
  have ll: "1 \<le> ll" "ll \<le> ss_blength (ms_s st)"
  proof -
    have "ll = int (length (block (ms_s st) B c))" using wf_sums_entry(2) [OF f(2) c] by (simp add: ll_def)
    also have "\<dots> = (if int c = ss_count (ms_s st) - 1 \<and> ss_remainder (ms_s st) \<noteq> 0 then ss_remainder (ms_s st) else ss_blength (ms_s st))"
      by (rule tiles_block_length(2) [OF t c])
    finally show "1 \<le> ll" "ll \<le> ss_blength (ms_s st)" using t by (auto simp: tiles_def)
  qed
  define endp where "endp = me_len me + 1 - ll"
  define st0 where "st0 = st\<lparr>want_i := 0, hs_offset := 0, aligned_offset := 0, aligned_i := 0,
                                   hs_sum2 := replicate MAX_DIGEST_LEN 0\<rparr>"
  have r0: "run_ok me B st0" using r by (simp add: st0_def)
  obtain s1 s2 where lw: "load_window me st0 = Some (Inr (st0\<lparr>hs_k := min (ss_blength (ms_s st0)) (me_len me - hs_offset st0),
      hs_sum := ck_sum (seg (me_file me) (nat (hs_offset st0)) (nat (ss_blength (ms_s st0)))), hs_s1 := s1, hs_s2 := s2\<rparr>))"
    and rl: "rolled s1 s2 (seg (me_file me) (nat (hs_offset st0)) (nat (ss_blength (ms_s st0))))"
    using load_window_ok [OF r0] len by (auto simp: st0_def)
  define st1 where "st1 = st0\<lparr>hs_k := min (ss_blength (ms_s st0)) (me_len me - hs_offset st0),
      hs_sum := ck_sum (seg (me_file me) (nat (hs_offset st0)) (nat (ss_blength (ms_s st0)))), hs_s1 := s1, hs_s2 := s2\<rparr>"
  have "0 \<le> lag (ss_blength (ms_s st)) endp 0"
    using lag_bound(2) [of "ss_blength (ms_s st)" endp 0] f(3) by (simp add: CHUNK_SIZE_def)
  then have h1: "at_head me B endp st1"
    using r0 rl len lm f(3) unfolding at_head_def pos_ok_def Let_def by (simp add: st1_def) (simp add: st0_def)
  have "nat (me_len me - hs_offset st1) < fuel" using fuel by (simp add: st1_def st0_def)
  then obtain st2 where s2: "search_loop fuel me endp st1 = Some (Inr st2)" "run_ok me B st2" "endp \<le> hs_offset st2"
      "pos_ok me endp (hs_offset st2) st2"
    using search_loop_ok [OF h1] ll by (auto simp: endp_def)
  have hs: "hash_search fuel me st = Some (Inr (matched me st2 (me_len me) (-1)))"
    using lw s2(1) by (simp add: hash_search_def Let_def c_def [symmetric] ll_def [symmetric] endp_def [symmetric]
        st0_def [symmetric] st1_def [symmetric])
  note f2 = run_ok_facts [OF s2(2)]
  have "hs_offset st2 - last_match st2 \<le> ss_blength (ms_s st2) + 65537"
    using s2(4) lag_bound(1) [of "ss_blength (ms_s st2)" endp "hs_offset st2"] by (auto simp: pos_ok_def Let_def)
  then have "me_len me - last_match st2 < 2 ^ 31" using s2(3) ll f(4) f2(4) by (simp add: endp_def)
  then have fin: "last_match st2 \<le> me_len me" "me_len me - last_match st2 < 2 ^ 31" using f2(7) by simp_all
  have b2: "base_ok me B st2" using s2(2) by (simp add: run_ok_def)
  have "sent_ok me B (matched me st2 (me_len me) (-1))" "last_match (matched me st2 (me_len me) (-1)) = me_len me"
    using sent_ok_literal [of me B st2 "me_len me" "-1"] b2 fin matched_simps(2) [OF fin] by (simp_all add: base_ok_def)
  moreover have "calls_ok (me_file me) (ss_count (ms_s st2)) (ms_calls (matched me st2 (me_len me) (-1)))"
    using b2 matched_call_range [OF b2 fin] matched_simps(1) [OF fin, of me "-1"] by (simp add: base_ok_def calls_ok_def)
  moreover have "tiles (ms_s st2) (length B)" using b2 by (simp add: base_ok_def wf_sums_def)
  ultimately show ?thesis using hs by (auto simp: matched_simps(2))
qed

section \<open>The hash table is well formed\<close>

lemma enter_blocks_ok:
  assumes "i + n = length (ss_sums (ms_s st))"
    and "\<forall>j<i. -1 \<le> sb_chain (ss_sums (ms_s st) ! j) \<and> sb_chain (ss_sums (ms_s st) ! j) < int j"
    and "\<forall>h. -1 \<le> hash_table st h \<and> hash_table st h < int i"
  shows "let st' = enter_blocks n i st in same_sums (ms_s st) (ms_s st')
    \<and> (\<forall>j. sb_flags (ss_sums (ms_s st') ! j) = sb_flags (ss_sums (ms_s st) ! j))
    \<and> (\<forall>j<length (ss_sums (ms_s st)). -1 \<le> sb_chain (ss_sums (ms_s st') ! j) \<and> sb_chain (ss_sums (ms_s st') ! j) < int j)
    \<and> (\<forall>h. -1 \<le> hash_table st' h \<and> hash_table st' h < int (length (ss_sums (ms_s st))))
    \<and> last_match st' = last_match st \<and> ms_calls st' = ms_calls st \<and> ms_fed st' = ms_fed st"
  using assms
proof (induction n arbitrary: i st)
  case 0
  then show ?case by (simp add: same_sums_def)
next
  case (Suc n)
  define t where "t = hash_of (tablesize st) (sb_sum1 (ss_sums (ms_s st) ! i))"
  define st1 where "st1 = st\<lparr>ms_s := set_chain i (hash_table st t) (ms_s st), hash_table := (hash_table st)(t := int i)\<rparr>"
  have same: "same_sums (ms_s st) (ms_s st1)" by (simp add: st1_def same_sums_set_chain)
  then have l1: "length (ss_sums (ms_s st1)) = length (ss_sums (ms_s st))" by (simp add: same_sums_def)
  have "-1 \<le> sb_chain (ss_sums (ms_s st1) ! j) \<and> sb_chain (ss_sums (ms_s st1) ! j) < int j" if "j < Suc i" for j
    using Suc.prems that by (cases "j = i") (auto simp: st1_def set_chain_def)
  moreover have "-1 \<le> hash_table st1 h \<and> hash_table st1 h < int (Suc i)" for h
    using Suc.prems(3) by (auto simp: st1_def intro: less_trans)
  ultimately have IH: "let st' = enter_blocks n (Suc i) st1 in same_sums (ms_s st1) (ms_s st')
    \<and> (\<forall>j. sb_flags (ss_sums (ms_s st') ! j) = sb_flags (ss_sums (ms_s st1) ! j))
    \<and> (\<forall>j<length (ss_sums (ms_s st1)). -1 \<le> sb_chain (ss_sums (ms_s st') ! j) \<and> sb_chain (ss_sums (ms_s st') ! j) < int j)
    \<and> (\<forall>h. -1 \<le> hash_table st' h \<and> hash_table st' h < int (length (ss_sums (ms_s st1))))
    \<and> last_match st' = last_match st1 \<and> ms_calls st' = ms_calls st1 \<and> ms_fed st' = ms_fed st1"
    using Suc.prems(1) l1 by (intro Suc.IH) auto
  have fl: "sb_flags (ss_sums (ms_s st1) ! j) = sb_flags (ss_sums (ms_s st) ! j)" for j
    by (simp add: st1_def flags_set_chain)
  have eq: "enter_blocks (Suc n) i st = enter_blocks n (Suc i) st1" by (simp add: t_def st1_def Let_def)
  show ?case
    using IH same unfolding eq Let_def l1 fl by (auto simp: st1_def same_sums_def)
qed

lemma build_hash_table_ok:
  fixes s :: sum_struct and me :: menv
  assumes d: "describes (me_cf me) (me_csum2 me) s B" and c: "0 < ss_count s" "ss_blength s \<le> OLD_MAX_BLOCK_SIZE"
    and len: "me_len me = int (length (me_file me))"
    and h: "no_collision me s B" "zero_windows me s"
  shows "run_ok me B (build_hash_table (match_init s))" "last_match (build_hash_table (match_init s)) = 0"
proof -
  let ?st = "(match_init s)\<lparr>tablesize := pick_tablesize (ss_count s), hash_table := (\<lambda>_. -1)\<rparr>"
  define st' where "st' = enter_blocks (nat (ss_count s)) 0 ?st"
  have b: "build_hash_table (match_init s) = st'"
    by (simp add: build_hash_table_def st'_def match_init_def)
  have ls: "length (ss_sums s) = nat (ss_count s)" using d by (simp add: describes_def)
  have e: "same_sums s (ms_s st') \<and> (\<forall>j. sb_flags (ss_sums (ms_s st') ! j) = sb_flags (ss_sums s ! j))
    \<and> (\<forall>j<length (ss_sums s). -1 \<le> sb_chain (ss_sums (ms_s st') ! j) \<and> sb_chain (ss_sums (ms_s st') ! j) < int j)
    \<and> (\<forall>h. -1 \<le> hash_table st' h \<and> hash_table st' h < int (length (ss_sums s)))
    \<and> last_match st' = 0 \<and> ms_calls st' = [] \<and> ms_fed st' = []"
    using enter_blocks_ok [of 0 "nat (ss_count s)" ?st] ls by (simp add: st'_def Let_def match_init_def)
  have wf: "wf_sums me s B" using d c by (simp add: describes_def wf_sums_def)
  have ss: "same_sums s (ms_s st')" using e by simp
  have "flags_ok me B (ms_s st') 0"
    using e ss d unfolding flags_ok_def same_sums_def describes_def by (auto simp: all_set_conv_all_nth)
  moreover have "chains_ok (ms_s st') (hash_table st')"
    using e ss ls c(1) unfolding chains_ok_def same_sums_def by auto
  moreover have "sent_ok me B st'" using e len by (simp add: sent_ok_def recon_def inplace_def)
  ultimately show "run_ok me B (build_hash_table (match_init s))"
    using same_sums_wf [OF ss wf] h len ss e same_sums_block [OF ss]
    by (simp add: b run_ok_def base_ok_def no_collision_def zero_windows_def same_sums_def)
  show "last_match (build_hash_table (match_init s)) = 0" using e by (simp add: b)
qed

section \<open>Literal data only\<close>

lemma literal_step_ok:
  assumes "last_match st = int a" "a \<le> b" "b \<le> length (me_file me)" "b - a < 2 ^ 31" "i < 0"
  shows "recon s (me_file me) B (ms_calls (matched me st (int b) i)) = recon s (me_file me) B (ms_calls st) @ seg (me_file me) a (b - a)"
    "xfer_sum_len (me_cf me) \<noteq> 0 \<Longrightarrow> ms_fed (matched me st (int b) i) = ms_fed st @ seg (me_file me) a (b - a)"
    "last_match (matched me st (int b) i) = int b"
proof -
  have o: "last_match st \<le> int b" "int b - last_match st < 2 ^ 31" using assms by auto
  have n: "int b - int a = int (b - a)" using assms(2) by simp
  have fs: "feed_sum (me_file me) (int a) 0 (int (b - a)) = seg (me_file me) a (b - a)"
    using feed_sum_view [of "int a" 0 "int (b - a)" "me_file me"] assms(2,3) by (simp del: of_nat_diff)
  note ms = matched_simps [OF o, of me i, unfolded assms(1) n]
  show "recon s (me_file me) B (ms_calls (matched me st (int b) i)) = recon s (me_file me) B (ms_calls st) @ seg (me_file me) a (b - a)"
    unfolding ms(1) recon_snoc using assms(5) by (simp add: recon_call_def del: of_nat_diff)
  show "ms_fed (matched me st (int b) i) = ms_fed st @ seg (me_file me) a (b - a)" if "xfer_sum_len (me_cf me) \<noteq> 0"
    using ms(3) [OF that] fs assms(5) by (simp del: of_nat_diff)
  show "last_match (matched me st (int b) i) = int b" using ms(2) assms(5) by simp
qed

lemma literal_loop_ok:
  assumes len: "me_len me = int (length (me_file me))" and step: "0 < step" "step < 2 ^ 31"
    and "last_match st = int a" "a \<le> length (me_file me)" "length (me_file me) - a < fuel"
  shows "\<exists>st' b. literal_loop fuel me (int step) (int (a + step)) st = Some (Inr st') \<and> last_match st' = int b
    \<and> a \<le> b \<and> b \<le> length (me_file me) \<and> length (me_file me) - b \<le> step
    \<and> recon s (me_file me) B (ms_calls st') = recon s (me_file me) B (ms_calls st) @ seg (me_file me) a (b - a)
    \<and> (xfer_sum_len (me_cf me) \<noteq> 0 \<longrightarrow> ms_fed st' = ms_fed st @ seg (me_file me) a (b - a))
    \<and> ms_s st' = ms_s st"
  using assms(4-)
proof (induction fuel arbitrary: a st)
  case 0
  then show ?case by simp
next
  case (Suc fuel)
  let ?F = "me_file me"
  show ?case
  proof (cases "a + step < length ?F")
    case False
    then show ?thesis using Suc.prems len by (intro exI [of _ st] exI [of _ a]) auto
  next
    case True
    define st1 where "st1 = matched me st (int (a + step)) (-2)"
    have s1: "recon s ?F B (ms_calls st1) = recon s ?F B (ms_calls st) @ seg ?F a step"
        "xfer_sum_len (me_cf me) \<noteq> 0 \<Longrightarrow> ms_fed st1 = ms_fed st @ seg ?F a step" "last_match st1 = int (a + step)"
      using literal_step_ok [OF Suc.prems(1), of "a + step" me "-2"] True step by (simp_all add: st1_def)
    obtain st' b where st': "literal_loop fuel me (int step) (int (a + step + step)) st1 = Some (Inr st')" "last_match st' = int b"
      "a + step \<le> b" "b \<le> length ?F" "length ?F - b \<le> step"
      "recon s ?F B (ms_calls st') = recon s ?F B (ms_calls st1) @ seg ?F (a + step) (b - (a + step))"
      "xfer_sum_len (me_cf me) \<noteq> 0 \<longrightarrow> ms_fed st' = ms_fed st1 @ seg ?F (a + step) (b - (a + step))" "ms_s st' = ms_s st1"
    proof -
      have "a + step \<le> length ?F" "length ?F - (a + step) < fuel" using True Suc.prems(3) step by linarith+
      from Suc.IH [OF s1(3) this] that show thesis by blast
    qed
    have "step + (b - (a + step)) = b - a" using st'(3) by simp
    then have sg: "seg ?F a step @ seg ?F (a + step) (b - (a + step)) = seg ?F a (b - a)" by (simp add: seg_append)
    have "literal_loop (Suc fuel) me (int step) (int (a + step)) st = Some (Inr st')"
      using True len st'(1) by (simp add: st1_def add.assoc)
    then show ?thesis
      using st' s1 sg by (intro exI [of _ st'] exI [of _ b]) (auto simp: st1_def)
  qed
qed

section \<open>The block length never changes\<close>

lemma run_bind_Inr: "run_bind m f = Some (Inr y) \<longleftrightarrow> (\<exists>x. m = Some (Inr x) \<and> f x = Some (Inr y))"
  by (auto simp: run_bind_def split: option.splits sum.splits)

lemma load_window_bl: "load_window me st = Some (Inr st') \<Longrightarrow> ms_s st' = ms_s st"
  by (auto simp: load_window_def Let_def run_bind_Inr)

lemma take_match_bl: "take_match me st i = Some (Inr st') \<Longrightarrow> ms_s st' = ms_s st"
  by (auto simp: take_match_def Let_def run_bind_Inr dest!: load_window_bl)

lemma null_hash_bl: "null_hash me endp st = Some (Inr st') \<Longrightarrow> ms_s st' = ms_s st"
  unfolding null_hash_def Let_def run_bind_Inr
proof (elim exE conjE)
  fix mp
  let ?bk = "nat (max 0 (to_int32 (hs_offset st - last_match st)))"
  assume *: "(case drop ?bk mp of [] \<Rightarrow> Some (Inl RERR_CRASHED)
      | c # cs \<Rightarrow> case roll_checksum1 (hs_s1 st) (hs_s2 st) (nat (hs_k st)) c
          (if hs_offset st + hs_k st < me_len me then Some ((c # cs) ! nat (hs_k st)) else None) of
          (s1', s2') \<Rightarrow> Some (Inr (if ss_blength (ms_s st) + CHUNK_SIZE \<le> max 0 (to_int32 (hs_offset st - last_match st))
              \<and> CHUNK_SIZE < endp - hs_offset st
            then matched me (st\<lparr>hs_s1 := s1', hs_s2 := s2', hs_k := if hs_offset st + hs_k st < me_len me then hs_k st else hs_k st - 1\<rparr>)
                   (hs_offset st - ss_blength (ms_s st)) (- 2)
            else st\<lparr>hs_s1 := s1', hs_s2 := s2', hs_k := if hs_offset st + hs_k st < me_len me then hs_k st else hs_k st - 1\<rparr>)))
    = Some (Inr st')"
  then show ?thesis
    by (cases "drop ?bk mp") (simp_all add: case_prod_beta, auto)
qed

lemma realign_bl:
  assumes "realign me st i l = Some (Inr (st', j))"
  shows "ss_blength (ms_s st') = ss_blength (ms_s st)"
proof (cases "updating_basis_file me")
  case False
  then show ?thesis using assms by (simp add: realign_def)
next
  case upd: True
  obtain ao ai where al: "align_loop (nat (hs_offset st - aligned_offset st)) (ss_blength (ms_s st)) (hs_offset st)
      (aligned_offset st) (aligned_i st) = Some (ao, ai)"
    using assms upd by (auto simp: realign_def split: option.splits)
  note R = realign_upd [OF upd al, of l i]
  let ?bk = "max 0 (to_int32 (ao - last_match st))"
  let ?C = "((hs_offset st = ao \<or> hs_sum st = 0 \<and> l = ss_blength (ms_s st) \<and> ao + l \<le> me_len me) \<and> ai < ss_count (ms_s st))"
  let ?M = "i \<noteq> ai \<and> (hs_sum st \<noteq> sb_sum1 (ss_sums (ms_s st) ! nat ai) \<or> l \<noteq> sb_len (ss_sums (ms_s st) ! nat ai)
       \<or> \<not> sum2_matches me st ai)"
  show ?thesis
  proof (cases "\<not> ?C \<or> ?M")
    case True
    then show ?thesis using R(1) assms by auto
  next
    case cm: False
    show ?thesis
    proof (cases "hs_offset st = ao")
      case True
      then show ?thesis using R(2) assms cm by auto
    next
      case False
      have "\<exists>mp. map_win me (ao - ?bk) (l + ?bk) = Some (Inr mp)"
      proof (rule ccontr)
        assume "\<nexists>mp. map_win me (ao - ?bk) (l + ?bk) = Some (Inr mp)"
        then have "map_win me (ao - ?bk) (l + ?bk) = Some (Inl RERR_FILEIO)" by (auto simp: map_win_def split: if_splits)
        then show False using assms False cm upd al by (auto simp: realign_def Let_def)
      qed
      then obtain mp where "map_win me (ao - ?bk) (l + ?bk) = Some (Inr mp)" by blast
      then show ?thesis using R(3) [of mp] assms cm False by (auto simp: Let_def split: if_split_asm)
    qed
  qed
qed

lemma scan_chain_bl:
  "scan_chain fuel me i prev cl dn st = Some (Inr st') \<Longrightarrow> ss_blength (ms_s st') = ss_blength (ms_s st)"
proof (induction fuel arbitrary: i prev cl dn st)
  case (Suc fuel)
  define e where "e = ss_sums (ms_s st) ! nat i"
  define l where "l = min (ss_blength (ms_s st)) (me_len me - hs_offset st)"
  define continue where "continue = (\<lambda>prev' cl' dn' st1. let i' = sb_chain (ss_sums (ms_s st1) ! nat i)
        in if i' \<ge> 0 then scan_chain fuel me i' prev' cl' dn' st1 else Some (Inr st1))"
  have cont: "ss_blength (ms_s st') = ss_blength (ms_s st)"
    if "continue prev' cl' dn' st1 = Some (Inr st')" "ss_blength (ms_s st1) = ss_blength (ms_s st)" for prev' cl' dn' st1
    using that Suc.IH by (auto simp: continue_def Let_def split: if_splits)
  have found: "ss_blength (ms_s st') = ss_blength (ms_s st)"
    if "run_bind (realign me st1 i l) (\<lambda>(st2, i2). take_match me st2 i2) = Some (Inr st')"
      "ss_blength (ms_s st1) = ss_blength (ms_s st)" for st1
    using that by (auto simp: run_bind_Inr dest!: realign_bl take_match_bl)
  have unf: "scan_chain (Suc fuel) me i prev cl dn st =
     (if updating_basis_file me \<and> sb_offset e < hs_offset st \<and> \<not> sb_flags e
      then continue prev cl dn (set_slot prev (sb_chain e) st)
      else if hs_sum st \<noteq> sb_sum1 e then continue (Chain (nat i)) cl dn st
      else if cl + 1 > MAX_CHAIN_LEN then Some (Inr st)
      else if l \<noteq> sb_len e then continue (Chain (nat i)) (cl + 1) dn st
      else run_bind (if dn then Some (Inr st)
             else run_bind (map_win me (hs_offset st) l) (\<lambda>mp. Some (Inr (st\<lparr>hs_sum2 := me_csum2 me mp\<rparr>)))) (\<lambda>st1.
           if \<not> sum2_matches me st1 i
           then continue (Chain (nat i)) (cl + 1) True (st1\<lparr>false_alarms := false_alarms st1 + 1\<rparr>)
           else run_bind (realign me st1 i l) (\<lambda>(st2, i2). take_match me st2 i2)))"
    by (simp only: scan_chain.simps Let_def e_def l_def continue_def)
  have last: "ss_blength (ms_s st') = ss_blength (ms_s st)"
    if "(if \<not> sum2_matches me st1 i then continue (Chain (nat i)) (cl + 1) True (st1\<lparr>false_alarms := false_alarms st1 + 1\<rparr>)
         else run_bind (realign me st1 i l) (\<lambda>(st2, i2). take_match me st2 i2)) = Some (Inr st')"
      "ss_blength (ms_s st1) = ss_blength (ms_s st)" for st1
    using that cont [of "Chain (nat i)" "cl + 1" True "st1\<lparr>false_alarms := false_alarms st1 + 1\<rparr>"] found [of st1]
    by (simp split: if_splits)
  have load: "ss_blength (ms_s st1) = ss_blength (ms_s st)"
    if "(if dn then Some (Inr st) else run_bind (map_win me (hs_offset st) l) (\<lambda>mp. Some (Inr (st\<lparr>hs_sum2 := me_csum2 me mp\<rparr>))))
      = Some (Inr st1)" for st1
    using that by (auto simp: run_bind_Inr split: if_splits)
  define X where "X = (if dn then Some (Inr st) else run_bind (map_win me (hs_offset st) l)
      (\<lambda>mp. Some (Inr (st\<lparr>hs_sum2 := me_csum2 me mp\<rparr>))))"
  note unf' = unf [folded X_def]
  show ?case
  proof (cases "updating_basis_file me \<and> sb_offset e < hs_offset st \<and> \<not> sb_flags e")
    case True
    have "continue prev cl dn (set_slot prev (sb_chain e) st) = Some (Inr st')"
      using Suc.prems unfolding unf' if_P [OF True] .
    then show ?thesis by (rule cont) simp
  next
    case nb: False
    show ?thesis
    proof (cases "hs_sum st \<noteq> sb_sum1 e \<or> cl + 1 > MAX_CHAIN_LEN \<or> l \<noteq> sb_len e")
      case True
      then have "(\<exists>cl'. continue (Chain (nat i)) cl' dn st = Some (Inr st')) \<or> st' = st"
        using Suc.prems unfolding unf' if_not_P [OF nb] by (auto split: if_split_asm)
      then show ?thesis using cont [of "Chain (nat i)" _ dn st] by blast
    next
      case False
      then have "run_bind X (\<lambda>st1.
           if \<not> sum2_matches me st1 i
           then continue (Chain (nat i)) (cl + 1) True (st1\<lparr>false_alarms := false_alarms st1 + 1\<rparr>)
           else run_bind (realign me st1 i l) (\<lambda>(st2, i2). take_match me st2 i2)) = Some (Inr st')"
        using Suc.prems unfolding unf' if_not_P [OF nb] by simp
      then show ?thesis unfolding run_bind_Inr [of X] using load [folded X_def] last by blast
    qed
  qed
qed simp

lemma search_loop_bl:
  "search_loop fuel me endp st = Some (Inr st') \<Longrightarrow> ss_blength (ms_s st') = ss_blength (ms_s st)"
proof (induction fuel arbitrary: st)
  case (Suc fuel)
  obtain st1 where b: "search_body me endp st = Some (Inr st1)"
    and r: "(let st2 = st1\<lparr>hs_offset := hs_offset st1 + 1\<rparr>
        in if hs_offset st2 < endp then search_loop fuel me endp st2 else Some (Inr st2)) = Some (Inr st')"
    using Suc.prems by (auto simp: run_bind_Inr)
  have "ss_blength (ms_s st1) = ss_blength (ms_s st)"
    using b unfolding search_body_def Let_def
    by (simp split: if_splits add: run_bind_Inr del: scan_chain.simps) (auto dest!: null_hash_bl scan_chain_bl simp del: scan_chain.simps)
  then show ?case using r Suc.IH by (auto simp: Let_def split: if_splits)
qed simp

lemma hash_search_bl:
  "hash_search fuel me st = Some (Inr st') \<Longrightarrow> ss_blength (ms_s st') = ss_blength (ms_s st)"
  by (auto simp: hash_search_def Let_def run_bind_Inr dest!: search_loop_bl load_window_bl)

section \<open>Properties\<close>

lemma tiles_unique:
  assumes "tiles s n" "tiles s' n" "ss_blength s = ss_blength s'" shows "ss_count s = ss_count s'"
proof -
  have "i < nat (ss_count s) \<longleftrightarrow> i < nat (ss_count s')" for i
    using tiles_count [OF assms(1)] tiles_count [OF assms(2)] assms(3) by simp
  from this [of "nat (ss_count s)"] this [of "nat (ss_count s')"] have "nat (ss_count s) = nat (ss_count s')" by (metis less_irrefl linorder_neqE_nat)
  moreover have "0 \<le> ss_count s" "0 \<le> ss_count s'" using assms(1,2) by (simp_all add: tiles_def)
  ultimately show ?thesis by linarith
qed

lemma match_sums_search:
  assumes d: "describes (me_cf me) (me_csum2 me) s B" and len: "me_len me = int (length (me_file me))"
    and a: "append_mode (me_cf me) \<le> 0" and c: "0 < ss_count s" "ss_blength s \<le> OLD_MAX_BLOCK_SIZE"
    and h: "no_collision me s B" "zero_windows me s" and F: "me_file me \<noteq> []" and fuel: "length (me_file me) < fuel"
  shows "\<exists>st'. match_sums fuel me literal_step s = Some (Inr st') \<and> sent_ok me B st' \<and> last_match st' = me_len me
    \<and> ss_blength (ms_s st') = ss_blength s \<and> calls_ok (me_file me) (ss_count s) (ms_calls st')"
proof -
  have l0: "0 < me_len me" using len F by simp
  have m: "match_sums fuel me literal_step s = hash_search fuel me (build_hash_table (match_init s))"
    using a c(1) l0 by (simp add: match_sums_def skip_appended_def match_init_def Let_def)
  note b = build_hash_table_ok [OF d c len h]
  obtain st' where st': "hash_search fuel me (build_hash_table (match_init s)) = Some (Inr st')" "sent_ok me B st'"
      "last_match st' = me_len me" "calls_ok (me_file me) (ss_count (ms_s st')) (ms_calls st')" "tiles (ms_s st') (length B)"
    using hash_search_ok [OF b l0] fuel len by auto
  have "ss_blength (ms_s (build_hash_table (match_init s))) = ss_blength s"
  proof -
    have "ss_blength (ms_s (enter_blocks n i st)) = ss_blength (ms_s st)" for n i st
      by (induction n arbitrary: i st) (simp_all add: Let_def)
    then show ?thesis by (simp add: build_hash_table_def match_init_def)
  qed
  then have bl: "ss_blength (ms_s st') = ss_blength s" using hash_search_bl [OF st'(1)] by simp
  have "ss_count (ms_s st') = ss_count s"
    using tiles_unique [OF st'(5) _ bl] d by (simp add: describes_def)
  then show ?thesis using m st' bl by simp
qed

lemma no_collisionI:
  assumes "\<And>x y. length x \<le> nat (ss_blength s) \<Longrightarrow> length y \<le> nat (ss_blength s) \<Longrightarrow>
      take (nat (ss_s2length s)) (me_csum2 me x) = take (nat (ss_s2length s)) (me_csum2 me y) \<Longrightarrow> x = y"
  shows "no_collision me s B"
  using assms by (auto simp: no_collision_def Let_def block_def length_seg_min)

text \<open>A small transfer for the witnesses: five bytes in blocks of two, and a digest that tells short blocks apart.\<close>

definition ex_csum2 :: "byte list \<Rightarrow> byte list" where
  "ex_csum2 x = word_of_nat (length x) # x @ [0, 0]"

definition ex_sums :: sum_struct where
  "ex_sums = \<lparr>ss_flength = 5, ss_sums = [\<lparr>sb_offset = 0, sb_len = 2, sb_sum1 = ck_sum [1, 2], sb_chain = 0, sb_flags = False\<rparr>,
              \<lparr>sb_offset = 2, sb_len = 2, sb_sum1 = ck_sum [3, 4], sb_chain = 0, sb_flags = False\<rparr>,
              \<lparr>sb_offset = 4, sb_len = 1, sb_sum1 = ck_sum [5], sb_chain = 0, sb_flags = False\<rparr>],
            ss_sum2_array = [2, 1, 2, 2, 3, 4, 1, 5, 0], ss_count = 3, ss_blength = 2, ss_remainder = 1, ss_s2length = 3\<rparr>"

definition ex_menv :: "bool \<Rightarrow> byte list \<Rightarrow> menv" where
  "ex_menv upd F = \<lparr>me_cf = \<lparr>protocol_version = 31, xfer_sum_len = 3, csum_length = 2, block_size = 2, append_mode = 0\<rparr>,
     me_csum2 = ex_csum2, updating_basis_file = upd, me_file = F, me_len = int (length F)\<rparr>"

lemma ex_csum2_inj:
  assumes "length x \<le> 2" "length y \<le> 2" "take 3 (ex_csum2 x) = take 3 (ex_csum2 y)"
  shows "x = y"
  using assms by (cases x; cases "tl x"; cases y; cases "tl y") (auto simp: ex_csum2_def eval_nat_numeral)

lemma ex_describes: "describes (me_cf (ex_menv upd F)) (me_csum2 (ex_menv upd F)) ex_sums [1, 2, 3, 4, 5]"
proof -
  have "describes \<lparr>protocol_version = 31, xfer_sum_len = 3, csum_length = 2, block_size = 2, append_mode = 0\<rparr> ex_csum2 ex_sums [1, 2, 3, 4, 5]"
    by code_simp
  then show ?thesis by (simp add: ex_menv_def)
qed

lemma ex_no_collision: "no_collision (ex_menv upd F) ex_sums B"
  by (rule no_collisionI) (simp add: ex_sums_def ex_menv_def ex_csum2_inj)

text \<open>
  C3: the delta search is exact. For a signature \<open>s\<close> that describes the basis file \<open>B\<close>, and a strong
  checksum that does not collide on the windows of the new file \<open>F\<close>, \<^verbatim>\<open>match_sums\<close> returns, the
  literal bytes and blocks it sends rebuild \<open>F\<close> from \<open>B\<close>, and the whole-file checksum is computed over
  exactly the bytes of \<open>F\<close>.
\<close>

theorem delta_transfer_exact:
  assumes "describes (me_cf me) (me_csum2 me) s B" "me_len me = int (length (me_file me))"
    and "append_mode (me_cf me) \<le> 0" "0 < ss_count s" "ss_blength s \<le> OLD_MAX_BLOCK_SIZE"
    and "no_collision me s B" "zero_windows me s" "me_file me \<noteq> []" "length (me_file me) < fuel"
  shows "\<exists>st'. match_sums fuel me literal_step s = Some (Inr st')
    \<and> recon s (me_file me) B (ms_calls st') = me_file me
    \<and> (xfer_sum_len (me_cf me) \<noteq> 0 \<longrightarrow> ms_fed st' = me_file me)"
proof -
  obtain st' where st': "match_sums fuel me literal_step s = Some (Inr st')" "sent_ok me B st'" "last_match st' = me_len me"
      "ss_blength (ms_s st') = ss_blength s"
    using match_sums_search [OF assms] by blast
  then show ?thesis
    using assms(2) recon_cong [OF st'(4)] by (auto simp: run_ok_def base_ok_def sent_ok_def Let_def)
qed

theorem delta_transfer_exact_witness:
  "\<exists>st'. match_sums 7 (ex_menv False [9, 3, 4, 1, 2, 5]) 32768 ex_sums = Some (Inr st')
     \<and> recon ex_sums [9, 3, 4, 1, 2, 5] [1, 2, 3, 4, 5] (ms_calls st') = [9, 3, 4, 1, 2, 5]"
proof -
  have "zero_windows (ex_menv False [9, 3, 4, 1, 2, 5]) ex_sums" by (simp add: zero_windows_def ex_menv_def)
  then show ?thesis
    using delta_transfer_exact [OF ex_describes _ _ _ _ ex_no_collision, of False "[9, 3, 4, 1, 2, 5]" 7 32768]
    by (auto simp: ex_menv_def ex_sums_def OLD_MAX_BLOCK_SIZE_def)
qed

text \<open>
  C4: updating in place is safe. When the strong checksum does not collide on the windows of the new file \<open>F\<close>, all full windows
  of \<open>F\<close> of weak sum 0 are equal, as the code takes them to be, and the output file is the basis file itself, every block is read at
  a moment when the file still holds it: replaying the calls on that file leaves the new file \<open>F\<close>
  in its first bytes, and the rest of the old file behind it, to be truncated.
\<close>

theorem inplace_transfer_exact:
  assumes "describes (me_cf me) (me_csum2 me) s B" "me_len me = int (length (me_file me))"
    and "append_mode (me_cf me) \<le> 0" "0 < ss_count s" "ss_blength s \<le> OLD_MAX_BLOCK_SIZE"
    and "no_collision me s B" "zero_windows me s" "me_file me \<noteq> []" "length (me_file me) < fuel"
    and "updating_basis_file me"
  shows "\<exists>st'. match_sums fuel me literal_step s = Some (Inr st')
    \<and> inplace s (me_file me) B (ms_calls st') = (length (me_file me), me_file me @ drop (length (me_file me)) B)"
proof -
  obtain st' where st': "match_sums fuel me literal_step s = Some (Inr st')" "sent_ok me B st'" "last_match st' = me_len me"
      "ss_blength (ms_s st') = ss_blength s"
    using match_sums_search [OF assms(1-9)] by blast
  then show ?thesis
    using assms(2,10) inplace_cong [OF st'(4)] by (auto simp: run_ok_def base_ok_def sent_ok_def Let_def)
qed

theorem inplace_transfer_exact_witness:
  "\<exists>st'. match_sums 7 (ex_menv True [3, 4, 1, 2]) 32768 ex_sums = Some (Inr st')
     \<and> inplace ex_sums [3, 4, 1, 2] [1, 2, 3, 4, 5] (ms_calls st') = (4, [3, 4, 1, 2, 5])"
proof -
  have "ck_sum [3, 4] \<noteq> 0" "ck_sum [4, 1] \<noteq> 0" "ck_sum [1, 2] \<noteq> 0" by (simp_all add: ck_sum_def schar_def)
  then have "zero_windows (ex_menv True [3, 4, 1, 2]) ex_sums"
    by (auto simp: zero_windows_def ex_menv_def ex_sums_def seg_def eval_nat_numeral less_Suc_eq)
  then show ?thesis
    using inplace_transfer_exact [OF ex_describes _ _ _ _ ex_no_collision, of True "[3, 4, 1, 2]" 7 32768]
    by (auto simp: ex_menv_def ex_sums_def OLD_MAX_BLOCK_SIZE_def)
qed

text \<open>
  C29: with no usable signature (no basis file, or an empty one, or \<^verbatim>\<open>--append\<close>) the file is sent as
  literal data in pieces, starting where the receiver's copy ends; the pieces are exactly the rest
  of the file, and the whole-file checksum continues with them.
\<close>

theorem literal_transfer_exact:
  assumes "me_len me = int (length (me_file me))" "0 < step" "step < 2 ^ 31" "length (me_file me) < fuel"
    and "ss_count s = 0 \<or> append_mode (me_cf me) > 0"
    and "p = (if append_mode (me_cf me) > 0 then nat (ss_flength s) else 0)" "0 \<le> ss_flength s" "p \<le> length (me_file me)"
  shows "\<exists>st'. match_sums fuel me (int step) s = Some (Inr st')
    \<and> recon s (me_file me) B (ms_calls st') = drop p (me_file me)
    \<and> (xfer_sum_len (me_cf me) \<noteq> 0 \<longrightarrow> ms_fed st' = ms_fed (skip_appended me (match_init s)) @ drop p (me_file me))"
proof -
  let ?F = "me_file me"
  define st0 where "st0 = skip_appended me (match_init s)"
  have s0: "last_match st0 = int p" "ms_calls st0 = []" "ss_count (ms_s st0) = 0"
    using assms(5-7) by (auto simp: st0_def skip_appended_def match_init_def)
  obtain st' b where st': "literal_loop fuel me (int step) (int (p + step)) st0 = Some (Inr st')" "last_match st' = int b"
    "p \<le> b" "b \<le> length ?F" "length ?F - b \<le> step"
    "recon s ?F B (ms_calls st') = recon s ?F B (ms_calls st0) @ seg ?F p (b - p)"
    "xfer_sum_len (me_cf me) \<noteq> 0 \<longrightarrow> ms_fed st' = ms_fed st0 @ seg ?F p (b - p)"
  proof -
    have "length ?F - p < fuel" using assms(4) by simp
    from literal_loop_ok [OF assms(1-3) s0(1) assms(8) this, of s B] that show thesis by blast
  qed
  have m: "match_sums fuel me (int step) s = Some (Inr (matched me st' (me_len me) (-1)))"
    using st'(1) s0 by (simp add: match_sums_def st0_def [symmetric] Let_def)
  note fin = literal_step_ok [OF st'(2,4) order_refl, of "-1", folded assms(1)]
  have "length ?F - b < 2 ^ 31" using st'(5) assms(3) by simp
  note fin = fin [OF this]
  have "seg ?F p (b - p) @ seg ?F (p + (b - p)) (length ?F - b) = seg ?F p (b - p + (length ?F - b))"
    by (rule seg_append)
  then have "seg ?F p (b - p) @ seg ?F b (length ?F - b) = drop p ?F"
    using st'(3,4) by (simp add: seg_def)
  then show ?thesis using m fin st' s0(2) by (auto simp: recon_def st0_def [symmetric])
qed

theorem literal_transfer_exact_witness:
  "\<exists>st'. match_sums 9 (ex_menv True [7, 8, 9, 7, 8, 9, 7]) (int 3) null_sum = Some (Inr st')
     \<and> recon null_sum [7, 8, 9, 7, 8, 9, 7] [] (ms_calls st') = [7, 8, 9, 7, 8, 9, 7]"
  using literal_transfer_exact [of "ex_menv True [7, 8, 9, 7, 8, 9, 7]" 3 9 null_sum 0 "[]"]
  by (auto simp: ex_menv_def null_sum_def)

text \<open>
  after a read error the sender's checksum of the file is never the true one, so that the
  receiver discards the file: it differs from the digest in the \<^verbatim>\<open>xfer_sum_len\<close> bytes compared.
\<close>

theorem read_error_checksum_differs:
  assumes "0 < n" "n \<le> length digest"
  shows "sender_file_sum n True digest \<noteq> take n digest \<and> length (sender_file_sum n True digest) = n"
proof (cases "list_all (\<lambda>b. b = 0) (take n digest)")
  case True
  then have "take n digest = replicate n 0"
    using assms(2) by (intro replicate_eqI) (simp_all add: list_all_iff)
  moreover have "(replicate n 0)[n - 1 := (1 :: byte)] \<noteq> replicate n 0"
  proof
    assume "(replicate n 0)[n - 1 := (1 :: byte)] = replicate n 0"
    from arg_cong [OF this, of "\<lambda>xs. xs ! (n - 1)"] show False using assms(1) by simp
  qed
  ultimately show ?thesis using True by (simp add: sender_file_sum_def)
next
  case False
  have "take n digest \<noteq> replicate n 0" using False by (auto simp: list_all_iff)
  then show ?thesis using False by (simp add: sender_file_sum_def)
qed

theorem read_error_checksum_differs_witness:
  "sender_file_sum 2 True [0, 0, 7] \<noteq> take 2 [0, 0, 7] \<and> length (sender_file_sum 2 True [0, 0, 7]) = 2"
  by (rule read_error_checksum_differs) simp_all

section \<open>A wrong block in place\<close>

text \<open>
  The hypothesis \<open>zero_windows\<close> is needed. When a window of weak sum 0 is tried at the next block
  boundary, \<^verbatim>\<open>sum\<close> and \<^verbatim>\<open>sum2\<close> are overwritten with those of the boundary's window; if only its strong
  sum differs, \<^verbatim>\<open>check_want_i\<close> compares the wanted block with that window, and sends it at the old offset.
  Here \<open>[0, 1, 254, 1]\<close>, of weak sum 0, is sent where the file has four zeros. The digest is the data itself.
\<close>

definition bug_sums :: sum_struct where
  "bug_sums = \<lparr>ss_flength = 16, ss_sums = [\<lparr>sb_offset = 0, sb_len = 4, sb_sum1 = ck_sum [9, 9, 9, 9], sb_chain = 0, sb_flags = False\<rparr>,
              \<lparr>sb_offset = 4, sb_len = 4, sb_sum1 = ck_sum [8, 8, 8, 8], sb_chain = 0, sb_flags = False\<rparr>,
              \<lparr>sb_offset = 8, sb_len = 4, sb_sum1 = ck_sum [0, 0, 0, 0], sb_chain = 0, sb_flags = False\<rparr>,
              \<lparr>sb_offset = 12, sb_len = 4, sb_sum1 = ck_sum [0, 1, 254, 1], sb_chain = 0, sb_flags = False\<rparr>],
            ss_sum2_array = [9, 9, 9, 9, 8, 8, 8, 8, 0, 0, 0, 0, 0, 1, 254, 1], ss_count = 4, ss_blength = 4,
            ss_remainder = 0, ss_s2length = 4\<rparr>"

definition bug_menv :: menv where
  "bug_menv = \<lparr>me_cf = \<lparr>protocol_version = 31, xfer_sum_len = 4, csum_length = 2, block_size = 4, append_mode = 0\<rparr>,
     me_csum2 = (\<lambda>x. x), updating_basis_file = True, me_file = [0, 0, 0, 0, 7, 0, 0, 0, 0, 1, 254, 1], me_len = 12\<rparr>"

lemma inplace_realign_wrong_block:
  "describes (me_cf bug_menv) (me_csum2 bug_menv) bug_sums [9, 9, 9, 9, 8, 8, 8, 8, 0, 0, 0, 0, 0, 1, 254, 1]
   \<and> (case match_sums 20 bug_menv 32768 bug_sums of Some (Inr st) \<Rightarrow>
        recon bug_sums (me_file bug_menv) [9, 9, 9, 9, 8, 8, 8, 8, 0, 0, 0, 0, 0, 1, 254, 1] (ms_calls st)
          = [0, 0, 0, 0, 7, 0, 1, 254, 1, 1, 254, 1]
      | _ \<Rightarrow> False)
   \<and> me_file bug_menv = [0, 0, 0, 0, 7, 0, 0, 0, 0, 1, 254, 1]"
  by code_simp

end
