(* ===== verification/Token.thy ===== *)
theory Token
  imports Match Rdma
begin

unbundle bit_operations_syntax

text \<open>
  The tokens of \<^verbatim>\<open>token.c\<close>: literal data and block numbers as they travel between \<^verbatim>\<open>send_token\<close> and
  \<^verbatim>\<open>recv_token\<close>. The plain code, over the control connection alone or with its literals on the RDMA rails,
  and the LZ4 code with its runs of block numbers, which zlib and zstd share. LZ4 itself is an argument.
\<close>

section \<open>Definitions\<close>

text \<open>What the two sides mean by a stream of tokens: literal bytes and numbers of blocks.\<close>

datatype titem = LitB byte | TokI int

definition call_items :: "byte list \<Rightarrow> send_call list \<Rightarrow> titem list" where
  "call_items F cs = concat (map (\<lambda>c. map LitB (seg F (nat (sc_offset c)) (nat (sc_n c)))
     @ (if sc_token c \<ge> 0 then [TokI (sc_token c)] else [])) cs)"

subsection \<open>Plain tokens\<close>

record simple_env =
  se_rdma :: bool
  se_chunk :: int
  se_depth :: int
  se_synthetic :: bool

record simple_tx =
  sx_rdma :: rdma_tx
  rdma_control_pending :: int
  sx_flushes :: nat

text \<open>One piece of literal data: on the rails, or behind its length on the control connection.\<close>

definition send_literal :: "simple_env \<Rightarrow> byte list \<Rightarrow> int \<Rightarrow> int \<Rightarrow> simple_tx \<Rightarrow> rerr + (byte list \<times> simple_tx)" where
  "send_literal se F off n1 st =
     (if se_rdma se \<and> se_synthetic se
      then (case rdma_send_synthetic (sx_rdma st) off (nat n1) of Inl e \<Rightarrow> Inl e | Inr t \<Rightarrow> Inr ([], st\<lparr>sx_rdma := t\<rparr>))
      else if se_rdma se
      then (case rdma_send_data (sx_rdma st) (map_view F (nat off) (nat n1)) of Inl e \<Rightarrow> Inl e | Inr t \<Rightarrow> Inr ([], st\<lparr>sx_rdma := t\<rparr>))
      else Inr (map_view F (nat off) (nat n1), st))"

text \<open>The control connection is flushed after a number of pieces, so that the receiver can follow the rails.\<close>

definition count_control :: "simple_env \<Rightarrow> simple_tx \<Rightarrow> simple_tx" where
  "count_control se st =
     (if se_rdma se
      then (if rdma_control_pending st + 1 \<ge> rdma_control_flush_interval (se_rdma se) (se_depth se)
            then st\<lparr>rdma_control_pending := 0, sx_flushes := sx_flushes st + 1\<rparr>
            else st\<lparr>rdma_control_pending := rdma_control_pending st + 1\<rparr>)
      else st)"

text \<open>The loop over the pieces; the size of a piece is positive.\<close>

function send_pieces :: "simple_env \<Rightarrow> byte list \<Rightarrow> int \<Rightarrow> int \<Rightarrow> int \<Rightarrow> simple_tx \<Rightarrow> rerr + (byte list \<times> simple_tx)" where
  "send_pieces se F offset n len st =
     (let n1 = min (rdma_literal_chunk_size (se_rdma se) (se_chunk se)) (n - len)
      in if len < n \<and> 0 < n1
         then (case send_literal se F (offset + len) n1 st of
                 Inl e \<Rightarrow> Inl e
               | Inr (b, st1) \<Rightarrow>
                   (case send_pieces se F offset n (len + n1) (count_control se st1) of
                      Inl e \<Rightarrow> Inl e
                    | Inr (bs, st2) \<Rightarrow> Inr (write_int n1 @ b @ bs, st2)))
         else Inr ([], st))"
  by pat_completeness auto
termination by (relation "measure (\<lambda>(se, F, offset, n, len, st). nat (n - len))") auto

declare send_pieces.simps [simp del]

definition simple_send_token :: "simple_env \<Rightarrow> byte list \<Rightarrow> simple_tx \<Rightarrow> send_call \<Rightarrow> (byte list \<times> simple_tx) run" where
  "simple_send_token se F st c =
     (case (if sc_n c > 0 then send_pieces se F (sc_offset c) (sc_n c) 0 st else Inr ([], st)) of
        Inl e \<Rightarrow> Some (Inl e)
      | Inr (b, st1) \<Rightarrow>
          Some (Inr (if sc_token c \<noteq> -2
                     then (b @ write_int (- (sc_token c + 1)),
                           if se_rdma se \<and> rdma_control_pending st1 \<noteq> 0
                           then st1\<lparr>rdma_control_pending := 0, sx_flushes := sx_flushes st1 + 1\<rparr> else st1)
                     else (b, st1))))"

record simple_rx =
  residue :: int
  sx_rx :: rdma_rx

text \<open>The part of \<^verbatim>\<open>simple_recv_token\<close> with a literal of \<^verbatim>\<open>residue\<close> bytes before it.\<close>

definition recv_piece :: "bool \<Rightarrow> simple_rx \<Rightarrow> (int \<times> byte list \<times> simple_rx) reader" where
  "recv_piece active st =
     (let n = min CHUNK_SIZE (residue st);
          st1 = st\<lparr>residue := residue st - n\<rparr>
      in if active
         then (case rdma_recv_data_ptr (sx_rx st1) (nat n) of
                 Inl e \<Rightarrow> rd_fail e | Inr (d, rx) \<Rightarrow> rd_return (n, d, st1\<lparr>sx_rx := rx\<rparr>))
         else rd_bind (read_buf (nat n)) (\<lambda>d. rd_return (n, d, st1)))"

definition simple_recv_token :: "bool \<Rightarrow> simple_rx \<Rightarrow> (int \<times> byte list \<times> simple_rx) reader" where
  "simple_recv_token active st =
     (if residue st = 0
      then rd_bind read_int (\<lambda>i. if i \<le> 0 then rd_return (i, [], st) else recv_piece active (st\<lparr>residue := i\<rparr>))
      else recv_piece active st)"

subsection \<open>Runs of tokens\<close>

definition END_FLAG :: byte where "END_FLAG = 0"
definition TOKEN_LONG :: byte where "TOKEN_LONG = 0x20"
definition TOKENRUN_LONG :: byte where "TOKENRUN_LONG = 0x21"
definition DEFLATED_DATA :: byte where "DEFLATED_DATA = 0x40"
definition TOKEN_REL :: byte where "TOKEN_REL = 0x80"
definition TOKENRUN_REL :: byte where "TOKENRUN_REL = 0xc0"
definition MAX_DATA_COUNT :: int where "MAX_DATA_COUNT = 16383"
definition MAX_TOKEN_INDEX :: int where "MAX_TOKEN_INDEX = 0x7ffffffe"

record ctok_tx =
  last_token :: int
  run_start :: int
  last_run_end :: int
  flush_pending :: bool

definition put_run :: "ctok_tx \<Rightarrow> byte list" where
  "put_run st =
     (let r = run_start st - last_run_end st; n = last_token st - run_start st
      in (if 0 \<le> r \<and> r \<le> 63 then write_byte ((if n = 0 then TOKEN_REL else TOKENRUN_REL) + word_of_int r)
          else write_byte (if n = 0 then TOKEN_LONG else TOKENRUN_LONG) @ write_int (run_start st))
         @ (if n \<noteq> 0 then write_byte (word_of_int n) @ write_byte (word_of_int (n div 2 ^ 8)) else []))"

text \<open>The start of each compressed \<^verbatim>\<open>send\<close> function: what becomes of the run before this token.\<close>

definition begin_token :: "ctok_tx \<Rightarrow> int \<Rightarrow> int \<Rightarrow> byte list \<times> ctok_tx" where
  "begin_token st token nb =
     (let (b, st1) =
        (if last_token st = -1 then ([], st\<lparr>last_run_end := 0, run_start := token, flush_pending := False\<rparr>)
         else if last_token st = -2 then ([], st\<lparr>run_start := token\<rparr>)
         else if nb \<noteq> 0 \<or> token \<noteq> last_token st + 1 \<or> token \<ge> run_start st + 65536
         then (put_run st, st\<lparr>last_run_end := last_token st, run_start := token\<rparr>)
         else ([], st))
      in (b, st1\<lparr>last_token := token\<rparr>))"

datatype recv_state = R_init | R_idle | R_running | R_inflating | R_inflated

record ctok_rx =
  recv_state :: recv_state
  rx_token :: int
  rx_run :: int

definition recv_compressed_token_num :: "ctok_rx \<Rightarrow> byte \<Rightarrow> (int \<times> ctok_rx) reader" where
  "recv_compressed_token_num st flag =
     rd_bind
       (if flag AND TOKEN_REL \<noteq> 0
        then (let incr = uint (flag AND 0x3f)
              in if rx_token st > MAX_TOKEN_INDEX - incr then rd_fail RERR_PROTOCOL
                 else rd_return (st\<lparr>rx_token := rx_token st + incr\<rparr>, drop_bit 6 flag))
        else rd_bind read_int (\<lambda>t. if t < 0 \<or> t > MAX_TOKEN_INDEX then rd_fail RERR_PROTOCOL
                                   else rd_return (st\<lparr>rx_token := t\<rparr>, flag)))
       (\<lambda>(st1, flag1).
          if flag1 AND 1 \<noteq> 0
          then rd_bind read_byte (\<lambda>lo. rd_bind read_byte (\<lambda>hi.
                 let run = uint lo + uint hi * 2 ^ 8
                 in if run \<le> 0 \<or> rx_token st1 > MAX_TOKEN_INDEX - run then rd_fail RERR_PROTOCOL
                    else rd_return (-1 - rx_token st1, st1\<lparr>rx_run := run, recv_state := R_running\<rparr>)))
          else rd_return (-1 - rx_token st1, st1))"

definition recv_compressed_token_run :: "ctok_rx \<Rightarrow> (int \<times> ctok_rx) reader" where
  "recv_compressed_token_run st =
     (if rx_run st \<le> 0 \<or> rx_token st \<ge> MAX_TOKEN_INDEX then rd_fail RERR_PROTOCOL
      else (let st1 = st\<lparr>rx_token := rx_token st + 1, rx_run := rx_run st - 1\<rparr>;
                st2 = (if rx_run st1 = 0 then st1\<lparr>recv_state := R_idle\<rparr> else st1)
            in rd_return (-1 - rx_token st2, st2)))"

subsection \<open>LZ4 tokens\<close>

record lz4 =
  LZ4_compress :: "byte list \<Rightarrow> byte list"
  LZ4_decompress :: "byte list \<Rightarrow> byte list option"

text \<open>
  The loop of \<^verbatim>\<open>send_compressed_token\<close>; \<open>retry\<close> holds \<^verbatim>\<open>available_in\<close> after a block that did not fit. An output of no
  bytes is the error return of LZ4. Each round sends a block or halves the input; the first argument is fuel.
\<close>

primrec lz4_loop :: "nat \<Rightarrow> lz4 \<Rightarrow> byte list \<Rightarrow> int \<Rightarrow> int \<Rightarrow> int option \<Rightarrow> byte list run" where
  "lz4_loop 0 lz F offset nb retry = None"
| "lz4_loop (Suc k) lz F offset nb retry =
     (let available_in = (case retry of None \<Rightarrow> min nb MAX_DATA_COUNT | Some a \<Rightarrow> a div 2);
          obuf = LZ4_compress lz (map_view F (nat offset) (nat available_in));
          available_out = int (length obuf)
      in if available_out = 0 then Some (Inl RERR_STREAMIO)
         else if available_out \<le> MAX_DATA_COUNT
         then (let b = [DEFLATED_DATA + word_of_int (available_out div 2 ^ 8), word_of_int available_out] @ obuf
               in if nb - available_in \<noteq> 0
                  then run_bind (lz4_loop k lz F (offset + available_in) (nb - available_in) None) (\<lambda>bs. Some (Inr (b @ bs)))
                  else Some (Inr b))
         else if nb \<noteq> 0 then lz4_loop k lz F offset nb (Some available_in)
         else Some (Inr []))"

definition send_compressed_token :: "lz4 \<Rightarrow> byte list \<Rightarrow> ctok_tx \<Rightarrow> send_call \<Rightarrow> (byte list \<times> ctok_tx) run" where
  "send_compressed_token lz F st c =
     (let token = sc_token c; nb = sc_n c;
          (b, st1) = begin_token st token nb
      in run_bind (if nb \<noteq> 0 \<or> flush_pending st1
                   then run_bind (lz4_loop (2 * nat nb + 2) lz F (sc_offset c) nb None)
                          (\<lambda>d. Some (Inr (d, st1\<lparr>flush_pending := (token = -2)\<rparr>)))
                   else Some (Inr ([], st1)))
           (\<lambda>(d, st2). Some (Inr (b @ d @ (if token = -1 then write_byte END_FLAG else []), st2))))"

text \<open>
  \<^verbatim>\<open>recv_compressed_token\<close>: the rounds of its loop that start from \<^verbatim>\<open>r_idle\<close>. The state \<^verbatim>\<open>r_inflating\<close> is left again before
  the function returns, and \<^verbatim>\<open>r_inflated\<close>, in which the loop would not end, is never entered.
\<close>

definition recv_idle :: "lz4 \<Rightarrow> ctok_rx \<Rightarrow> (int \<times> byte list \<times> ctok_rx) reader" where
  "recv_idle lz st =
     rd_bind read_byte (\<lambda>flag.
       if flag AND 0xC0 = DEFLATED_DATA
       then rd_bind read_byte (\<lambda>lo. rd_bind (read_buf (nat (uint (flag AND 0x3f) * 2 ^ 8 + uint lo))) (\<lambda>cbuf.
              case LZ4_decompress lz cbuf of None \<Rightarrow> rd_fail RERR_STREAMIO
              | Some d \<Rightarrow> rd_return (int (length d), d, st\<lparr>recv_state := R_idle\<rparr>)))
       else if flag = END_FLAG then rd_return (0, [], st\<lparr>recv_state := R_init\<rparr>)
       else rd_bind (recv_compressed_token_num st flag) (\<lambda>(i, st1). rd_return (i, [], st1)))"

definition recv_compressed_token :: "lz4 \<Rightarrow> ctok_rx \<Rightarrow> (int \<times> byte list \<times> ctok_rx) reader" where
  "recv_compressed_token lz st =
     (case recv_state st of
        R_init \<Rightarrow> recv_idle lz (st\<lparr>recv_state := R_idle, rx_token := 0\<rparr>)
      | R_idle \<Rightarrow> recv_idle lz st
      | R_running \<Rightarrow> rd_bind (recv_compressed_token_run st) (\<lambda>(i, st1). rd_return (i, [], st1))
      | _ \<Rightarrow> rd_fail RERR_CRASHED)"

section \<open>The channel\<close>

text \<open>All calls of a file, and all tokens up to the one that ends it.\<close>

primrec send_calls :: "(byte list \<Rightarrow> 't \<Rightarrow> send_call \<Rightarrow> (byte list \<times> 't) run) \<Rightarrow> byte list \<Rightarrow> 't \<Rightarrow> send_call list \<Rightarrow> (byte list \<times> 't) run" where
  "send_calls send F t [] = Some (Inr ([], t))"
| "send_calls send F t (c # cs) = run_bind (send F t c) (\<lambda>(b, t1). run_bind (send_calls send F t1 cs) (\<lambda>(bs, t2). Some (Inr (b @ bs, t2))))"

inductive recvs :: "('r \<Rightarrow> (int \<times> byte list \<times> 'r) reader) \<Rightarrow> 'r \<Rightarrow> byte list \<Rightarrow> titem list \<Rightarrow> 'r \<Rightarrow> byte list \<Rightarrow> bool" for recv where
  recvs_end: "recv r s = Inr ((0, d, r'), s') \<Longrightarrow> recvs recv r s [] r' s'"
| recvs_lit: "recv r s = Inr ((int (length d), d, r1), s1) \<Longrightarrow> d \<noteq> [] \<Longrightarrow> recvs recv r1 s1 xs r' s' \<Longrightarrow> recvs recv r s (map LitB d @ xs) r' s'"
| recvs_tok: "recv r s = Inr ((-1 - i, d, r1), s1) \<Longrightarrow> 0 \<le> i \<Longrightarrow> recvs recv r1 s1 xs r' s' \<Longrightarrow> recvs recv r s (TokI i # xs) r' s'"

text \<open>The contract between the two sides: what is sent in one file's calls is received, and then the end.\<close>

locale token_channel =
  fixes send :: "byte list \<Rightarrow> 't \<Rightarrow> send_call \<Rightarrow> (byte list \<times> 't) run"
    and recv :: "'r \<Rightarrow> (int \<times> byte list \<times> 'r) reader"
    and ready :: "byte list \<Rightarrow> 't \<Rightarrow> send_call list \<Rightarrow> bool"
    and link :: "'t \<Rightarrow> 't \<Rightarrow> 'r \<Rightarrow> bool"
  assumes roundtrip: "ready F t cs \<Longrightarrow> \<exists>w t'. send_calls send F t cs = Some (Inr (w, t'))
    \<and> (\<forall>r rest. link t t' r \<longrightarrow> (\<exists>r'. recvs recv r (w @ rest) (call_items F cs) r' rest))"

section \<open>Receiving plain tokens\<close>

text \<open>\<open>accepts recv Q s xs rest\<close>: from every state in \<open>Q\<close> the bytes \<open>s\<close> are received as \<open>xs\<close>, and \<open>rest\<close> is left.\<close>

definition accepts :: "('r \<Rightarrow> (int \<times> byte list \<times> 'r) reader) \<Rightarrow> ('r \<Rightarrow> bool) \<Rightarrow> byte list \<Rightarrow> titem list \<Rightarrow> byte list \<Rightarrow> bool" where
  "accepts recv Q s xs rest \<longleftrightarrow> (\<forall>r. Q r \<longrightarrow> (\<exists>r'. recvs recv r s xs r' rest))"

inductive_cases recvs_NilE: "recvs recv r s [] r' s'"

lemma recvs_same: "recvs recv r2 s2 xs r' rest \<Longrightarrow> recv r s = recv r2 s2 \<Longrightarrow> recvs recv r s xs r' rest"
  by (induction rule: recvs.induct) (auto intro: recvs.intros)

lemma recv_piece_plain:
  assumes "b \<noteq> []" "residue r = int (length b)" "\<And>r1. residue r1 = 0 \<Longrightarrow> sx_rx r1 = sx_rx r \<Longrightarrow> \<exists>r'. recvs (simple_recv_token False) r1 s xs r' rest"
  shows "\<exists>r'. recvs (simple_recv_token False) r (b @ s) (map LitB b @ xs) r' rest"
  using assms
proof (induction "length b" arbitrary: b r rule: less_induct)
  case less
  define n where "n = min (nat CHUNK_SIZE) (length b)"
  have n: "0 < n" "n \<le> length b" "min CHUNK_SIZE (int (length b)) = int n" using less.prems(1) by (auto simp: n_def CHUNK_SIZE_def)
  have step: "simple_recv_token False r (b @ s) = Inr ((int n, take n b, r\<lparr>residue := int (length b - n)\<rparr>), drop n b @ s)"
    using n less.prems(1,2) by (simp add: simple_recv_token_def recv_piece_def Let_def reader_simps read_buf_def of_nat_diff)
  have "\<exists>r'. recvs (simple_recv_token False) (r\<lparr>residue := int (length b - n)\<rparr>) (drop n b @ s) (map LitB (drop n b) @ xs) r' rest"
  proof (cases "n = length b")
    case True
    then show ?thesis using less.prems(3) by simp
  next
    case False
    show ?thesis by (rule less.hyps) (use False n less.prems(3) in auto)
  qed
  then obtain r' where "recvs (simple_recv_token False) r (b @ s) (map LitB (take n b) @ map LitB (drop n b) @ xs) r' rest"
    using recvs_lit [of "simple_recv_token False" r "b @ s" "take n b"] step n by fastforce
  then show ?case by (metis append.assoc append_take_drop_id map_append)
qed

lemma accepts_plain_literal:
  assumes "b \<noteq> []" "length b < 2 ^ 31" "accepts (simple_recv_token False) (\<lambda>r. residue r = 0) s xs rest"
  shows "accepts (simple_recv_token False) (\<lambda>r. residue r = 0) (write_int (int (length b)) @ b @ s) (map LitB b @ xs) rest"
proof (unfold accepts_def, intro allI impI)
  fix r :: simple_rx assume r: "residue r = 0"
  have i: "in_int32 (int (length b))" using assms(2) by (simp add: in_int32_def)
  have "simple_recv_token False r (write_int (int (length b)) @ b @ s) = simple_recv_token False (r\<lparr>residue := int (length b)\<rparr>) (b @ s)"
    using assms(1) r by (simp add: simple_recv_token_def reader_simps read_int_write_int [OF i])
  moreover have "\<exists>r'. recvs (simple_recv_token False) (r\<lparr>residue := int (length b)\<rparr>) (b @ s) (map LitB b @ xs) r' rest"
    by (rule recv_piece_plain) (use assms(1,3) in \<open>auto simp: accepts_def\<close>)
  ultimately show "\<exists>r'. recvs (simple_recv_token False) r (write_int (int (length b)) @ b @ s) (map LitB b @ xs) r' rest"
    using recvs_same by metis
qed

text \<open>With RDMA, \<open>k\<close> messages of \<open>ds\<close> having been read.\<close>

definition rdma_ready :: "byte list list \<Rightarrow> nat \<Rightarrow> simple_rx \<Rightarrow> bool" where
  "rdma_ready ds k r \<longleftrightarrow> residue r = 0 \<and> rx_ready (sx_rx r) ds k"

lemma recv_piece_rdma:
  assumes "residue r = int (length (ds ! k) - off)" "off < length (ds ! k)" "rx_mid (sx_rx r) ds k off"
    "accepts (simple_recv_token True) (rdma_ready ds (Suc k)) s xs rest"
  shows "\<exists>r'. recvs (simple_recv_token True) r s (map LitB (drop off (ds ! k)) @ xs) r' rest"
  using assms(1-3)
proof (induction "length (ds ! k) - off" arbitrary: off r rule: less_induct)
  case less
  let ?m = "length (ds ! k) - off"
  define n where "n = min (nat CHUNK_SIZE) ?m"
  have n: "0 < n" "n \<le> ?m" "min CHUNK_SIZE (int ?m) = int n" using less.prems(2) by (auto simp: n_def CHUNK_SIZE_def)
  obtain t where t: "rdma_recv_data_ptr (sx_rx r) n = Inr (seg (ds ! k) off n, t)" "rx_mid t ds k (off + n)"
    using recv_in_message [OF less.prems(3,2) n(2)] by blast
  let ?r = "r\<lparr>residue := int (length (ds ! k) - (off + n)), sx_rx := t\<rparr>"
  have len: "length (seg (ds ! k) off n) = n" using n(2) less.prems(2) by (simp add: length_seg_min)
  have step: "simple_recv_token True r s = Inr ((int (length (seg (ds ! k) off n)), seg (ds ! k) off n, ?r), s)"
    unfolding len using n less.prems(1,2) t(1)
    by (simp add: simple_recv_token_def recv_piece_def Let_def reader_simps of_nat_diff)
  have rest: "\<exists>r'. recvs (simple_recv_token True) ?r s (map LitB (drop (off + n) (ds ! k)) @ xs) r' rest"
  proof (cases "n = ?m")
    case True
    then have "off + n = length (ds ! k)" using less.prems(2) by simp
    then have "rdma_ready ds (Suc k) ?r" using rx_mid_done t(2) by (simp add: rdma_ready_def)
    then show ?thesis using assms(4) \<open>off + n = length (ds ! k)\<close> by (simp add: accepts_def)
  next
    case False
    then show ?thesis using n t(2) by (intro less.hyps) auto
  qed
  have "drop off (ds ! k) = seg (ds ! k) off n @ drop (off + n) (ds ! k)"
    by (simp add: seg_def add.commute flip: drop_drop)
  moreover have "seg (ds ! k) off n \<noteq> []" using len n(1) by auto
  ultimately show ?case using recvs_lit [where recv = "simple_recv_token True", OF step] rest by fastforce
qed

lemma accepts_rdma_literal:
  assumes "k < length ds" "ds ! k \<noteq> []" "length (ds ! k) < 2 ^ 31" "accepts (simple_recv_token True) (rdma_ready ds (Suc k)) s xs rest"
  shows "accepts (simple_recv_token True) (rdma_ready ds k) (write_int (int (length (ds ! k))) @ s) (map LitB (ds ! k) @ xs) rest"
proof (unfold accepts_def, intro allI impI)
  fix r assume r: "rdma_ready ds k r"
  let ?b = "ds ! k"
  have i: "in_int32 (int (length ?b))" using assms(3) by (simp add: in_int32_def)
  define n where "n = min (nat CHUNK_SIZE) (length ?b)"
  have n: "0 < n" "n \<le> length ?b" "min CHUNK_SIZE (int (length ?b)) = int n" using assms(2) by (auto simp: n_def CHUNK_SIZE_def)
  obtain t where t: "rdma_recv_data_ptr (sx_rx r) n = Inr (take n ?b, t)" "rx_mid t ds k n"
    using recv_new_message [of "sx_rx r" ds k n] r assms(1) n(2) by (auto simp: rdma_ready_def)
  let ?r = "r\<lparr>residue := int (length ?b - n), sx_rx := t\<rparr>"
  have step: "simple_recv_token True r (write_int (int (length ?b)) @ s) = Inr ((int (length (take n ?b)), take n ?b, ?r), s)"
    using assms(2) r n t(1)
    by (simp add: simple_recv_token_def recv_piece_def Let_def reader_simps read_int_write_int [OF i] rdma_ready_def of_nat_diff)
  have rest: "\<exists>r'. recvs (simple_recv_token True) ?r s (map LitB (drop n ?b) @ xs) r' rest"
  proof (cases "n = length ?b")
    case True
    then have "rdma_ready ds (Suc k) ?r" using rx_mid_done t(2) by (simp add: rdma_ready_def)
    then show ?thesis using assms(4) True by (simp add: accepts_def)
  next
    case False
    then show ?thesis using n t(2) assms(4) by (intro recv_piece_rdma) auto
  qed
  have "take n ?b \<noteq> []" using n(1) assms(2) by simp
  from rest obtain r' where "recvs (simple_recv_token True) r (write_int (int (length ?b)) @ s) (map LitB (take n ?b) @ map LitB (drop n ?b) @ xs) r' rest"
    using recvs_lit [where recv = "simple_recv_token True", OF step \<open>take n ?b \<noteq> []\<close>] by blast
  then show "\<exists>r'. recvs (simple_recv_token True) r (write_int (int (length ?b)) @ s) (map LitB ?b @ xs) r' rest"
    by (metis append.assoc append_take_drop_id map_append)
qed

section \<open>Sending plain tokens\<close>

lemma pieces_step: "0 < c \<Longrightarrow> b \<noteq> [] \<Longrightarrow> pieces c b = take (min c (length b)) b # pieces c (drop (min c (length b)) b)"
  by (subst pieces.simps) (auto simp: min_def pieces.simps)

lemma pieces_Nil [simp]: "pieces c [] = []"
  by (simp add: pieces.simps)

lemma set_pieces: "p \<in> set (pieces c b) \<Longrightarrow> p \<noteq> [] \<and> length p \<le> c \<and> length p \<le> length b"
  by (induction c b rule: pieces.induct) (subst (asm) pieces.simps, auto split: if_splits)

lemma length_pieces: "length (pieces c b) \<le> length b"
proof (induction c b rule: pieces.induct)
  case (1 c b)
  then show ?case by (cases b) (subst pieces.simps, auto)+
qed

lemma drop_literal:
  assumes "0 \<le> off" "0 \<le> len" "k \<le> nat (n - len)"
  shows "drop k (seg F (nat (off + len)) (nat (n - len))) = seg F (nat (off + (len + int k))) (nat (n - (len + int k)))"
proof -
  have "nat (n - len) - k = nat (n - (len + int k))" "k + nat (off + len) = nat (off + (len + int k))" using assms by linarith+
  then show ?thesis by (simp add: seg_def drop_take)
qed

text \<open>The pieces of a call, and how the loop of \<^verbatim>\<open>simple_send_token\<close> sends them.\<close>

lemma send_pieces_plain:
  assumes "\<not> se_rdma se" "0 \<le> off" "0 \<le> len" "off + n \<le> int (length F)"
  shows "send_pieces se F off n len st =
    Inr (concat (map (\<lambda>p. write_int (int (length p)) @ p) (pieces (nat CHUNK_SIZE) (seg F (nat (off + len)) (nat (n - len))))), st)"
  using assms
proof (induction se F off n len st rule: send_pieces.induct)
  case (1 se F off n len st)
  let ?n1 = "min (rdma_literal_chunk_size (se_rdma se) (se_chunk se)) (n - len)"
  have n1: "?n1 = min CHUNK_SIZE (n - len)" using 1(2) by (simp add: rdma_literal_chunk_size_def CHUNK_SIZE_def)
  show ?case
  proof (cases "len < n")
    case True
    define k where "k = nat ?n1"
    have k: "?n1 = int k" "0 < k" "k \<le> nat (n - len)" "k = min (nat CHUNK_SIZE) (nat (n - len))"
      using True unfolding k_def n1 by (auto simp: CHUNK_SIZE_def min_def le_nat_iff)
    let ?b = "seg F (nat (off + len)) (nat (n - len))"
    have lb: "length ?b = nat (n - len)" using 1(3-5) True by (intro length_seg) simp
    have mv: "map_view F (nat (off + len)) k = take k ?b"
      using 1(3-5) True k(3) by (subst map_view_seg) (simp_all add: seg_def)
    note dr = drop_literal [OF 1(3,4) k(3), of F]
    have ps: "pieces (nat CHUNK_SIZE) ?b = take k ?b # pieces (nat CHUNK_SIZE) (drop k ?b)"
      using pieces_step [of "nat CHUNK_SIZE" ?b] k lb True by (auto simp: CHUNK_SIZE_def simp flip: length_greater_0_conv)
    have lk: "length (take k ?b) = k" using k(3) lb by simp
    have lit: "send_literal se F (off + len) (int k) st = Inr (take k ?b, st)" "count_control se st = st"
      using 1(2) mv by (simp_all add: send_literal_def count_control_def)
    have "send_pieces se F off n (len + int k) st
      = Inr (concat (map (\<lambda>p. write_int (int (length p)) @ p) (pieces (nat CHUNK_SIZE) (drop k ?b))), st)"
      using 1(1) [OF refl, unfolded k(1), OF _ lit(1) refl 1(2,3) _ 1(5)] True k(2) 1(4) lit(2) unfolding dr by simp
    moreover have "send_pieces se F off n len st = (case send_pieces se F off n (len + int k) st of Inl e \<Rightarrow> Inl e
        | Inr (bs, st2) \<Rightarrow> Inr (write_int (int k) @ take k ?b @ bs, st2))"
      using True k(2) by (subst send_pieces.simps) (simp add: Let_def k(1) lit)
    ultimately show ?thesis using lk unfolding ps by (simp del: length_take)
  next
    case False
    then show ?thesis by (subst send_pieces.simps) (simp add: Let_def)
  qed
qed

lemma send_pieces_rdma:
  assumes "se_rdma se" "\<not> se_synthetic se" "se_chunk se = int (tx_chunk (sx_rdma st))" "0 \<le> off" "0 \<le> len" "off + n \<le> int (length F)"
    "tx_inv (sx_rdma st) ds" "length ds + length (pieces (nat (se_chunk se)) (seg F (nat (off + len)) (nat (n - len)))) \<le> 2 ^ 32"
  shows "\<exists>st'. send_pieces se F off n len st =
      Inr (concat (map (\<lambda>p. write_int (int (length p))) (pieces (nat (se_chunk se)) (seg F (nat (off + len)) (nat (n - len))))), st')
    \<and> tx_inv (sx_rdma st') (ds @ pieces (nat (se_chunk se)) (seg F (nat (off + len)) (nat (n - len))))
    \<and> tx_chunk (sx_rdma st') = tx_chunk (sx_rdma st) \<and> tx_rails (sx_rdma st') = tx_rails (sx_rdma st)"
  using assms
proof (induction se F off n len st arbitrary: ds rule: send_pieces.induct)
  case (1 se F off n len st)
  let ?c = "nat (se_chunk se)"
  let ?n1 = "min (rdma_literal_chunk_size (se_rdma se) (se_chunk se)) (n - len)"
  have c: "0 < ?c" "tx_chunk (sx_rdma st) = ?c" using 1(4,8) by (simp_all add: tx_inv_def)
  have n1: "?n1 = min (se_chunk se) (n - len)" using 1(2) by (simp add: rdma_literal_chunk_size_def)
  show ?case
  proof (cases "len < n")
    case True
    define k where "k = nat ?n1"
    have k: "?n1 = int k" "0 < k" "k \<le> nat (n - len)" "k = min ?c (nat (n - len))" "k \<le> ?c"
      using True c unfolding k_def n1 by (auto simp: min_def le_nat_iff)
    let ?b = "seg F (nat (off + len)) (nat (n - len))"
    have lb: "length ?b = nat (n - len)" using 1(5-7) True by (intro length_seg) simp
    have mv: "map_view F (nat (off + len)) k = take k ?b"
      using 1(5-7) True k(3) by (subst map_view_seg) (simp_all add: seg_def)
    have dr: "drop k ?b = seg F (nat (off + (len + int k))) (nat (n - (len + int k)))"
      using drop_literal [OF 1(5,6) k(3)] .
    have ps: "pieces ?c ?b = take k ?b # pieces ?c (drop k ?b)"
      using pieces_step [of ?c ?b] k lb True c(1) by (auto simp flip: length_greater_0_conv)
    have lk: "length (take k ?b) = k" using k(3) lb by simp
    have one: "pieces ?c (take k ?b) = [take k ?b]" using lk k(2,5) by (intro pieces_small) auto
    have "length ds + length (pieces (tx_chunk (sx_rdma st)) (take k ?b)) \<le> 2 ^ 32"
      using 1(9) one c(2) ps by simp
    from rdma_send_data_ok [OF 1(8) this] obtain t where
      t: "rdma_send_data (sx_rdma st) (take k ?b) = Inr t" "tx_inv t (ds @ [take k ?b])" "tx_chunk t = tx_chunk (sx_rdma st)" "tx_rails t = tx_rails (sx_rdma st)"
      using one c(2) by auto
    define st1 where "st1 = count_control se (st\<lparr>sx_rdma := t\<rparr>)"
    have st1: "sx_rdma st1 = t" by (simp add: st1_def count_control_def)
    have lit: "send_literal se F (off + len) (int k) st = Inr ([], st\<lparr>sx_rdma := t\<rparr>)"
      using 1(2,3) t(1) mv by (simp add: send_literal_def)
    have "length (ds @ [take k ?b]) + length (pieces ?c (drop k ?b)) \<le> 2 ^ 32" using 1(9) ps by simp
    then obtain st' where st': "send_pieces se F off n (len + int k) st1 = Inr (concat (map (\<lambda>p. write_int (int (length p))) (pieces ?c (drop k ?b))), st')"
      "tx_inv (sx_rdma st') ((ds @ [take k ?b]) @ pieces ?c (drop k ?b))" "tx_chunk (sx_rdma st') = tx_chunk (sx_rdma st1)" "tx_rails (sx_rdma st') = tx_rails (sx_rdma st1)"
      using 1(1) [OF refl, unfolded k(1), OF _ lit refl 1(2,3) _ 1(5) _ 1(7), of "ds @ [take k ?b]", folded st1_def] True k(2) 1(4,6) t(2,3)
      unfolding st1 dr by auto
    have "send_pieces se F off n len st = (case send_pieces se F off n (len + int k) st1 of Inl e \<Rightarrow> Inl e
        | Inr (bs, st2) \<Rightarrow> Inr (write_int (int k) @ [] @ bs, st2))"
      using True k(2) by (subst send_pieces.simps) (simp add: Let_def k(1) lit st1_def)
    then show ?thesis using st' st1 t(3,4) lk unfolding ps by (simp del: length_take)
  next
    case False
    then show ?thesis using 1(8) by (subst send_pieces.simps) (simp add: Let_def)
  qed
qed

section \<open>The plain channels\<close>

lemma calls_ok_Nil [simp]: "\<not> calls_ok F cnt []"
  by (simp add: calls_ok_def)

lemma calls_ok_Cons: "calls_ok F cnt (c # cs) \<longleftrightarrow>
    (if cs = [] then call_range F c \<and> sc_token c = -1 else open_call F cnt c \<and> calls_ok F cnt cs)"
  by (auto simp: calls_ok_def)

lemma calls_ok_induct [consumes 1, case_names End More]:
  assumes "calls_ok F cnt cs" "\<And>c. call_range F c \<Longrightarrow> sc_token c = -1 \<Longrightarrow> P [c]"
    "\<And>c cs. open_call F cnt c \<Longrightarrow> calls_ok F cnt cs \<Longrightarrow> P cs \<Longrightarrow> P (c # cs)"
  shows "P cs"
  using assms(1)
proof (induction cs)
  case (Cons c cs)
  then show ?case using assms(2,3) by (auto simp: calls_ok_Cons split: if_splits)
qed simp

definition literal :: "byte list \<Rightarrow> send_call \<Rightarrow> byte list" where
  "literal F c = seg F (nat (sc_offset c)) (nat (sc_n c))"

definition token_bytes :: "send_call \<Rightarrow> byte list" where
  "token_bytes c = (if sc_token c = -2 then [] else write_int (- (sc_token c + 1)))"

definition call_token :: "send_call \<Rightarrow> titem list" where
  "call_token c = (if sc_token c \<ge> 0 then [TokI (sc_token c)] else [])"

lemma call_items_simps: "call_items F [] = []" "call_items F (c # cs) = map LitB (literal F c) @ call_token c @ call_items F cs"
  by (simp_all add: call_items_def literal_def call_token_def)

lemma length_literal: "call_range F c \<Longrightarrow> length (literal F c) = nat (sc_n c)"
  by (auto simp: literal_def call_range_def intro!: length_seg)

lemma accepts_end: "(\<And>r. Q r \<Longrightarrow> residue r = 0) \<Longrightarrow> accepts (simple_recv_token act) Q (write_int 0 @ rest) [] rest"
  by (auto simp: accepts_def simple_recv_token_def reader_simps read_int_write_int in_int32_def intro!: exI recvs_end)

lemma accepts_block:
  assumes "\<And>r. Q r \<Longrightarrow> residue r = 0" "0 \<le> i" "i < 2 ^ 31" "accepts (simple_recv_token act) Q s xs rest"
  shows "accepts (simple_recv_token act) Q (write_int (- (i + 1)) @ s) (TokI i # xs) rest"
proof (unfold accepts_def, intro allI impI)
  fix r assume r: "Q r"
  have "in_int32 (- (i + 1))" using assms(2,3) by (simp add: in_int32_def)
  then have "simple_recv_token act r (write_int (- (i + 1)) @ s) = Inr ((-1 - i, [], r), s)"
    using assms(1) [OF r] assms(2) by (simp add: simple_recv_token_def reader_simps read_int_write_int)
  then show "\<exists>r'. recvs (simple_recv_token act) r (write_int (- (i + 1)) @ s) (TokI i # xs) r' rest"
    using assms(2,4) r by (meson accepts_def recvs_tok)
qed

lemma accepts_call_token:
  assumes "\<And>r. Q r \<Longrightarrow> residue r = 0" "open_call F cnt c" "cnt < 2 ^ 31" "accepts (simple_recv_token act) Q s xs rest"
  shows "accepts (simple_recv_token act) Q (token_bytes c @ s) (call_token c @ xs) rest"
  using accepts_block [OF assms(1) _ _ assms(4)] assms(2-4) by (auto simp: token_bytes_def call_token_def open_call_def)

subsection \<open>On the control connection alone\<close>

abbreviation plain_bytes :: "byte list list \<Rightarrow> byte list" where
  "plain_bytes ps \<equiv> concat (map (\<lambda>p. write_int (int (length p)) @ p) ps)"

lemma accepts_plain_pieces:
  assumes "\<forall>p \<in> set ps. p \<noteq> [] \<and> length p < 2 ^ 31" "accepts (simple_recv_token False) (\<lambda>r. residue r = 0) s xs rest"
  shows "accepts (simple_recv_token False) (\<lambda>r. residue r = 0) (plain_bytes ps @ s) (map LitB (concat ps) @ xs) rest"
  using assms
proof (induction ps)
  case (Cons p ps)
  then show ?case using accepts_plain_literal [of p "plain_bytes ps @ s" "map LitB (concat ps) @ xs" rest] by simp
qed simp

lemma simple_send_plain:
  assumes "\<not> se_rdma se" "call_range F c"
  shows "simple_send_token se F st c = Some (Inr (plain_bytes (pieces (nat CHUNK_SIZE) (literal F c)) @ token_bytes c, st))"
proof -
  have "seg F (nat (sc_offset c)) (nat (sc_n c)) = []" if "\<not> sc_n c > 0" using that by (simp add: seg_def)
  then show ?thesis using send_pieces_plain [OF assms(1), of "sc_offset c" 0 "sc_n c" F st] assms
    by (auto simp: simple_send_token_def literal_def token_bytes_def call_range_def)
qed

lemma accepts_plain_literals:
  assumes "call_range F c" "accepts (simple_recv_token False) (\<lambda>r. residue r = 0) s xs rest"
  shows "accepts (simple_recv_token False) (\<lambda>r. residue r = 0)
    (plain_bytes (pieces (nat CHUNK_SIZE) (literal F c)) @ s) (map LitB (literal F c) @ xs) rest"
proof -
  have "\<forall>p \<in> set (pieces (nat CHUNK_SIZE) (literal F c)). p \<noteq> [] \<and> length p < 2 ^ 31"
    using set_pieces by (force simp: CHUNK_SIZE_def)
  from accepts_plain_pieces [OF this assms(2)] show ?thesis by (simp add: concat_pieces CHUNK_SIZE_def)
qed

lemma send_calls_plain:
  assumes "calls_ok F cnt cs" "cnt < 2 ^ 31" "\<not> se_rdma se"
  shows "\<exists>w. send_calls (simple_send_token se) F t cs = Some (Inr (w, t))
    \<and> (\<forall>rest. accepts (simple_recv_token False) (\<lambda>r. residue r = 0) (w @ rest) (call_items F cs) rest)"
  using assms(1)
proof (induction rule: calls_ok_induct)
  case (End c)
  then show ?case using accepts_plain_literals [OF End(1) accepts_end]
    by (simp add: simple_send_plain [OF assms(3)] run_bind_def token_bytes_def call_items_simps call_token_def)
next
  case (More c cs)
  then have c: "call_range F c" by (simp add: open_call_def)
  from More(3) obtain w where w: "send_calls (simple_send_token se) F t cs = Some (Inr (w, t))"
    "\<And>rest. accepts (simple_recv_token False) (\<lambda>r. residue r = 0) (w @ rest) (call_items F cs) rest" by blast
  show ?case using accepts_plain_literals [OF c accepts_call_token [OF _ More(1) assms(2) w(2)]]
    by (simp add: simple_send_plain [OF assms(3) c] run_bind_def w(1) call_items_simps)
qed

definition plain_ready :: "int \<Rightarrow> byte list \<Rightarrow> simple_tx \<Rightarrow> send_call list \<Rightarrow> bool" where
  "plain_ready cnt F t cs \<longleftrightarrow> cnt < 2 ^ 31 \<and> calls_ok F cnt cs"

interpretation plain_channel: token_channel "simple_send_token \<lparr>se_rdma = False, se_chunk = c, se_depth = d, se_synthetic = sy\<rparr>"
    "simple_recv_token False" "plain_ready cnt" "\<lambda>t t' r. residue r = 0" for c d sy cnt
proof (unfold_locales, goal_cases)
  case (1 F t cs)
  then show ?case using send_calls_plain [of F cnt cs "\<lparr>se_rdma = False, se_chunk = c, se_depth = d, se_synthetic = sy\<rparr>" t]
    by (auto simp: plain_ready_def accepts_def)
qed

subsection \<open>With the literals on the rails\<close>

lemma accepts_rdma_pieces:
  assumes "\<forall>p \<in> set ps. p \<noteq> [] \<and> length p < 2 ^ 31" "accepts (simple_recv_token True) (rdma_ready ds' (length (ds @ ps))) s xs rest"
    "ds' = ds @ ps @ es"
  shows "accepts (simple_recv_token True) (rdma_ready ds' (length ds)) (concat (map (\<lambda>p. write_int (int (length p))) ps) @ s) (map LitB (concat ps) @ xs) rest"
  using assms
proof (induction ps arbitrary: ds)
  case (Cons p ps)
  have "ds' ! length ds = p" "length ds < length ds'" using Cons.prems(3) by simp_all
  then show ?case using Cons.IH [of "ds @ [p]"] Cons.prems accepts_rdma_literal [of "length ds" ds'] by simp
qed simp

definition call_pieces :: "nat \<Rightarrow> byte list \<Rightarrow> send_call list \<Rightarrow> byte list list" where
  "call_pieces ch F cs = concat (map (\<lambda>c. pieces ch (literal F c)) cs)"

lemma call_pieces_simps: "call_pieces ch F [] = []" "call_pieces ch F (c # cs) = pieces ch (literal F c) @ call_pieces ch F cs"
  by (simp_all add: call_pieces_def)

definition rdma_env :: "simple_env \<Rightarrow> simple_tx \<Rightarrow> bool" where
  "rdma_env se t \<longleftrightarrow> se_rdma se \<and> \<not> se_synthetic se \<and> se_chunk se = int (tx_chunk (sx_rdma t))"

lemma simple_send_rdma:
  assumes "rdma_env se st" "call_range F c" "tx_inv (sx_rdma st) ds" "length ds + length (pieces (nat (se_chunk se)) (literal F c)) \<le> 2 ^ 32"
  shows "\<exists>st'. simple_send_token se F st c =
      Some (Inr (concat (map (\<lambda>p. write_int (int (length p))) (pieces (nat (se_chunk se)) (literal F c))) @ token_bytes c, st'))
    \<and> tx_inv (sx_rdma st') (ds @ pieces (nat (se_chunk se)) (literal F c)) \<and> rdma_env se st'
    \<and> tx_rails (sx_rdma st') = tx_rails (sx_rdma st)"
proof (cases "sc_n c > 0")
  case True
  then show ?thesis using send_pieces_rdma [of se st "sc_offset c" 0 "sc_n c" F ds] assms
    by (auto simp: simple_send_token_def literal_def token_bytes_def call_range_def rdma_env_def)
next
  case False
  then have "literal F c = []" by (simp add: literal_def seg_def)
  then show ?thesis using assms False by (auto simp: simple_send_token_def token_bytes_def rdma_env_def)
qed

lemma accepts_rdma_literals:
  assumes "call_range F c" "0 < ch" "ds' = ds @ pieces ch (literal F c) @ es"
    "accepts (simple_recv_token True) (rdma_ready ds' (length (ds @ pieces ch (literal F c)))) s xs rest"
  shows "accepts (simple_recv_token True) (rdma_ready ds' (length ds))
    (concat (map (\<lambda>p. write_int (int (length p))) (pieces ch (literal F c))) @ s) (map LitB (literal F c) @ xs) rest"
proof -
  have "nat (sc_n c) < 2 ^ 31" using assms(1) by (simp add: call_range_def nat_less_iff)
  then have "\<forall>p \<in> set (pieces ch (literal F c)). p \<noteq> [] \<and> length p < 2 ^ 31"
    using set_pieces length_literal [OF assms(1)] by fastforce
  from accepts_rdma_pieces [OF this assms(4,3)] show ?thesis using assms(2) by (simp add: concat_pieces)
qed

lemma rdma_ready_residue: "rdma_ready ds k r \<Longrightarrow> residue r = 0"
  by (simp add: rdma_ready_def)

lemma send_calls_rdma:
  assumes "calls_ok F cnt cs" "cnt < 2 ^ 31" "rdma_env se t" "tx_inv (sx_rdma t) ds" "length (ds @ call_pieces (nat (se_chunk se)) F cs) \<le> 2 ^ 32"
  shows "\<exists>w t'. send_calls (simple_send_token se) F t cs = Some (Inr (w, t')) \<and> tx_inv (sx_rdma t') (ds @ call_pieces (nat (se_chunk se)) F cs)
    \<and> rdma_env se t' \<and> tx_rails (sx_rdma t') = tx_rails (sx_rdma t)
    \<and> (\<forall>rest. accepts (simple_recv_token True) (rdma_ready (ds @ call_pieces (nat (se_chunk se)) F cs) (length ds)) (w @ rest) (call_items F cs) rest)"
  using assms(1,3-5)
proof (induction arbitrary: t ds rule: calls_ok_induct)
  case (End c)
  let ?ps = "pieces (nat (se_chunk se)) (literal F c)"
  have ch: "0 < nat (se_chunk se)" using End(3,4) by (simp add: rdma_env_def tx_inv_def)
  from simple_send_rdma [OF End(3,1,4)] End(5) obtain t' where
    "simple_send_token se F t c = Some (Inr (concat (map (\<lambda>p. write_int (int (length p))) ?ps) @ token_bytes c, t'))"
    "tx_inv (sx_rdma t') (ds @ ?ps)" "rdma_env se t'" "tx_rails (sx_rdma t') = tx_rails (sx_rdma t)" by (auto simp: call_pieces_simps)
  then show ?case using accepts_rdma_literals [OF End(1) ch, of "ds @ ?ps" ds "[]" _ "[]", OF _ accepts_end [OF rdma_ready_residue]] End(2)
    by (simp add: run_bind_def call_items_simps call_token_def call_pieces_simps token_bytes_def)
next
  case (More c cs)
  let ?ps = "pieces (nat (se_chunk se)) (literal F c)" and ?qs = "call_pieces (nat (se_chunk se)) F cs"
  have c: "call_range F c" using More(1) by (simp add: open_call_def)
  have ch: "0 < nat (se_chunk se)" using More(4,5) by (simp add: rdma_env_def tx_inv_def)
  from simple_send_rdma [OF More(4) c More(5)] More(6) obtain t1 where
    t1: "simple_send_token se F t c = Some (Inr (concat (map (\<lambda>p. write_int (int (length p))) ?ps) @ token_bytes c, t1))"
    "tx_inv (sx_rdma t1) (ds @ ?ps)" "rdma_env se t1" "tx_rails (sx_rdma t1) = tx_rails (sx_rdma t)" by (auto simp: call_pieces_simps)
  from More(3) [OF t1(3,2)] More(6) obtain w t' where w: "send_calls (simple_send_token se) F t1 cs = Some (Inr (w, t'))"
    "tx_inv (sx_rdma t') (ds @ ?ps @ ?qs)" "rdma_env se t'" "tx_rails (sx_rdma t') = tx_rails (sx_rdma t)"
    "\<And>rest. accepts (simple_recv_token True) (rdma_ready (ds @ ?ps @ ?qs) (length (ds @ ?ps))) (w @ rest) (call_items F cs) rest"
    using t1(4) by (auto simp: call_pieces_simps)
  show ?case using w(1-4) t1(1) accepts_rdma_literals [OF c ch refl accepts_call_token [OF rdma_ready_residue More(1) assms(2) w(5)]]
    by (simp add: run_bind_def call_items_simps call_pieces_simps)
qed

definition rails_ready :: "simple_env \<Rightarrow> int \<Rightarrow> byte list \<Rightarrow> simple_tx \<Rightarrow> send_call list \<Rightarrow> bool" where
  "rails_ready se cnt F t cs \<longleftrightarrow> cnt < 2 ^ 31 \<and> calls_ok F cnt cs \<and> rdma_env se t
     \<and> (\<exists>ds. tx_inv (sx_rdma t) ds \<and> length (ds @ call_pieces (nat (se_chunk se)) F cs) \<le> 2 ^ 32)"

text \<open>
  The connection of the two ends. The receiver has the sender's number of rails and chunk size, has taken the messages the sender had
  sent in state \<open>t\<close> and waits for the next number; on each rail, what is arriving is what the sender's queue pair of that rail has
  transmitted or holds since \<open>t\<close>, and a slot is posted for it.
\<close>

definition rail_linked :: "rdma_rx \<Rightarrow> rdma_path \<Rightarrow> rdma_path \<Rightarrow> rdma_rpath \<Rightarrow> bool" where
  "rail_linked u p p' q \<longleftrightarrow> on_wire p' = on_wire p @ rr_arriving q \<and> current_recv_slot q = None \<and> rr_posted q \<noteq> [] \<and> posted_ok u q"

definition rails_link :: "simple_tx \<Rightarrow> simple_tx \<Rightarrow> simple_rx \<Rightarrow> bool" where
  "rails_link t t' r \<longleftrightarrow> residue r = 0 \<and> (let u = release_exhausted_receive (sx_rx r); a = sx_rdma t; b = sx_rdma t' in
     rx_rails u = tx_rails a \<and> rx_chunk u = tx_chunk a \<and> rx_chunk u < 2 ^ 32 \<and> recv_seq u = send_seq a
     \<and> (\<forall>i < rx_rails u. rail_linked u (tx_paths a i) (tx_paths b i) (rx_paths u i)))"

lemma rails_link_ready:
  assumes "rails_link t t' r" "tx_inv (sx_rdma t) ds" "tx_inv (sx_rdma t') (ds @ ps)"
    "tx_rails (sx_rdma t') = tx_rails (sx_rdma t)" "tx_chunk (sx_rdma t') = tx_chunk (sx_rdma t)"
  shows "rdma_ready (ds @ ps) (length ds) r"
proof -
  define u where "u = release_exhausted_receive (sx_rx r)"
  let ?a = "sx_rdma t" and ?b = "sx_rdma t'" and ?R = "tx_rails (sx_rdma t)"
  have u: "rx_rails u = ?R" "rx_chunk u = tx_chunk ?a" "rx_chunk u < 2 ^ 32" "recv_seq u = send_seq ?a" "residue r = 0"
    "\<And>i. i < ?R \<Longrightarrow> rail_linked u (tx_paths ?a i) (tx_paths ?b i) (rx_paths u i)"
    using assms(1) by (simp_all add: rails_link_def Let_def u_def)
  have conf: "rx_conf u (ds @ ps)" using u(1-3) assms(2,3,5) by (simp add: rx_conf_def tx_inv_def)
  have "path_idle u (ds @ ps) (length ds) i" if i: "i < ?R" for i
  proof -
    have w: "on_wire (tx_paths ?a i) = rail_msgs ?R 0 (data_msgs ds) i" "on_wire (tx_paths ?b i) = rail_msgs ?R 0 (data_msgs (ds @ ps)) i"
      using assms(2,3,4) i by (simp_all add: tx_inv_def path_inv_def)
    have "rail_msgs ?R 0 (data_msgs (ds @ ps)) i = rail_msgs ?R 0 (data_msgs ds) i @ rail_msgs ?R (length ds) (data_msgs (ds @ ps)) i"
      unfolding data_msgs_append using rail_msgs_append [of ?R "data_msgs ds" _ i] by simp
    then show ?thesis using u(6) [OF i] w u(1) by (simp add: rail_linked_def path_idle_def)
  qed
  then have "rx_idle u (ds @ ps) (length ds)" using conf u(1,4) assms(2) by (simp add: rx_idle_def tx_inv_def)
  then show ?thesis using u(5) by (simp add: rdma_ready_def rx_ready_def u_def)
qed

interpretation rails_channel: token_channel "simple_send_token se" "simple_recv_token True" "rails_ready se cnt" rails_link for se cnt
proof (unfold_locales, goal_cases)
  case (1 F t cs)
  let ?ps = "call_pieces (nat (se_chunk se)) F cs"
  obtain ds where ds: "tx_inv (sx_rdma t) ds" "length (ds @ ?ps) \<le> 2 ^ 32" using 1 by (auto simp: rails_ready_def)
  have r: "calls_ok F cnt cs" "cnt < 2 ^ 31" "rdma_env se t" using 1 by (simp_all add: rails_ready_def)
  from send_calls_rdma [OF r ds] obtain w t' where
    w: "send_calls (simple_send_token se) F t cs = Some (Inr (w, t'))" "tx_inv (sx_rdma t') (ds @ ?ps)"
    "rdma_env se t'" "tx_rails (sx_rdma t') = tx_rails (sx_rdma t)"
    "\<And>rest. accepts (simple_recv_token True) (rdma_ready (ds @ ?ps) (length ds)) (w @ rest) (call_items F cs) rest"
    by blast
  have "rdma_ready (ds @ ?ps) (length ds) q" if "rails_link t t' q" for q
    by (rule rails_link_ready [OF that ds(1) w(2,4)]) (use r(3) w(3) in \<open>simp add: rdma_env_def\<close>)
  then show ?case using w(1,5) by (auto simp: accepts_def)
qed

text \<open>
  There is always such a receiver: the one of a connection that has the sender's numbers of rails and of slots, all posted, and to
  which the new messages are arriving.
\<close>

definition linked_rx :: "nat \<Rightarrow> simple_tx \<Rightarrow> simple_tx \<Rightarrow> simple_rx" where
  "linked_rx depth t t' = \<lparr>residue = 0, sx_rx = \<lparr>rx_chunk = tx_chunk (sx_rdma t), rx_depth = depth, rx_rails = tx_rails (sx_rdma t),
     rx_paths = (\<lambda>i. \<lparr>rr_arriving = drop (length (on_wire (tx_paths (sx_rdma t) i))) (on_wire (tx_paths (sx_rdma t') i)),
       rr_posted = [0..<depth], rr_ring = (\<lambda>_. []), current_recv_slot = None, current_recv_length = 0, current_recv_offset = 0\<rparr>),
     recv_seq = send_seq (sx_rdma t), rx_data_bytes = 0, rx_data_messages = 0\<rparr>\<rparr>"

lemma rails_link_exists:
  assumes "rails_ready se cnt F t cs" "se_chunk se < 2 ^ 32" "send_calls (simple_send_token se) F t cs = Some (Inr (w, t'))" "0 < depth"
  shows "rails_link t t' (linked_rx depth t t')"
proof -
  let ?ps = "call_pieces (nat (se_chunk se)) F cs" and ?R = "tx_rails (sx_rdma t)"
  obtain ds where ds: "tx_inv (sx_rdma t) ds" "length (ds @ ?ps) \<le> 2 ^ 32" using assms(1) by (auto simp: rails_ready_def)
  have r: "calls_ok F cnt cs" "cnt < 2 ^ 31" "rdma_env se t" using assms(1) by (simp_all add: rails_ready_def)
  have t': "tx_inv (sx_rdma t') (ds @ ?ps)" "tx_rails (sx_rdma t') = ?R" using send_calls_rdma [OF r ds] assms(3) by auto
  have "on_wire (tx_paths (sx_rdma t') i) = on_wire (tx_paths (sx_rdma t) i) @ rail_msgs ?R (length ds) (data_msgs (ds @ ?ps)) i" if i: "i < ?R" for i
  proof -
    have "rail_msgs ?R 0 (data_msgs (ds @ ?ps)) i = rail_msgs ?R 0 (data_msgs ds) i @ rail_msgs ?R (length ds) (data_msgs (ds @ ?ps)) i"
      unfolding data_msgs_append using rail_msgs_append [of ?R "data_msgs ds" _ i] by simp
    then show ?thesis using ds(1) t' i by (simp add: tx_inv_def path_inv_def)
  qed
  moreover have "tx_chunk (sx_rdma t) < 2 ^ 32" using r(3) assms(2) by (simp add: rdma_env_def)
  moreover have "release_exhausted_receive (sx_rx (linked_rx depth t t')) = sx_rx (linked_rx depth t t')"
    by (simp add: release_exhausted_receive_def linked_rx_def Let_def)
  ultimately show ?thesis using assms(4) by (simp add: rails_link_def rail_linked_def Let_def linked_rx_def posted_ok_def)
qed

section \<open>The compressed channel\<close>

text \<open>What LZ4 promises: a block is never empty, is no longer than \<^verbatim>\<open>LZ4_compressBound\<close>, and decompresses.\<close>

definition lz4_good :: "lz4 \<Rightarrow> bool" where
  "lz4_good lz \<longleftrightarrow> (\<forall>x. LZ4_compress lz x \<noteq> [] \<and> length (LZ4_compress lz x) \<le> length x + length x div 255 + 16
     \<and> LZ4_decompress lz (LZ4_compress lz x) = Some x)"

definition idle_at :: "int \<Rightarrow> ctok_rx \<Rightarrow> bool" where
  "idle_at e r \<longleftrightarrow> recv_state r = R_idle \<and> rx_token r = e"

text \<open>The flag bytes, by computation over their ranges.\<close>

lemma rel_flags:
  "list_all (\<lambda>r. let f = 0x80 + word_of_int (int r) :: byte; g = 0xc0 + word_of_int (int r) :: byte in
     f AND 0xC0 = 0x80 \<and> f AND 0x80 \<noteq> 0 \<and> f AND 0x3f = word_of_int (int r) \<and> drop_bit 6 f AND 1 = 0 \<and> f \<noteq> 0
     \<and> g AND 0xC0 = 0xc0 \<and> g AND 0x80 \<noteq> 0 \<and> g AND 0x3f = word_of_int (int r) \<and> drop_bit 6 g AND 1 \<noteq> 0 \<and> g \<noteq> 0) [0..<64]"
  by code_simp

lemma rel_flag:
  assumes "0 \<le> r" "r \<le> 63"
  shows "(0x80 + word_of_int r :: byte) AND 0xC0 = 0x80" "(0x80 + word_of_int r :: byte) AND 0x80 \<noteq> 0"
    "uint ((0x80 + word_of_int r :: byte) AND 0x3f) = r" "drop_bit 6 (0x80 + word_of_int r :: byte) AND 1 = 0"
    "(0x80 + word_of_int r :: byte) \<noteq> 0"
    "(0xc0 + word_of_int r :: byte) AND 0xC0 = 0xc0" "(0xc0 + word_of_int r :: byte) AND 0x80 \<noteq> 0"
    "uint ((0xc0 + word_of_int r :: byte) AND 0x3f) = r" "drop_bit 6 (0xc0 + word_of_int r :: byte) AND 1 \<noteq> 0"
    "(0xc0 + word_of_int r :: byte) \<noteq> 0"
proof -
  have "nat r < 64" using assms by simp
  then have "let f = 0x80 + word_of_int r :: byte; g = 0xc0 + word_of_int r :: byte in
     f AND 0xC0 = 0x80 \<and> f AND 0x80 \<noteq> 0 \<and> f AND 0x3f = word_of_int r \<and> drop_bit 6 f AND 1 = 0 \<and> f \<noteq> 0
     \<and> g AND 0xC0 = 0xc0 \<and> g AND 0x80 \<noteq> 0 \<and> g AND 0x3f = word_of_int r \<and> drop_bit 6 g AND 1 \<noteq> 0 \<and> g \<noteq> 0"
    using rel_flags [unfolded list_all_iff] assms(1) by (auto dest!: bspec [of _ _ "nat r"])
  moreover have "uint (word_of_int r :: byte) = r" using assms by (simp add: uint_word_of_int)
  ultimately show "(0x80 + word_of_int r :: byte) AND 0xC0 = 0x80" "(0x80 + word_of_int r :: byte) AND 0x80 \<noteq> 0"
    "uint ((0x80 + word_of_int r :: byte) AND 0x3f) = r" "drop_bit 6 (0x80 + word_of_int r :: byte) AND 1 = 0"
    "(0x80 + word_of_int r :: byte) \<noteq> 0"
    "(0xc0 + word_of_int r :: byte) AND 0xC0 = 0xc0" "(0xc0 + word_of_int r :: byte) AND 0x80 \<noteq> 0"
    "uint ((0xc0 + word_of_int r :: byte) AND 0x3f) = r" "drop_bit 6 (0xc0 + word_of_int r :: byte) AND 1 \<noteq> 0"
    "(0xc0 + word_of_int r :: byte) \<noteq> 0" by (simp_all add: Let_def)
qed

lemma data_flags:
  "list_all (\<lambda>r. let f = 0x40 + word_of_int (int r) :: byte in f AND 0xC0 = 0x40 \<and> f AND 0x3f = word_of_int (int r)) [0..<64]"
  by code_simp

lemma data_flag:
  assumes "0 \<le> r" "r \<le> 63"
  shows "(0x40 + word_of_int r :: byte) AND 0xC0 = 0x40" "uint ((0x40 + word_of_int r :: byte) AND 0x3f) = r"
proof -
  have "nat r < 64" using assms by simp
  then have "let f = 0x40 + word_of_int r :: byte in f AND 0xC0 = 0x40 \<and> f AND 0x3f = word_of_int r"
    using data_flags [unfolded list_all_iff] assms(1) by (auto dest!: bspec [of _ _ "nat r"])
  moreover have "uint (word_of_int r :: byte) = r" using assms by (simp add: uint_word_of_int)
  ultimately show "(0x40 + word_of_int r :: byte) AND 0xC0 = 0x40" "uint ((0x40 + word_of_int r :: byte) AND 0x3f) = r"
    by (simp_all add: Let_def)
qed

lemma long_flags: "(0x20 :: byte) AND 0xC0 = 0" "(0x21 :: byte) AND 0xC0 = 0" "(0x20 :: byte) AND 0x80 = 0" "(0x21 :: byte) AND 0x80 = 0"
  "(0x20 :: byte) AND 1 = 0" "(0x21 :: byte) AND 1 = 1" "(0 :: byte) AND 0xC0 = 0"
  by code_simp+

lemmas flag_defs = END_FLAG_def TOKEN_LONG_def TOKENRUN_LONG_def DEFLATED_DATA_def TOKEN_REL_def TOKENRUN_REL_def

subsection \<open>Runs of block numbers\<close>

lemma accepts_running:
  assumes "accepts (recv_compressed_token lz) (idle_at (a + int k)) s xs rest" "0 < k" "a + int k \<le> MAX_TOKEN_INDEX" "0 \<le> a"
    "recv_state r = R_running" "rx_token r = a" "rx_run r = int k"
  shows "\<exists>r'. recvs (recv_compressed_token lz) r s (map TokI [a + 1..a + int k] @ xs) r' rest"
  using assms
proof (induction k arbitrary: a r)
  case (Suc k)
  let ?r = "r\<lparr>rx_token := a + 1, rx_run := int k\<rparr>"
  let ?r2 = "if k = 0 then ?r\<lparr>recv_state := R_idle\<rparr> else ?r"
  have step: "recv_compressed_token lz r s = Inr ((-1 - (a + 1), [], ?r2), s)"
    using Suc.prems by (simp add: recv_compressed_token_def recv_compressed_token_run_def Let_def reader_simps)
  have "\<exists>r'. recvs (recv_compressed_token lz) ?r2 s (map TokI [a + 1 + 1..a + 1 + int k] @ xs) r' rest"
  proof (cases "k = 0")
    case True
    then show ?thesis using Suc.prems(1) by (simp add: accepts_def idle_at_def)
  next
    case False
    then show ?thesis using Suc.IH [of "a + 1" ?r] Suc.prems by (simp add: algebra_simps)
  qed
  moreover have "[a + 1..a + int (Suc k)] = (a + 1) # [a + 1 + 1..a + 1 + int k]" by (subst upto.simps) (simp add: algebra_simps)
  ultimately show ?case using recvs_tok [where recv = "recv_compressed_token lz", OF step] Suc.prems(4) by auto
qed simp

definition pending_ok :: "ctok_tx \<Rightarrow> bool" where
  "pending_ok st \<longleftrightarrow> 0 \<le> run_start st \<and> run_start st \<le> last_token st \<and> last_token st \<le> MAX_TOKEN_INDEX \<and> last_token st - run_start st < 65536"

lemma run_length_bytes: "0 \<le> n \<Longrightarrow> n < 65536 \<Longrightarrow> uint (word_of_int n :: byte) + uint (word_of_int (n div 2 ^ 8) :: byte) * 2 ^ 8 = n"
  by (simp add: uint_word_of_int)

text \<open>The four forms of \<open>put_run\<close>: relative or absolute, one block or a run.\<close>

lemma recv_num_rel:
  assumes "f AND TOKEN_REL \<noteq> 0" "uint (f AND 0x3f) = d" "rx_token r + d = a" "a \<le> MAX_TOKEN_INDEX"
  shows "drop_bit 6 f AND 1 = 0 \<Longrightarrow> recv_compressed_token_num r f s = Inr ((-1 - a, r\<lparr>rx_token := a\<rparr>), s)"
    "drop_bit 6 f AND 1 \<noteq> 0 \<Longrightarrow> 0 < n \<Longrightarrow> n < 65536 \<Longrightarrow> a + n \<le> MAX_TOKEN_INDEX \<Longrightarrow>
     recv_compressed_token_num r f (write_byte (word_of_int n) @ write_byte (word_of_int (n div 2 ^ 8)) @ s)
       = Inr ((-1 - a, r\<lparr>rx_token := a, rx_run := n, recv_state := R_running\<rparr>), s)"
proof -
  have m: "\<not> rx_token r > MAX_TOKEN_INDEX - d" using assms(3,4) by linarith
  show "drop_bit 6 f AND 1 = 0 \<Longrightarrow> recv_compressed_token_num r f s = Inr ((-1 - a, r\<lparr>rx_token := a\<rparr>), s)"
    using assms(1-3) m unfolding recv_compressed_token_num_def Let_def by (simp add: reader_simps)
  show "recv_compressed_token_num r f (write_byte (word_of_int n) @ write_byte (word_of_int (n div 2 ^ 8)) @ s)
       = Inr ((-1 - a, r\<lparr>rx_token := a, rx_run := n, recv_state := R_running\<rparr>), s)"
    if "drop_bit 6 f AND 1 \<noteq> 0" "0 < n" "n < 65536" "a + n \<le> MAX_TOKEN_INDEX"
    using assms(1-3) m that run_length_bytes [of n] unfolding recv_compressed_token_num_def Let_def
    by (simp add: reader_simps write_byte_def read_byte_Cons)
qed

lemma recv_num_abs:
  assumes "f AND TOKEN_REL = 0" "0 \<le> a" "a \<le> MAX_TOKEN_INDEX"
  shows "f AND 1 = 0 \<Longrightarrow> recv_compressed_token_num r f (write_int a @ s) = Inr ((-1 - a, r\<lparr>rx_token := a\<rparr>), s)"
    "f AND 1 \<noteq> 0 \<Longrightarrow> 0 < n \<Longrightarrow> n < 65536 \<Longrightarrow> a + n \<le> MAX_TOKEN_INDEX \<Longrightarrow>
     recv_compressed_token_num r f (write_int a @ write_byte (word_of_int n) @ write_byte (word_of_int (n div 2 ^ 8)) @ s)
       = Inr ((-1 - a, r\<lparr>rx_token := a, rx_run := n, recv_state := R_running\<rparr>), s)"
proof -
  have i: "in_int32 a" using assms(2,3) by (simp add: in_int32_def MAX_TOKEN_INDEX_def)
  note rd = read_int_write_int [OF i]
  show "f AND 1 = 0 \<Longrightarrow> recv_compressed_token_num r f (write_int a @ s) = Inr ((-1 - a, r\<lparr>rx_token := a\<rparr>), s)"
    using assms unfolding recv_compressed_token_num_def by (simp add: reader_simps rd)
  show "recv_compressed_token_num r f (write_int a @ write_byte (word_of_int n) @ write_byte (word_of_int (n div 2 ^ 8)) @ s)
       = Inr ((-1 - a, r\<lparr>rx_token := a, rx_run := n, recv_state := R_running\<rparr>), s)"
    if "f AND 1 \<noteq> 0" "0 < n" "n < 65536" "a + n \<le> MAX_TOKEN_INDEX"
    using assms that run_length_bytes [of n] unfolding recv_compressed_token_num_def Let_def
    by (simp add: reader_simps write_byte_def read_byte_Cons rd)
qed

lemma recv_idle_num:
  assumes "recv_state r = R_idle" "f AND 0xC0 \<noteq> DEFLATED_DATA" "f \<noteq> END_FLAG" "recv_compressed_token_num r f s = Inr ((i, r'), s')"
  shows "recv_compressed_token lz r (write_byte f @ s) = Inr ((i, [], r'), s')"
  using assms by (simp add: recv_compressed_token_def recv_idle_def reader_simps write_byte_def read_byte_Cons)

lemma recv_put_run:
  assumes "pending_ok st" "idle_at (last_run_end st) r"
  shows "recv_compressed_token lz r (put_run st @ s) = Inr ((-1 - run_start st, [],
      if last_token st = run_start st then r\<lparr>rx_token := run_start st\<rparr>
      else r\<lparr>rx_token := run_start st, rx_run := last_token st - run_start st, recv_state := R_running\<rparr>), s)"
proof -
  define d n where "d = run_start st - last_run_end st" and "n = last_token st - run_start st"
  have p: "0 \<le> run_start st" "run_start st \<le> MAX_TOKEN_INDEX" "0 \<le> n" "n < 65536" "run_start st + n \<le> MAX_TOKEN_INDEX"
    using assms(1) by (simp_all add: pending_ok_def n_def)
  have r: "recv_state r = R_idle" "rx_token r + d = run_start st" using assms(2) by (simp_all add: idle_at_def d_def)
  have n0: "last_token st = run_start st \<longleftrightarrow> n = 0" by (auto simp: n_def)
  note idle = recv_idle_num [OF r(1), of _ _ _ _ _ lz]
  have fl: "TOKEN_LONG AND 0xC0 \<noteq> DEFLATED_DATA" "TOKEN_LONG \<noteq> END_FLAG" "TOKENRUN_LONG AND 0xC0 \<noteq> DEFLATED_DATA"
    "TOKENRUN_LONG \<noteq> END_FLAG" "TOKEN_LONG AND TOKEN_REL = 0" "TOKENRUN_LONG AND TOKEN_REL = 0" "TOKEN_LONG AND 1 = 0" "TOKENRUN_LONG AND 1 \<noteq> 0"
    by (simp_all add: flag_defs long_flags)
  note f = rel_flag [of d]
  consider "0 \<le> d \<and> d \<le> 63" "n = 0" | "0 \<le> d \<and> d \<le> 63" "n > 0" | "\<not> (0 \<le> d \<and> d \<le> 63)" "n = 0" | "\<not> (0 \<le> d \<and> d \<le> 63)" "n > 0"
    using p(3) by linarith
  then show ?thesis
  proof cases
    case 1
    then have pr: "put_run st = write_byte (TOKEN_REL + word_of_int d)"
      unfolding put_run_def Let_def d_def [symmetric] n_def [symmetric] by simp
    have "recv_compressed_token_num r (TOKEN_REL + word_of_int d) s = Inr ((-1 - run_start st, r\<lparr>rx_token := run_start st\<rparr>), s)"
      by (rule recv_num_rel(1)) (use 1 f p r in \<open>simp_all add: TOKEN_REL_def\<close>)
    from idle [OF _ _ this] show ?thesis unfolding pr n0 using 1 f(1,5) by (simp add: flag_defs)
  next
    case 2
    then have pr: "put_run st @ s = write_byte (TOKENRUN_REL + word_of_int d) @ write_byte (word_of_int n) @ write_byte (word_of_int (n div 2 ^ 8)) @ s"
      unfolding put_run_def Let_def d_def [symmetric] n_def [symmetric] by simp
    have "recv_compressed_token_num r (TOKENRUN_REL + word_of_int d) (write_byte (word_of_int n) @ write_byte (word_of_int (n div 2 ^ 8)) @ s)
        = Inr ((-1 - run_start st, r\<lparr>rx_token := run_start st, rx_run := n, recv_state := R_running\<rparr>), s)"
      by (rule recv_num_rel(2)) (use 2 f p r in \<open>simp_all add: TOKEN_REL_def TOKENRUN_REL_def\<close>)
    from idle [OF _ _ this] show ?thesis unfolding pr n0 n_def [symmetric] using 2 f(6,10) by (simp add: flag_defs)
  next
    case 3
    then have pr: "put_run st @ s = write_byte TOKEN_LONG @ write_int (run_start st) @ s"
      unfolding put_run_def Let_def d_def [symmetric] n_def [symmetric] by auto
    from idle [OF fl(1,2) recv_num_abs(1) [OF fl(5) p(1,2) fl(7)]] show ?thesis unfolding pr n0 using 3 by simp
  next
    case 4
    then have pr: "put_run st @ s = write_byte TOKENRUN_LONG @ write_int (run_start st) @ write_byte (word_of_int n) @ write_byte (word_of_int (n div 2 ^ 8)) @ s"
      unfolding put_run_def Let_def d_def [symmetric] n_def [symmetric] by auto
    from idle [OF fl(3,4) recv_num_abs(2) [OF fl(6) p(1,2) fl(8) 4(2) p(4,5)]] show ?thesis unfolding pr n0 n_def [symmetric] using 4(2) by simp
  qed
qed

text \<open>A pending run is received in full.\<close>

definition pending :: "ctok_tx \<Rightarrow> titem list" where
  "pending st = (if 0 \<le> last_token st then map TokI [run_start st..last_token st] else [])"

lemma accepts_put_run:
  assumes "pending_ok st" "accepts (recv_compressed_token lz) (idle_at (last_token st)) s xs rest"
  shows "accepts (recv_compressed_token lz) (idle_at (last_run_end st)) (put_run st @ s) (pending st @ xs) rest"
proof (unfold accepts_def, intro allI impI)
  fix r assume r: "idle_at (last_run_end st) r"
  note step = recv_put_run [OF assms(1) r, of lz s]
  define k where "k = nat (last_token st - run_start st)"
  have k: "last_token st = run_start st + int k" "0 \<le> run_start st" "last_token st \<le> MAX_TOKEN_INDEX" using assms(1) by (simp_all add: k_def pending_ok_def)
  let ?r = "if last_token st = run_start st then r\<lparr>rx_token := run_start st\<rparr>
      else r\<lparr>rx_token := run_start st, rx_run := last_token st - run_start st, recv_state := R_running\<rparr>"
  have "\<exists>r'. recvs (recv_compressed_token lz) ?r s (map TokI [run_start st + 1..last_token st] @ xs) r' rest"
  proof (cases "k = 0")
    case True
    then show ?thesis using assms(2) k(1) r by (simp add: accepts_def idle_at_def)
  next
    case False
    then show ?thesis using accepts_running [of lz "run_start st" k s xs rest ?r] assms(2) k by simp
  qed
  moreover have "pending st = TokI (run_start st) # map TokI [run_start st + 1..last_token st]"
    using k by (simp add: pending_def upto_rec1)
  ultimately show "\<exists>r'. recvs (recv_compressed_token lz) r (put_run st @ s) (pending st @ xs) r' rest"
    using recvs_tok [where recv = "recv_compressed_token lz", OF step k(2)] by auto
qed

subsection \<open>Blocks of literal data\<close>

definition data_block :: "byte list \<Rightarrow> byte list" where
  "data_block x = [DEFLATED_DATA + word_of_int (int (length x) div 2 ^ 8), word_of_int (int (length x))] @ x"

lemma accepts_lz4_block:
  assumes "lz4_good lz" "x \<noteq> []" "length (LZ4_compress lz x) \<le> nat MAX_DATA_COUNT" "accepts (recv_compressed_token lz) (idle_at e) s xs rest"
  shows "accepts (recv_compressed_token lz) (idle_at e) (data_block (LZ4_compress lz x) @ s) (map LitB x @ xs) rest"
proof (unfold accepts_def, intro allI impI)
  fix r assume r: "idle_at e r"
  define n where "n = int (length (LZ4_compress lz x))"
  have n: "0 \<le> n div 256" "n div 256 \<le> 63" "n div 256 * 256 + n mod 256 = n" using assms(3) by (auto simp: n_def MAX_DATA_COUNT_def)
  have lo: "uint (word_of_int n :: byte) = n mod 256" by (simp add: uint_word_of_int)
  have rd: "read_buf (length (LZ4_compress lz x)) (LZ4_compress lz x @ s) = Inr (LZ4_compress lz x, s)" by (simp add: read_buf_def)
  have nn: "nat n = length (LZ4_compress lz x)" by (simp add: n_def)
  have dec: "LZ4_decompress lz (LZ4_compress lz x) = Some x" using assms(1) by (simp add: lz4_good_def)
  have "recv_compressed_token lz r (((0x40 + word_of_int (n div 256)) # word_of_int n # LZ4_compress lz x) @ s)
      = Inr ((int (length x), x, r\<lparr>recv_state := R_idle\<rparr>), s)"
    using r data_flag [OF n(1,2)] n(3) lo rd dec nn
    by (simp add: recv_compressed_token_def recv_idle_def idle_at_def reader_simps read_byte_Cons DEFLATED_DATA_def)
  note recvs_lit [where recv = "recv_compressed_token lz", OF this assms(2)]
  moreover obtain r' where "recvs (recv_compressed_token lz) (r\<lparr>recv_state := R_idle\<rparr>) s xs r' rest"
    using assms(4) r by (fastforce simp: accepts_def idle_at_def)
  ultimately show "\<exists>r'. recvs (recv_compressed_token lz) r (data_block (LZ4_compress lz x) @ s) (map LitB x @ xs) r' rest"
    by (auto simp: n_def DEFLATED_DATA_def data_block_def)
qed

lemma lz4_fits:
  assumes "lz4_good lz" "length x \<le> 8191" shows "length (LZ4_compress lz x) \<le> nat MAX_DATA_COUNT"
proof -
  have "length x div 255 \<le> 8191 div 255" using assms(2) by (intro div_le_mono)
  moreover have "length (LZ4_compress lz x) \<le> length x + length x div 255 + 16" using assms(1) by (simp add: lz4_good_def)
  ultimately show ?thesis using assms(2) by (simp add: MAX_DATA_COUNT_def)
qed

text \<open>One block: all of what is left up to \<^verbatim>\<open>MAX_DATA_COUNT\<close>, or half of it when the compressed form does not fit.\<close>

lemma lz4_loop_step:
  assumes lz: "lz4_good lz" and nb: "0 < nb"
  shows "\<exists>a j x. 0 < a \<and> a \<le> nb \<and> k \<le> j \<and> x = LZ4_compress lz (map_view F (nat off) (nat a)) \<and> length x \<le> nat MAX_DATA_COUNT
    \<and> lz4_loop (Suc (Suc k)) lz F off nb None = (if nb = a then Some (Inr (data_block x))
        else run_bind (lz4_loop j lz F (off + a) (nb - a) None) (\<lambda>bs. Some (Inr (data_block x @ bs))))"
proof -
  let ?a = "min nb MAX_DATA_COUNT" and ?y = "\<lambda>a. LZ4_compress lz (map_view F (nat off) (nat a))"
  have ne: "?y a \<noteq> []" for a using lz by (simp add: lz4_good_def)
  show ?thesis
  proof (cases "length (?y ?a) \<le> nat MAX_DATA_COUNT")
    case True
    then have "int (length (?y ?a)) \<le> MAX_DATA_COUNT" by (simp add: MAX_DATA_COUNT_def)
    then have "lz4_loop (Suc (Suc k)) lz F off nb None = (if nb = ?a then Some (Inr (data_block (?y ?a)))
        else run_bind (lz4_loop (Suc k) lz F (off + ?a) (nb - ?a) None) (\<lambda>bs. Some (Inr (data_block (?y ?a) @ bs))))"
      using ne by (subst lz4_loop.simps(2)) (auto simp add: Let_def data_block_def simp del: lz4_loop.simps(2))
    then show ?thesis using True nb
      by (intro exI [of _ ?a] exI [of _ "Suc k"] exI [of _ "?y ?a"]) (simp add: MAX_DATA_COUNT_def del: lz4_loop.simps(2))
  next
    case False
    have la: "length (map_view F (nat off) (nat ?a)) = nat ?a" by simp
    have big: "8191 < nat ?a" using lz4_fits [OF lz, of "map_view F (nat off) (nat ?a)"] False la by linarith
    let ?h = "?a div 2"
    have h: "0 < ?h" "?h \<le> nb" "nat ?h \<le> 8191" using big by (auto simp: MAX_DATA_COUNT_def)
    have fit: "length (?y ?h) \<le> nat MAX_DATA_COUNT" using h(3) by (intro lz4_fits [OF lz]) simp
    then have "int (length (?y ?h)) \<le> MAX_DATA_COUNT" by (simp add: MAX_DATA_COUNT_def)
    moreover have "\<not> int (length (?y ?a)) \<le> MAX_DATA_COUNT" using False by linarith
    ultimately have "lz4_loop (Suc (Suc k)) lz F off nb None = (if nb = ?h then Some (Inr (data_block (?y ?h)))
        else run_bind (lz4_loop k lz F (off + ?h) (nb - ?h) None) (\<lambda>bs. Some (Inr (data_block (?y ?h) @ bs))))"
      using ne nb by (subst lz4_loop.simps(2)) (auto simp add: Let_def data_block_def)
    then show ?thesis using fit h(1,2) by (intro exI [of _ ?h] exI [of _ k] exI [of _ "?y ?h"]) (simp del: lz4_loop.simps(2))
  qed
qed

lemma lz4_loop_ok:
  assumes "lz4_good lz" "0 < nb" "0 \<le> off" "off + nb \<le> int (length F)" "2 * nat nb \<le> k"
  shows "\<exists>d. lz4_loop k lz F off nb None = Some (Inr d) \<and> (\<forall>e s xs rest. accepts (recv_compressed_token lz) (idle_at e) s xs rest \<longrightarrow>
    accepts (recv_compressed_token lz) (idle_at e) (d @ s) (map LitB (seg F (nat off) (nat nb)) @ xs) rest)"
  using assms(2-)
proof (induction "nat nb" arbitrary: nb off k rule: less_induct)
  case less
  obtain k' where k': "k = Suc (Suc k')" "2 * nat (nb - 1) \<le> k'" using less.prems(1,4) by (cases k; cases "k - 1") auto
  obtain a j x where a: "0 < a" "a \<le> nb" "k' \<le> j" "x = LZ4_compress lz (map_view F (nat off) (nat a))" "length x \<le> nat MAX_DATA_COUNT"
    and l: "lz4_loop k lz F off nb None = (if nb = a then Some (Inr (data_block x))
        else run_bind (lz4_loop j lz F (off + a) (nb - a) None) (\<lambda>bs. Some (Inr (data_block x @ bs))))"
    using lz4_loop_step [OF assms(1) less.prems(1), of k' F off] unfolding k'(1) by blast
  let ?y = "seg F (nat off) (nat a)"
  have y: "map_view F (nat off) (nat a) = ?y" "length ?y = nat a"
    using a(1,2) less.prems(2,3) by (auto intro!: map_view_seg length_seg)
  have "?y \<noteq> []" using y(2) a(1) by auto
  note blk = accepts_lz4_block [OF assms(1) this, unfolded y(1) [symmetric], folded a(4), OF a(5), unfolded y(1)]
  show ?case
  proof (cases "nb = a")
    case True
    then show ?thesis using l blk by auto
  next
    case False
    have "nat (nb - a) < nat nb" "0 < nb - a" "0 \<le> off + a" "off + a + (nb - a) \<le> int (length F)" "2 * nat (nb - a) \<le> j"
      using a(1,2,3) False less.prems(2,3) k'(2) by auto
    from less.hyps [OF this] obtain d where d: "lz4_loop j lz F (off + a) (nb - a) None = Some (Inr d)"
      "\<And>e s xs rest. accepts (recv_compressed_token lz) (idle_at e) s xs rest \<Longrightarrow>
        accepts (recv_compressed_token lz) (idle_at e) (d @ s) (map LitB (seg F (nat (off + a)) (nat (nb - a))) @ xs) rest" by blast
    have "seg F (nat off) (nat nb) = ?y @ seg F (nat (off + a)) (nat (nb - a))"
      using seg_append [of F "nat off" "nat a" "nat (nb - a)"] a(1,2) less.prems(2) by (simp add: nat_add_distrib flip: nat_add_distrib)
    then show ?thesis using l d(1) False blk [OF d(2)] by (auto simp: run_bind_def)
  qed
qed

subsection \<open>Calls\<close>

definition send_inv :: "ctok_tx \<Rightarrow> bool" where
  "send_inv st \<longleftrightarrow> last_token st \<ge> -2 \<and> (0 \<le> last_token st \<longrightarrow> pending_ok st)"

definition last_end :: "ctok_tx \<Rightarrow> int" where
  "last_end st = (if last_token st = -1 then 0 else last_run_end st)"

text \<open>The start of a call leaves the run before it to be sent, or to be extended by this block.\<close>

lemma begin_token_cases:
  assumes "send_inv st" "-2 \<le> token" "token \<le> MAX_TOKEN_INDEX" "begin_token st token nb = (b, st1)"
  obtains (sent) "b = (if 0 \<le> last_token st then put_run st else [])" "last_token st1 = token" "send_inv st1"
      "pending st1 = (if 0 \<le> token then [TokI token] else [])" "last_run_end st1 = (if 0 \<le> last_token st then last_token st else last_end st)"
      "flush_pending st1 = (last_token st \<noteq> -1 \<and> flush_pending st)"
  | (extended) "b = []" "nb = 0" "0 \<le> token" "pending st1 = pending st @ [TokI token]" "last_run_end st1 = last_end st" "last_token st1 = token" "send_inv st1"
      "flush_pending st1 = (last_token st \<noteq> -1 \<and> flush_pending st)"
proof (cases "0 \<le> last_token st \<and> \<not> (nb \<noteq> 0 \<or> token \<noteq> last_token st + 1 \<or> token \<ge> run_start st + 65536)")
  case True
  then have p: "pending_ok st" "nb = 0" "token = last_token st + 1" "token < run_start st + 65536" using assms(1) by (auto simp: send_inv_def)
  have e: "b = []" "st1 = st\<lparr>last_token := token\<rparr>" using True assms(4) by (auto simp: begin_token_def Let_def split: if_splits)
  have "[run_start st..last_token st + 1] = [run_start st..last_token st] @ [last_token st + 1]"
    using p(1) by (intro upto_rec2 [of "run_start st" "last_token st + 1", simplified]) (simp add: pending_ok_def)
  then show thesis using True p e assms(3) by (intro extended) (auto simp: pending_def last_end_def send_inv_def pending_ok_def)
next
  case False
  have "b = (if 0 \<le> last_token st then put_run st else [])" "last_token st1 = token" "run_start st1 = token"
    "last_run_end st1 = (if 0 \<le> last_token st then last_token st else last_end st)" "flush_pending st1 = (last_token st \<noteq> -1 \<and> flush_pending st)"
    using False assms(1,4) by (auto simp: begin_token_def Let_def send_inv_def last_end_def split: if_splits)
  then show thesis using assms(2,3) by (intro sent) (auto simp: pending_def send_inv_def pending_ok_def)
qed

lemma accepts_begin_sent:
  assumes "send_inv st" "accepts (recv_compressed_token lz) (idle_at (if 0 \<le> last_token st then last_token st else last_end st)) s xs rest"
  shows "accepts (recv_compressed_token lz) (idle_at (last_end st)) ((if 0 \<le> last_token st then put_run st else []) @ s) (pending st @ xs) rest"
  using assms accepts_put_run [of st lz s xs rest] by (cases "0 \<le> last_token st") (auto simp: send_inv_def last_end_def pending_def)

text \<open>No call without data follows one that leaves a block of LZ4 open.\<close>

primrec flush_ok :: "bool \<Rightarrow> send_call list \<Rightarrow> bool" where
  "flush_ok p [] = True"
| "flush_ok p (c # cs) \<longleftrightarrow> (sc_n c = 0 \<longrightarrow> \<not> p) \<and> flush_ok (if sc_n c = 0 then p else sc_token c = -2) cs"

lemma send_compressed_call:
  assumes "lz4_good lz" "call_range F c" "begin_token st (sc_token c) (sc_n c) = (b, st1)" "sc_n c = 0 \<Longrightarrow> \<not> flush_pending st1"
  shows "\<exists>d. send_compressed_token lz F st c = Some (Inr (b @ d @ (if sc_token c = -1 then [END_FLAG] else []),
      if sc_n c = 0 then st1 else st1\<lparr>flush_pending := (sc_token c = -2)\<rparr>))
    \<and> (sc_n c = 0 \<longrightarrow> d = [])
    \<and> (\<forall>e s xs rest. accepts (recv_compressed_token lz) (idle_at e) s xs rest \<longrightarrow>
        accepts (recv_compressed_token lz) (idle_at e) (d @ s) (map LitB (literal F c) @ xs) rest)"
proof (cases "sc_n c = 0")
  case True
  then show ?thesis using assms(3,4) by (simp add: send_compressed_token_def run_bind_def literal_def write_byte_def)
next
  case False
  have "0 < sc_n c" "0 \<le> sc_offset c" "sc_offset c + sc_n c \<le> int (length F)" using False assms(2) by (auto simp: call_range_def)
  from lz4_loop_ok [OF assms(1) this, of "2 * nat (sc_n c) + 2"] show ?thesis
    using False assms(3) by (auto simp: send_compressed_token_def run_bind_def literal_def write_byte_def simp del: lz4_loop.simps)
qed

lemma accepts_lz4_end: "accepts (recv_compressed_token lz) (idle_at e) (END_FLAG # rest) [] rest"
  by (auto simp: accepts_def idle_at_def recv_compressed_token_def recv_idle_def reader_simps read_byte_Cons flag_defs intro!: exI recvs_end)

lemma send_calls_lz4:
  assumes "calls_ok F cnt cs" "lz4_good lz" "cnt \<le> MAX_TOKEN_INDEX + 1" "send_inv st" "flush_ok (last_token st \<noteq> -1 \<and> flush_pending st) cs"
  shows "\<exists>w st'. send_calls (send_compressed_token lz) F st cs = Some (Inr (w, st')) \<and> last_token st' = -1
    \<and> (\<forall>rest. accepts (recv_compressed_token lz) (idle_at (last_end st)) (w @ rest) (pending st @ call_items F cs) rest)"
  using assms(1,4,5)
proof (induction arbitrary: st rule: calls_ok_induct)
  case (End c)
  obtain b st1 where bt: "begin_token st (sc_token c) (sc_n c) = (b, st1)" by fastforce
  have t: "-2 \<le> sc_token c" "sc_token c \<le> MAX_TOKEN_INDEX" using End(2) by (simp_all add: MAX_TOKEN_INDEX_def)
  show ?case
  proof (cases rule: begin_token_cases [OF End(3) t bt])
    case 1
    from send_compressed_call [OF assms(2) End(1) bt] 1(6) End(4) obtain d st2 where
      d: "send_compressed_token lz F st c = Some (Inr (b @ d @ [END_FLAG], st2))" "last_token st2 = -1"
      "\<And>e s xs rest. accepts (recv_compressed_token lz) (idle_at e) s xs rest \<Longrightarrow>
        accepts (recv_compressed_token lz) (idle_at e) (d @ s) (map LitB (literal F c) @ xs) rest"
      using End(2) 1(2) by (auto split: if_splits)
    show ?thesis using d(1,2) accepts_begin_sent [OF End(3) d(3) [OF accepts_lz4_end]] 1(1) End(2)
      by (simp add: run_bind_def call_items_simps call_token_def)
  qed (use End(2) in simp)
next
  case (More c cs)
  obtain b st1 where bt: "begin_token st (sc_token c) (sc_n c) = (b, st1)" by fastforce
  have t: "-2 \<le> sc_token c" "sc_token c \<le> MAX_TOKEN_INDEX" "sc_token c \<noteq> -1" "call_range F c"
    using More(1) assms(3) by (auto simp: open_call_def MAX_TOKEN_INDEX_def)
  define st2 where "st2 = (if sc_n c = 0 then st1 else st1\<lparr>flush_pending := (sc_token c = -2)\<rparr>)"
  have fl: "flush_pending st1 = (last_token st \<noteq> -1 \<and> flush_pending st)" "last_token st1 = sc_token c" "send_inv st1"
    using begin_token_cases [OF More(4) t(1,2) bt] by metis+
  have st2: "last_token st2 = sc_token c" "send_inv st2" "last_end st2 = last_run_end st1" "pending st2 = pending st1"
    using fl(2,3) t(3) by (simp_all add: st2_def send_inv_def last_end_def pending_def pending_ok_def)
  from send_compressed_call [OF assms(2) t(4) bt] fl(1) More(5) t(3) obtain d where
    d: "send_compressed_token lz F st c = Some (Inr (b @ d, st2))" "sc_n c = 0 \<longrightarrow> d = []"
    "\<And>e s xs rest. accepts (recv_compressed_token lz) (idle_at e) s xs rest \<Longrightarrow>
      accepts (recv_compressed_token lz) (idle_at e) (d @ s) (map LitB (literal F c) @ xs) rest" by (auto simp: st2_def)
  have "flush_ok (last_token st2 \<noteq> -1 \<and> flush_pending st2) cs"
    using More(5) fl(1,2) t(3) by (auto simp: st2_def split: if_splits)
  from More(3) [OF st2(2) this] obtain w st' where w: "send_calls (send_compressed_token lz) F st2 cs = Some (Inr (w, st'))" "last_token st' = -1"
    "\<And>rest. accepts (recv_compressed_token lz) (idle_at (last_run_end st1)) (w @ rest) (pending st1 @ call_items F cs) rest"
    using st2(3,4) by auto
  have "accepts (recv_compressed_token lz) (idle_at (last_end st)) ((b @ d @ w) @ rest) (pending st @ call_items F (c # cs)) rest" for rest
  proof (cases rule: begin_token_cases [OF More(4) t(1,2) bt])
    case 1
    have "accepts (recv_compressed_token lz) (idle_at (last_run_end st1)) (d @ w @ rest) (map LitB (literal F c) @ call_token c @ call_items F cs) rest"
      using d(3) [OF w(3)] 1(4) by (simp add: call_token_def)
    from accepts_begin_sent [OF More(4) this [unfolded 1(5)]] show ?thesis using 1(1) by (simp add: call_items_simps)
  next
    case 2
    then show ?thesis using w(3) d(2) by (simp add: call_items_simps call_token_def literal_def)
  qed
  then show ?case using d(1) w(1,2) by (simp add: run_bind_def)
qed

text \<open>Both sides start a file in the state in which they left the one before it.\<close>

definition lz4_ready :: "lz4 \<Rightarrow> int \<Rightarrow> byte list \<Rightarrow> ctok_tx \<Rightarrow> send_call list \<Rightarrow> bool" where
  "lz4_ready lz cnt F t cs \<longleftrightarrow> lz4_good lz \<and> cnt \<le> MAX_TOKEN_INDEX + 1 \<and> calls_ok F cnt cs \<and> last_token t = -1 \<and> flush_ok False cs"

interpretation lz4_channel: token_channel "send_compressed_token lz" "recv_compressed_token lz" "lz4_ready lz cnt"
    "\<lambda>t t' r. recv_state r = R_init" for lz cnt
proof (unfold_locales, goal_cases)
  case (1 F t cs)
  then have "send_inv t" "pending t = []" "last_end t = 0" by (simp_all add: lz4_ready_def send_inv_def pending_def last_end_def)
  with send_calls_lz4 [of F cnt cs lz t] 1 obtain w st' where w: "send_calls (send_compressed_token lz) F t cs = Some (Inr (w, st'))" "last_token st' = -1"
    "\<And>rest. accepts (recv_compressed_token lz) (idle_at 0) (w @ rest) (call_items F cs) rest" by (auto simp: lz4_ready_def)
  have "\<exists>r'. recvs (recv_compressed_token lz) r (w @ rest) (call_items F cs) r' rest" if "recv_state r = R_init" for r rest
  proof -
    let ?r = "r\<lparr>recv_state := R_idle, rx_token := 0\<rparr>"
    have "recv_compressed_token lz r (w @ rest) = recv_compressed_token lz ?r (w @ rest)"
      using that by (simp add: recv_compressed_token_def)
    moreover obtain r' where "recvs (recv_compressed_token lz) ?r (w @ rest) (call_items F cs) r' rest"
      using w(3) [of rest] by (fastforce simp: accepts_def idle_at_def)
    ultimately show ?thesis using recvs_same by metis
  qed
  then show ?case using w(1) by auto
qed

lemma lz4_calls_end:
  assumes "lz4_ready lz cnt F t cs" "send_calls (send_compressed_token lz) F t cs = Some (Inr (w, t'))"
  shows "last_token t' = -1"
  using send_calls_lz4 [of F cnt cs lz t] assms by (auto simp: lz4_ready_def send_inv_def)

subsection \<open>Any bytes\<close>

definition rx_bounds :: "ctok_rx \<Rightarrow> bool" where
  "rx_bounds r \<longleftrightarrow> 0 \<le> rx_token r \<and> rx_token r \<le> MAX_TOKEN_INDEX
     \<and> (recv_state r = R_running \<longrightarrow> 0 < rx_run r \<and> rx_token r + rx_run r \<le> MAX_TOKEN_INDEX)"

lemma recv_num_bounds:
  assumes "rx_bounds r" "recv_state r = R_idle" "recv_compressed_token_num r f s = Inr ((i, r'), s')"
  shows "rx_bounds r' \<and> i = -1 - rx_token r'"
proof -
  let ?fin = "\<lambda>(st1, flag1). if flag1 AND 1 \<noteq> 0
          then rd_bind read_byte (\<lambda>lo. rd_bind read_byte (\<lambda>hi.
                 let run = uint lo + uint hi * 2 ^ 8
                 in if run \<le> 0 \<or> rx_token st1 > MAX_TOKEN_INDEX - run then rd_fail RERR_PROTOCOL
                    else rd_return (-1 - rx_token st1, st1\<lparr>rx_run := run, recv_state := R_running\<rparr>)))
          else rd_return (-1 - rx_token st1, st1)"
  have fin: "rx_bounds r' \<and> i = -1 - rx_token r'"
    if "?fin (r\<lparr>rx_token := a\<rparr>, g) q = Inr ((i, r'), s')" "0 \<le> a" "a \<le> MAX_TOKEN_INDEX" for a g q
    using that assms(2) by (auto simp: rd_bind_eq_Inr rd_fail_def rd_return_def Let_def rx_bounds_def split: if_splits)
  show ?thesis
  proof (cases "f AND TOKEN_REL \<noteq> 0")
    case True
    have m: "\<not> rx_token r > MAX_TOKEN_INDEX - uint (f AND 0x3f)"
      using assms(3) True by (auto simp: recv_compressed_token_num_def rd_bind_eq_Inr rd_fail_def Let_def split: if_splits)
    have "?fin (r\<lparr>rx_token := rx_token r + uint (f AND 0x3f)\<rparr>, drop_bit 6 f) s = Inr ((i, r'), s')"
      using assms(3) True m unfolding recv_compressed_token_num_def Let_def by (simp add: reader_simps)
    moreover have "0 \<le> rx_token r + uint (f AND 0x3f)" "rx_token r + uint (f AND 0x3f) \<le> MAX_TOKEN_INDEX"
      using m assms(1) by (simp_all add: rx_bounds_def)
    ultimately show ?thesis by (rule fin)
  next
    case False
    then have e: "recv_compressed_token_num r f s = rd_bind (rd_bind read_int (\<lambda>t. if t < 0 \<or> t > MAX_TOKEN_INDEX then rd_fail RERR_PROTOCOL
        else rd_return (r\<lparr>rx_token := t\<rparr>, f))) ?fin s" by (simp add: recv_compressed_token_num_def)
    obtain v s1 where v: "rd_bind read_int (\<lambda>t. if t < 0 \<or> t > MAX_TOKEN_INDEX then rd_fail RERR_PROTOCOL
        else rd_return (r\<lparr>rx_token := t\<rparr>, f)) s = Inr (v, s1)" "?fin v s1 = Inr ((i, r'), s')"
      using assms(3) unfolding e rd_bind_eq_Inr by blast
    then obtain a where "v = (r\<lparr>rx_token := a\<rparr>, f)" "0 \<le> a" "a \<le> MAX_TOKEN_INDEX"
      by (auto simp: rd_bind_eq_Inr rd_fail_def rd_return_def split: if_splits)
    then show ?thesis using fin v(2) by blast
  qed
qed

lemma recv_idle_bounds:
  assumes "rx_bounds r" "recv_state r = R_idle" "recv_idle lz r s = Inr ((i, d, r'), s')"
  shows "rx_bounds r' \<and> (i < 0 \<longrightarrow> 0 \<le> -1 - i \<and> -1 - i \<le> MAX_TOKEN_INDEX \<and> -1 - i = rx_token r')"
proof -
  obtain f s1 where f: "read_byte s = Inr (f, s1)" using assms(3) by (auto simp: recv_idle_def rd_bind_eq_Inr)
  show ?thesis
  proof (cases "f AND 0xC0 = DEFLATED_DATA \<or> f = END_FLAG")
    case True
    then have "0 \<le> i" "rx_token r' = rx_token r" "recv_state r' \<noteq> R_running"
      using assms(3) f by (auto simp: recv_idle_def rd_bind_eq_Inr rd_return_def rd_fail_def split: if_splits option.splits)
    then show ?thesis using assms(1) by (simp add: rx_bounds_def)
  next
    case False
    then obtain j where "recv_compressed_token_num r f s1 = Inr ((j, r'), s')" "i = j"
      using assms(3) f by (auto simp: recv_idle_def rd_bind_eq_Inr rd_return_def)
    from recv_num_bounds [OF assms(1,2) this(1)] this(2) show ?thesis by (auto simp: rx_bounds_def)
  qed
qed

section \<open>Properties of the tokens\<close>

text \<open>
  C20: Plain tokens over the control connection. For every list of calls that the sender makes for a file with \<open>cnt\<close> blocks,
  \<^verbatim>\<open>simple_send_token\<close> succeeds and \<^verbatim>\<open>simple_recv_token\<close> gives back, from any following stream, exactly the literal bytes and the
  block numbers of those calls in their order, then the end of the file, and consumes exactly the bytes sent.
\<close>

theorem plain_tokens_roundtrip:
  assumes "calls_ok F cnt cs" "cnt < 2 ^ 31"
  shows "\<exists>w t'. send_calls (simple_send_token \<lparr>se_rdma = False, se_chunk = ch, se_depth = dep, se_synthetic = sy\<rparr>) F t cs = Some (Inr (w, t'))
    \<and> (\<forall>r rest. residue r = 0 \<longrightarrow> (\<exists>r'. recvs (simple_recv_token False) r (w @ rest) (call_items F cs) r' rest))"
  using plain_channel.roundtrip [of cnt F t cs ch dep sy] assms by (simp add: plain_ready_def)

theorem plain_tokens_roundtrip_witness:
  "\<exists>w t'. send_calls (simple_send_token \<lparr>se_rdma = False, se_chunk = 0, se_depth = 0, se_synthetic = False\<rparr>) [7, 8, 9, 10]
       \<lparr>sx_rdma = \<lparr>tx_chunk = 4, tx_depth = 2, tx_rails = 1, tx_paths = \<lambda>_. fresh_path, send_seq = 0, tx_data_bytes = 0, tx_data_messages = 0\<rparr>,
        rdma_control_pending = 0, sx_flushes = 0\<rparr>
       [\<lparr>sc_token = 2, sc_offset = 0, sc_n = 1, sc_toklen = 2\<rparr>, \<lparr>sc_token = -1, sc_offset = 3, sc_n = 1, sc_toklen = 0\<rparr>] = Some (Inr (w, t'))
     \<and> (\<forall>r rest. residue r = 0 \<longrightarrow> (\<exists>r'. recvs (simple_recv_token False) r (w @ rest) [LitB 7, TokI 2, LitB 10] r' rest))"
  using plain_tokens_roundtrip [of "[7, 8, 9, 10]" 3
    "[\<lparr>sc_token = 2, sc_offset = 0, sc_n = 1, sc_toklen = 2\<rparr>, \<lparr>sc_token = -1, sc_offset = 3, sc_n = 1, sc_toklen = 0\<rparr>]" 0 0 False
    "\<lparr>sx_rdma = \<lparr>tx_chunk = 4, tx_depth = 2, tx_rails = 1, tx_paths = \<lambda>_. fresh_path, send_seq = 0, tx_data_bytes = 0, tx_data_messages = 0\<rparr>,
      rdma_control_pending = 0, sx_flushes = 0\<rparr>"]
  by (simp add: calls_ok_def call_range_def open_call_def call_items_def seg_def del: send_calls.simps)

text \<open>
  C11: Plain tokens with the literals on the RDMA rails. While the messages of the connection fit a 32-bit count and the library calls
  of the sender succeed, the calls of a file are all sent. A receiver with the same number of rails and chunk size, that has taken
  all earlier messages and to which each rail brings exactly what the sender has put on that rail since, reads from the
  control connection and the rails together exactly the literal bytes and the block numbers of the calls, then the end.
\<close>

theorem rails_tokens_roundtrip:
  assumes "rails_ready se cnt F t cs"
  shows "\<exists>w t'. send_calls (simple_send_token se) F t cs = Some (Inr (w, t'))
    \<and> (\<forall>r rest. rails_link t t' r \<longrightarrow> (\<exists>r'. recvs (simple_recv_token True) r (w @ rest) (call_items F cs) r' rest))"
  using rails_channel.roundtrip [OF assms] .

theorem rails_tokens_roundtrip_witness:
  "let se = \<lparr>se_rdma = True, se_chunk = 2, se_depth = 2, se_synthetic = False\<rparr>;
       t = \<lparr>sx_rdma = \<lparr>tx_chunk = 2, tx_depth = 2, tx_rails = 2, tx_paths = \<lambda>_. fresh_path, send_seq = 0, tx_data_bytes = 0, tx_data_messages = 0\<rparr>,
         rdma_control_pending = 0, sx_flushes = 0\<rparr>
   in \<exists>w t' r'. send_calls (simple_send_token se) [7, 8, 9] t [\<lparr>sc_token = -1, sc_offset = 0, sc_n = 3, sc_toklen = 0\<rparr>] = Some (Inr (w, t'))
      \<and> rails_link t t' (linked_rx 2 t t')
      \<and> recvs (simple_recv_token True) (linked_rx 2 t t') w [LitB 7, LitB 8, LitB 9] r' []"
proof -
  let ?se = "\<lparr>se_rdma = True, se_chunk = 2, se_depth = 2, se_synthetic = False\<rparr>"
  let ?t = "\<lparr>sx_rdma = \<lparr>tx_chunk = 2, tx_depth = 2, tx_rails = 2, tx_paths = \<lambda>_. fresh_path, send_seq = 0, tx_data_bytes = 0, tx_data_messages = 0\<rparr>,
         rdma_control_pending = 0, sx_flushes = 0\<rparr>"
  let ?cs = "[\<lparr>sc_token = -1, sc_offset = 0, sc_n = 3, sc_toklen = 0\<rparr>]"
  have inv: "tx_inv (sx_rdma ?t) []" by (simp add: tx_inv_def fresh_path_inv rail_msgs_def data_msgs_def)
  have ps: "length (call_pieces (nat (se_chunk ?se)) [7, 8, 9 :: byte] ?cs) = 2" by (simp add: call_pieces_def literal_def pieces.simps seg_def)
  have ok: "calls_ok [7, 8, 9] 0 ?cs" "rdma_env ?se ?t" by (simp_all add: calls_ok_def call_range_def rdma_env_def)
  have rdy: "rails_ready ?se 0 [7, 8, 9] ?t ?cs" unfolding rails_ready_def length_append ps using inv ok by (auto intro: exI [of _ "[]"])
  from rails_tokens_roundtrip [OF rdy] obtain w t' where w: "send_calls (simple_send_token ?se) [7, 8, 9] ?t ?cs = Some (Inr (w, t'))"
    "\<And>r rest. rails_link ?t t' r \<Longrightarrow> \<exists>r'. recvs (simple_recv_token True) r (w @ rest) (call_items [7, 8, 9] ?cs) r' rest" by blast
  have link: "rails_link ?t t' (linked_rx 2 ?t t')" by (rule rails_link_exists [OF rdy _ w(1)]) simp_all
  from w(2) [OF this, of "[]"] w(1) link show ?thesis by (simp add: call_items_def seg_def Let_def del: send_calls.simps)
qed

text \<open>
  C12: LZ4 tokens with runs of block numbers. When LZ4 decompresses what it compressed and keeps to its bound, and no call without data
  follows one that left a block open, \<^verbatim>\<open>send_compressed_token\<close> succeeds for every list of calls of a file, its loop over blocks that do not
  fit included, and \<^verbatim>\<open>recv_compressed_token\<close> gives back exactly the literal bytes and block numbers, with the runs expanded, then the end.
\<close>

theorem lz4_tokens_roundtrip:
  assumes "lz4_good lz" "calls_ok F cnt cs" "cnt \<le> MAX_TOKEN_INDEX + 1" "last_token t = -1" "flush_ok False cs"
  shows "\<exists>w t'. send_calls (send_compressed_token lz) F t cs = Some (Inr (w, t'))
    \<and> last_token t' = -1 \<and> (\<forall>r rest. recv_state r = R_init \<longrightarrow> (\<exists>r'. recvs (recv_compressed_token lz) r (w @ rest) (call_items F cs) r' rest))"
proof -
  have "lz4_ready lz cnt F t cs" using assms by (simp add: lz4_ready_def)
  from lz4_channel.roundtrip [OF this] lz4_calls_end [OF this] show ?thesis by blast
qed

theorem lz4_tokens_roundtrip_witness:
  "let lz = \<lparr>LZ4_compress = (\<lambda>x. 0 # x), LZ4_decompress = (\<lambda>y. case y of [] \<Rightarrow> None | _ # x \<Rightarrow> Some x)\<rparr>;
       t = \<lparr>last_token = -1, run_start = 0, last_run_end = 0, flush_pending = False\<rparr>;
       cs = [\<lparr>sc_token = 1, sc_offset = 0, sc_n = 1, sc_toklen = 1\<rparr>, \<lparr>sc_token = 2, sc_offset = 2, sc_n = 0, sc_toklen = 1\<rparr>,
             \<lparr>sc_token = -1, sc_offset = 3, sc_n = 1, sc_toklen = 0\<rparr>]
   in \<exists>w t'. send_calls (send_compressed_token lz) [7, 8, 9, 10] t cs = Some (Inr (w, t')) \<and> last_token t' = -1
      \<and> (\<forall>r rest. recv_state r = R_init \<longrightarrow> (\<exists>r'. recvs (recv_compressed_token lz) r (w @ rest) [LitB 7, TokI 1, TokI 2, LitB 10] r' rest))"
proof -
  let ?lz = "\<lparr>LZ4_compress = (\<lambda>x. 0 # x), LZ4_decompress = (\<lambda>y. case y of [] \<Rightarrow> None | _ # x \<Rightarrow> Some x)\<rparr>"
  let ?cs = "[\<lparr>sc_token = 1, sc_offset = 0, sc_n = 1, sc_toklen = 1\<rparr>, \<lparr>sc_token = 2, sc_offset = 2, sc_n = 0, sc_toklen = 1\<rparr>,
             \<lparr>sc_token = -1, sc_offset = 3, sc_n = 1, sc_toklen = 0\<rparr>]"
  have "lz4_good ?lz" by (simp add: lz4_good_def)
  moreover have "calls_ok [7, 8, 9, 10] 3 ?cs" "flush_ok False ?cs" by (simp_all add: calls_ok_def call_range_def open_call_def)
  ultimately show ?thesis
    using lz4_tokens_roundtrip [of ?lz "[7, 8, 9, 10]" 3 ?cs "\<lparr>last_token = -1, run_start = 0, last_run_end = 0, flush_pending = False\<rparr>"]
    by (simp add: MAX_TOKEN_INDEX_def call_items_def seg_def Let_def del: send_calls.simps)
qed

text \<open>
  C25: The receiver of compressed tokens, for any bytes whatever. It keeps its block number within 0 and \<^verbatim>\<open>MAX_TOKEN_INDEX\<close> and the rest of a
  run within that bound, and a block number that it returns is in that range; bytes that would leave the range are a protocol error.
\<close>

theorem recv_compressed_token_bounds:
  assumes "rx_bounds r" "recv_compressed_token lz r s = Inr ((i, d, r'), s')"
  shows "rx_bounds r' \<and> (i < 0 \<longrightarrow> 0 \<le> -1 - i \<and> -1 - i \<le> MAX_TOKEN_INDEX \<and> -1 - i = rx_token r')"
proof (cases "recv_state r")
  case R_running
  then show ?thesis using assms
    by (auto simp: rx_bounds_def recv_compressed_token_def recv_compressed_token_run_def Let_def reader_simps rd_bind_eq_Inr split: if_splits)
next
  case R_init
  then have "recv_idle lz (r\<lparr>recv_state := R_idle, rx_token := 0\<rparr>) s = Inr ((i, d, r'), s')" using assms(2) by (simp add: recv_compressed_token_def)
  from recv_idle_bounds [OF _ _ this] show ?thesis using assms(1) by (simp add: rx_bounds_def MAX_TOKEN_INDEX_def)
next
  case R_idle
  then have "recv_idle lz r s = Inr ((i, d, r'), s')" using assms(2) by (simp add: recv_compressed_token_def)
  from recv_idle_bounds [OF assms(1) R_idle this] show ?thesis .
qed (use assms in \<open>auto simp: recv_compressed_token_def rd_fail_def rx_bounds_def\<close>)

theorem recv_compressed_token_bounds_witness:
  "let lz = \<lparr>LZ4_compress = (\<lambda>x. 0 # x), LZ4_decompress = (\<lambda>y. case y of [] \<Rightarrow> None | _ # x \<Rightarrow> Some x)\<rparr>;
       r = \<lparr>recv_state = R_idle, rx_token = 5, rx_run = 0\<rparr>
   in recv_compressed_token lz r [0x83] = Inr ((-9, [], \<lparr>recv_state = R_idle, rx_token = 8, rx_run = 0\<rparr>), [])
      \<and> 0 \<le> (8 :: int) \<and> (8 :: int) \<le> MAX_TOKEN_INDEX"
proof -
  let ?lz = "\<lparr>LZ4_compress = (\<lambda>x. 0 # x), LZ4_decompress = (\<lambda>y. case y of [] \<Rightarrow> None | _ # x \<Rightarrow> Some x)\<rparr>"
  let ?r = "\<lparr>recv_state = R_idle, rx_token = 5, rx_run = 0\<rparr>"
  have "recv_compressed_token ?lz ?r [0x83] = Inr ((-9, [], \<lparr>recv_state = R_idle, rx_token = 8, rx_run = 0\<rparr>), [])"
    using recv_idle_num [of ?r "0x83" "[]" "-9" "\<lparr>recv_state = R_idle, rx_token = 8, rx_run = 0\<rparr>" "[]" ?lz]
      recv_num_rel(1) [of "0x83" 3 ?r 8 "[]"] by (simp add: flag_defs MAX_TOKEN_INDEX_def write_byte_def)
  with recv_compressed_token_bounds [OF _ this] show ?thesis by (simp add: rx_bounds_def MAX_TOKEN_INDEX_def)
qed

end
