(* ===== verification/Receiver.thy ===== *)
theory Receiver
  imports FileWrite Token
begin

text \<open>
  \<^verbatim>\<open>receive_data\<close> of \<^verbatim>\<open>receiver.c\<close>: the signature header, the basis window, the loop over the tokens, the output file
  and the checksum of the whole file. The tokens come from any channel of the theory of tokens; the digest is an argument.
\<close>

section \<open>Definitions\<close>

text \<open>
  What \<^verbatim>\<open>receive_data\<close> finds around it: options, the open descriptors (\<open>rc_have_fd\<close> is \<^verbatim>\<open>fd != -1\<close>), and the kernel.
  \<open>rc_reads\<close> gives the reads of the basis from the present contents of the output file, for with \<^verbatim>\<open>--inplace\<close> they are the same file.
\<close>

record recv_env =
  rc_cf :: sum_conf
  rc_out :: wenv
  rc_have_fd :: bool
  rc_updating :: bool
  rc_inplace_sizing :: bool
  rc_device :: bool
  rc_inplace :: bool
  preallocate_files :: bool
  rc_dry_run :: bool
  rc_read_only :: bool
  rc_whole_file :: bool
  rc_fallocate_ok :: bool
  rc_st_blocks :: "nat \<Rightarrow> int option"
  rc_fsync_fails :: bool
  rc_digest :: "byte list \<Rightarrow> byte list"
  rc_map :: map_conf
  rc_reads :: "byte list \<Rightarrow> rd_env"

record recv_st =
  rs_map :: "map_struct option"
  rs_out :: wstate
  rs_offset :: int
  rs_summed :: "byte list"
  literal_data :: int
  matched_data :: int

text \<open>
  \<^verbatim>\<open>do_fallocate\<close> asks for a length that differs by one from the wanted one. It keeps the size of the file unless holes
  will be punched; otherwise its result is what \<^verbatim>\<open>fstat\<close> says is allocated. \<open>rc_read_only\<close> is \<^verbatim>\<open>read_only || list_only\<close>.
\<close>

definition do_fallocate :: "recv_env \<Rightarrow> wstate \<Rightarrow> int \<Rightarrow> int \<times> wstate" where
  "do_fallocate re w len =
     (let keep = (rc_inplace re \<or> preallocate_files re) \<and> sparse_files (rc_out re) \<le> 0;
          len1 = (if odd len then len + 1 else len - 1)
      in if rc_dry_run re \<or> rc_read_only re then (-1, w)
         else if \<not> rc_fallocate_ok re then (-1, w)
         else if keep then (len1, w)
         else (let w1 = w\<lparr>wf_data := wf_data w @ replicate (nat len1 - length (wf_data w)) 0\<rparr>
               in (case rc_st_blocks re (length (wf_data w1)) of None \<Rightarrow> len1 | Some b \<Rightarrow> b * 512, w1)))"

definition start_output :: "recv_env \<Rightarrow> wstate \<Rightarrow> int \<Rightarrow> int \<Rightarrow> wstate" where
  "start_output re w size_r total_size =
     (if preallocate_files re \<and> rc_have_fd re \<and> total_size > 0 \<and> (\<not> rc_inplace_sizing re \<or> total_size > size_r)
      then (let (r, w1) = do_fallocate re w total_size in w1\<lparr>preallocated_len := r\<rparr>)
      else if rc_inplace_sizing re
      then (if sparse_files (rc_out re) > 0 \<and> rc_whole_file re \<and> rc_have_fd re
            then (let (r, w1) = do_ftruncate (rc_out re) w 0 in w1\<lparr>preallocated_len := (if r = 0 then 0 else size_r)\<rparr>)
            else w\<lparr>preallocated_len := size_r\<rparr>)
      else w\<lparr>preallocated_len := 0\<rparr>)"

definition map_basis :: "recv_env \<Rightarrow> bool \<Rightarrow> int \<Rightarrow> sum_struct \<Rightarrow> map_struct option" where
  "map_basis re have_basis size_r s =
     (if have_basis \<and> size_r > 0
      then Some (map_file (rc_map re) size_r (max (ss_blength s * 2) (16 * 1024)) (ss_blength s)) else None)"

text \<open>In append mode 2 the old data is part of the checksum; then the output continues behind it.\<close>

function append_sum :: "rd_env \<Rightarrow> int \<Rightarrow> map_struct \<Rightarrow> int \<Rightarrow> byte list \<Rightarrow> rerr + (map_struct \<times> byte list)" where
  "append_sum rd flength mp offset fed =
     (if offset + CHUNK_SIZE < flength
      then (case map_ptr rd mp offset CHUNK_SIZE of Inl e \<Rightarrow> Inl e
            | Inr (b, mp1) \<Rightarrow> append_sum rd flength mp1 (offset + CHUNK_SIZE) (fed @ b))
      else if offset < flength
      then (case map_ptr rd mp offset (flength - offset) of Inl e \<Rightarrow> Inl e | Inr (b, mp1) \<Rightarrow> Inr (mp1, fed @ b))
      else Inr (mp, fed))"
  by pat_completeness auto
termination by (relation "measure (\<lambda>(rd, flength, mp, offset, fed). nat (flength - offset))") (auto simp: CHUNK_SIZE_def)

declare append_sum.simps [simp del]

definition append_start :: "recv_env \<Rightarrow> sum_struct \<Rightarrow> recv_st \<Rightarrow> recv_st run" where
  "append_start re s st =
     (if append_mode (rc_cf re) > 0
      then (let flength = ss_count s * ss_blength s - (if ss_remainder s \<noteq> 0 then ss_blength s - ss_remainder s else 0)
            in case (if append_mode (rc_cf re) = 2
                     then (case rs_map st of None \<Rightarrow> Inr st
                           | Some mp \<Rightarrow> (case append_sum (rc_reads re (wf_data (rs_out st))) flength mp (rs_offset st) (rs_summed st) of
                               Inl e \<Rightarrow> Inl e | Inr (mp1, fed) \<Rightarrow> Inr (st\<lparr>rs_map := Some mp1, rs_summed := fed\<rparr>)))
                     else Inr st) of
                 Inl e \<Rightarrow> Some (Inl e)
               | Inr st1 \<Rightarrow>
                   if rc_have_fd re \<and> flength < 0 then Some (Inl RERR_FILEIO)
                   else Some (Inr (st1\<lparr>rs_offset := flength,
                          rs_out := (if rc_have_fd re then (rs_out st1)\<lparr>wf_pos := nat flength\<rparr> else rs_out st1)\<rparr>)))
      else Some (Inr st))"

text \<open>A literal; a result of \<^verbatim>\<open>write_file\<close> other than the number of bytes is \<^verbatim>\<open>report_write_error\<close>. The data pointer is null when there is no data.\<close>

definition recv_literal :: "recv_env \<Rightarrow> int \<Rightarrow> byte list \<Rightarrow> recv_st \<Rightarrow> recv_st run" where
  "recv_literal re i d st =
     (if d = [] then Some (Inl RERR_PROTOCOL)
      else (let st1 = st\<lparr>literal_data := literal_data st + i, rs_offset := rs_offset st + i\<rparr>
            in if rc_have_fd re
               then (case write_file (rc_out re) (rs_out st) False (rs_offset st) d of
                       None \<Rightarrow> None
                     | Some (n, w) \<Rightarrow> if n \<noteq> i then Some (Inl RERR_FILEIO)
                                     else Some (Inr (st1\<lparr>rs_summed := rs_summed st @ d, rs_out := w\<rparr>)))
               else Some (Inr st1)))"

definition recv_block :: "recv_env \<Rightarrow> sum_struct \<Rightarrow> int \<Rightarrow> recv_st \<Rightarrow> recv_st run" where
  "recv_block re s i st =
     (if i < 0 \<or> i \<ge> ss_count s then Some (Inl RERR_PROTOCOL)
      else (let offset2 = i * ss_blength s;
                len = (if i = ss_count s - 1 \<and> ss_remainder s \<noteq> 0 then ss_remainder s else ss_blength s);
                st1 = st\<lparr>matched_data := matched_data st + len, rs_offset := rs_offset st + len\<rparr>
            in case rs_map st of
                 None \<Rightarrow> if rc_have_fd re then Some (Inl RERR_PROTOCOL) else Some (Inr st1)
               | Some mp \<Rightarrow>
                   (case map_ptr (rc_reads re (wf_data (rs_out st))) mp offset2 len of
                      Inl e \<Rightarrow> Some (Inl e)
                    | Inr (d, mp1) \<Rightarrow>
                        (let st2 = st1\<lparr>rs_map := Some mp1, rs_summed := rs_summed st @ d\<rparr>
                         in if rc_updating re \<and> rs_offset st = offset2 \<and> rc_have_fd re
                            then (case skip_matched (rc_out re) (rs_out st) (rs_offset st) d of
                                    None \<Rightarrow> None
                                  | Some (n, w) \<Rightarrow> if n < 0 then Some (Inl RERR_FILEIO) else Some (Inr (st2\<lparr>rs_out := w\<rparr>)))
                            else if rc_have_fd re
                            then (case write_file (rc_out re) (rs_out st) False (rs_offset st) d of
                                    None \<Rightarrow> None
                                  | Some (n, w) \<Rightarrow> if n \<noteq> len then Some (Inl RERR_FILEIO) else Some (Inr (st2\<lparr>rs_out := w\<rparr>)))
                            else Some (Inr st2)))))"

partial_function (option) recv_loop ::
  "recv_env \<Rightarrow> sum_struct \<Rightarrow> ('r \<Rightarrow> (int \<times> byte list \<times> 'r) reader) \<Rightarrow> 'r \<Rightarrow> byte list \<Rightarrow> recv_st \<Rightarrow> (recv_st \<times> 'r \<times> byte list) run" where
  [code]: "recv_loop re s recv r inp st =
     (case recv r inp of
        Inl e \<Rightarrow> Some (Inl e)
      | Inr ((i, d, r1), inp1) \<Rightarrow>
          if i = 0 then Some (Inr (st, r1, inp1))
          else (case (if i > 0 then recv_literal re i d st else recv_block re s (- (i + 1)) st) of
                  None \<Rightarrow> None
                | Some x \<Rightarrow> (case x of Inl e \<Rightarrow> Some (Inl e) | Inr st1 \<Rightarrow> recv_loop re s recv r1 inp1 st1)))"

definition receive_data :: "recv_env \<Rightarrow> ('r \<Rightarrow> (int \<times> byte list \<times> 'r) reader) \<Rightarrow> bool \<Rightarrow> int \<Rightarrow> int \<Rightarrow> wstate \<Rightarrow> 'r \<Rightarrow> byte list
    \<Rightarrow> (bool \<times> recv_st \<times> 'r \<times> byte list) run" where
  "receive_data re recv have_basis size_r total_size w r inp =
     (let w1 = start_output re w size_r total_size
      in case read_sum_head (rc_cf re) inp of
           Inl e \<Rightarrow> Some (Inl e)
         | Inr (s, inp1) \<Rightarrow>
             run_bind (append_start re s \<lparr>rs_map = map_basis re have_basis size_r s, rs_out = w1, rs_offset = 0, rs_summed = [],
                         literal_data = 0, matched_data = 0\<rparr>) (\<lambda>st.
             run_bind (recv_loop re s recv r inp1 st) (\<lambda>(st1, r1, inp2).
             run_bind (if rc_have_fd re
                       then finish_output (rc_out re) (rs_out st1) (nat (rs_offset st1)) (rc_updating re) (rc_inplace_sizing re) (rc_device re)
                       else Some (Inr (rs_out st1))) (\<lambda>w2.
             if rc_have_fd re \<and> rc_fsync_fails re then Some (Inl RERR_FILEIO)
             else (case read_buf (nat (xfer_sum_len (rc_cf re))) inp2 of
                     Inl e \<Rightarrow> Some (Inl e)
                   | Inr (file_sum, inp3) \<Rightarrow>
                       Some (Inr (\<not> rc_have_fd re \<or> take (nat (xfer_sum_len (rc_cf re))) (rc_digest re (rs_summed st1)) = file_sum,
                                  st1\<lparr>rs_out := w2\<rparr>, r1, inp3)))))))"

definition discard_receive_data :: "recv_env \<Rightarrow> ('r \<Rightarrow> (int \<times> byte list \<times> 'r) reader) \<Rightarrow> int \<Rightarrow> wstate \<Rightarrow> 'r \<Rightarrow> byte list
    \<Rightarrow> (bool \<times> recv_st \<times> 'r \<times> byte list) run" where
  "discard_receive_data re recv total_size w r inp =
     receive_data (re\<lparr>rc_have_fd := False, rc_inplace_sizing := False\<rparr>) recv False 0 total_size w r inp"

section \<open>The loop over the tokens\<close>

text \<open>The bytes that a stream of tokens stands for.\<close>

definition item_bytes :: "sum_struct \<Rightarrow> byte list \<Rightarrow> titem \<Rightarrow> byte list" where
  "item_bytes s B x = (case x of LitB b \<Rightarrow> [b] | TokI i \<Rightarrow> block s B (nat i))"

definition items_bytes :: "sum_struct \<Rightarrow> byte list \<Rightarrow> titem list \<Rightarrow> byte list" where
  "items_bytes s B xs = concat (map (item_bytes s B) xs)"

definition items_ok :: "sum_struct \<Rightarrow> titem list \<Rightarrow> bool" where
  "items_ok s xs \<longleftrightarrow> (\<forall>i. TokI i \<in> set xs \<longrightarrow> 0 \<le> i \<and> i < ss_count s)"

lemma items_bytes_lits [simp]: "items_bytes s B (map LitB d @ xs) = d @ items_bytes s B xs"
  by (induction d) (simp_all add: items_bytes_def item_bytes_def)

lemma items_bytes_simps [simp]: "items_bytes s B [] = []" "items_bytes s B (TokI i # xs) = block s B (nat i) @ items_bytes s B xs"
  by (simp_all add: items_bytes_def item_bytes_def)

lemma items_bytes_calls: "items_bytes s B (call_items F cs) = recon s F B cs"
  by (induction cs) (simp_all add: call_items_simps recon_def recon_call_def literal_def call_token_def)

lemma items_ok_calls: "list_all (open_call F (ss_count s)) (butlast cs) \<Longrightarrow> sc_token (last cs) < 0 \<Longrightarrow> items_ok s (call_items F cs)"
  by (induction cs) (auto simp: items_ok_def call_items_simps call_token_def open_call_def split: if_splits)

lemma items_ok_app [simp]: "items_ok s (map LitB d @ xs) = items_ok s xs" "items_ok s (TokI i # xs) \<longleftrightarrow> 0 \<le> i \<and> i < ss_count s \<and> items_ok s xs"
  by (auto simp: items_ok_def)

text \<open>The length of a block as \<^verbatim>\<open>receive_data\<close> computes it.\<close>

definition block_len :: "sum_struct \<Rightarrow> int \<Rightarrow> int" where
  "block_len s i = (if i = ss_count s - 1 \<and> ss_remainder s \<noteq> 0 then ss_remainder s else ss_blength s)"

lemma block_request:
  assumes "tiles s (length B)" "0 \<le> i" "i < ss_count s" "ss_blength s \<le> 2 ^ 30"
  shows "req_ok B (i * ss_blength s) (block_len s i)" "block_len s i \<le> ss_blength s" "B \<noteq> []"
    "seg B (nat (i * ss_blength s)) (nat (block_len s i)) = block s B (nat i)" "int (length (block s B (nat i))) = block_len s i"
proof -
  let ?b = "ss_blength s" and ?k = "length (block s B (nat i))"
  have ii: "int (nat i) = i" "nat i < nat (ss_count s)" using assms(2,3) by simp_all
  note l = tiles_block_length [OF assms(1) ii(2), unfolded ii(1)]
  show bl: "int ?k = block_len s i" using l(2) by (simp add: block_len_def)
  have b: "0 < ?b" "0 \<le> i * ?b" using assms(1,2) by (simp_all add: tiles_def)
  have "nat i * nat ?b < length B" using tiles_count [OF assms(1)] ii(2) by blast
  then show "B \<noteq> []" by auto
  show "block_len s i \<le> ?b" using l(1) bl by simp
  show "req_ok B (i * ?b) (block_len s i)" using l(1) b assms(4) unfolding bl [symmetric] req_ok_def by auto
  have off: "nat (i * ?b) = nat i * nat ?b" using assms(2) b(1) by (simp add: nat_mult_distrib)
  have "?k = min (nat ?b) (length B - nat i * nat ?b)" by (simp add: block_def length_seg_min)
  then show "seg B (nat (i * ?b)) (nat (block_len s i)) = block s B (nat i)"
    using seg_min_length [of B "nat i * nat ?b" "nat ?b"] unfolding bl [symmetric] off by (simp add: block_def)
qed

text \<open>The invariant of the loop with the output in a file of its own: \<open>L\<close> has been received.\<close>

definition loop_inv :: "recv_env \<Rightarrow> rd_env \<Rightarrow> byte list \<Rightarrow> byte list \<Rightarrow> int \<Rightarrow> byte list \<Rightarrow> recv_st \<Rightarrow> bool" where
  "loop_inv re rd D B m L st \<longleftrightarrow> rs_offset st = int (length L) \<and> rs_summed st = L \<and> out_inv (rc_out re) D L (rs_out st)
     \<and> (case rs_map st of None \<Rightarrow> B = [] | Some mp \<Rightarrow> B \<noteq> [] \<and> win_inv rd B m mp)"

definition separate :: "recv_env \<Rightarrow> rd_env \<Rightarrow> bool" where
  "separate re rd \<longleftrightarrow> rc_have_fd re \<and> \<not> rc_updating re \<and> (\<forall>C. rc_reads re C = rd)"

lemma recv_literal_ok:
  assumes "separate re rd" "loop_inv re rd D B m L st" "d \<noteq> []"
  shows "\<exists>st'. recv_literal re (int (length d)) d st = Some (Inr st') \<and> loop_inv re rd D B m (L @ d) st'"
proof -
  obtain w where "write_file (rc_out re) (rs_out st) False (int (length L)) d = Some (int (length d), w)" "out_inv (rc_out re) D (L @ d) w"
    using writer.put_ok [of "rc_out re" D L "rs_out st" d] assms(2) by (auto simp: loop_inv_def)
  then show ?thesis using assms by (auto simp: recv_literal_def separate_def loop_inv_def)
qed

lemma recv_block_ok:
  assumes "separate re rd" "loop_inv re rd D B m L st" "tiles s (length B)" "ss_blength s \<le> m" "0 \<le> i" "i < ss_count s" "ss_blength s \<le> 2 ^ 30"
  shows "\<exists>st'. recv_block re s i st = Some (Inr st') \<and> loop_inv re rd D B m (L @ block s B (nat i)) st'"
proof -
  note rq = block_request [OF assms(3,5-7)]
  from rq(3) obtain mp where mp: "rs_map st = Some mp" "win_inv rd B m mp" using assms(2) by (auto simp: loop_inv_def split: option.splits)
  obtain mp1 where mp1: "map_ptr rd mp (i * ss_blength s) (block_len s i) = Inr (block s B (nat i), mp1)" "win_inv rd B m mp1"
    using window.get_ok [OF mp(2) rq(1)] rq(2,4) assms(4) by auto
  obtain w where "write_file (rc_out re) (rs_out st) False (int (length L)) (block s B (nat i)) = Some (int (length (block s B (nat i))), w)"
    "out_inv (rc_out re) D (L @ block s B (nat i)) w"
    using writer.put_ok [of "rc_out re" D L "rs_out st" "block s B (nat i)"] assms(2) by (auto simp: loop_inv_def)
  then show ?thesis using assms(1,2,5,6) mp(1) mp1 rq(5)
    by (auto simp: recv_block_def Let_def separate_def loop_inv_def simp flip: block_len_def)
qed

text \<open>The tokens that are received on the way to some point of the stream.\<close>

inductive recv_prefix :: "('r \<Rightarrow> (int \<times> byte list \<times> 'r) reader) \<Rightarrow> 'r \<Rightarrow> byte list \<Rightarrow> titem list \<Rightarrow> 'r \<Rightarrow> byte list \<Rightarrow> bool" for recv where
  prefix_here: "recv_prefix recv r s [] r s"
| prefix_lit: "recv r s = Inr ((int (length d), d, r1), s1) \<Longrightarrow> d \<noteq> [] \<Longrightarrow> recv_prefix recv r1 s1 xs r' s' \<Longrightarrow> recv_prefix recv r s (map LitB d @ xs) r' s'"
| prefix_tok: "recv r s = Inr ((-1 - i, d, r1), s1) \<Longrightarrow> 0 \<le> i \<Longrightarrow> recv_prefix recv r1 s1 xs r' s' \<Longrightarrow> recv_prefix recv r s (TokI i # xs) r' s'"

lemma recvs_prefix: "recvs recv r s xs r' s' \<Longrightarrow> \<exists>r1 s1 d. recv_prefix recv r s xs r1 s1 \<and> recv r1 s1 = Inr ((0, d, r'), s')"
  by (induction rule: recvs.induct) (blast intro: recv_prefix.intros)+

lemma recv_loop_prefix:
  assumes "recv_prefix recv r inp xs r' inp'" "separate re rd" "items_ok s xs" "tiles s (length B) \<or> ss_count s \<le> 0 \<or> (\<forall>i. TokI i \<notin> set xs)"
    "ss_blength s \<le> m" "ss_blength s \<le> 2 ^ 30" "loop_inv re rd D B m L st"
  shows "\<exists>st'. recv_loop re s recv r inp st = recv_loop re s recv r' inp' st' \<and> loop_inv re rd D B m (L @ items_bytes s B xs) st'"
  using assms
proof (induction arbitrary: L st rule: recv_prefix.induct)
  case (prefix_here r inp)
  then show ?case by auto
next
  case (prefix_lit r inp d r1 inp1 xs r' inp')
  from recv_literal_ok [OF prefix_lit.prems(1,6) prefix_lit.hyps(2)] obtain st1 where
    1: "recv_literal re (int (length d)) d st = Some (Inr st1)" "loop_inv re rd D B m (L @ d) st1" by blast
  have "items_ok s xs" "tiles s (length B) \<or> ss_count s \<le> 0 \<or> (\<forall>i. TokI i \<notin> set xs)" using prefix_lit.prems(2,3) by auto
  from prefix_lit.IH [OF prefix_lit.prems(1) this prefix_lit.prems(4,5) 1(2)] obtain st' where
    "recv_loop re s recv r1 inp1 st1 = recv_loop re s recv r' inp' st'" "loop_inv re rd D B m ((L @ d) @ items_bytes s B xs) st'" by auto
  then show ?case using prefix_lit.hyps(1,2) 1(1) by (auto simp: recv_loop.simps [of _ _ _ r])
next
  case (prefix_tok r inp i d r1 inp1 xs r' inp')
  have i: "0 \<le> i" "i < ss_count s" "items_ok s xs" "tiles s (length B)" using prefix_tok.prems(2,3) by auto
  from recv_block_ok [OF prefix_tok.prems(1,6) i(4) prefix_tok.prems(4) i(1,2) prefix_tok.prems(5)] obtain st1 where
    1: "recv_block re s i st = Some (Inr st1)" "loop_inv re rd D B m (L @ block s B (nat i)) st1" by blast
  from prefix_tok.IH [OF prefix_tok.prems(1) i(3) disjI1 [OF i(4)] prefix_tok.prems(4,5) 1(2)] obtain st' where
    "recv_loop re s recv r1 inp1 st1 = recv_loop re s recv r' inp' st'" "loop_inv re rd D B m ((L @ block s B (nat i)) @ items_bytes s B xs) st'" by auto
  then show ?case using prefix_tok.hyps(1,2) 1(1) by (auto simp: recv_loop.simps [of _ _ _ r])
qed

lemma recv_loop_ok:
  assumes "recvs recv r inp xs r' inp'" "separate re rd" "items_ok s xs" "tiles s (length B) \<or> ss_count s \<le> 0" "ss_blength s \<le> m"
    "ss_blength s \<le> 2 ^ 30" "loop_inv re rd D B m L st"
  shows "\<exists>st'. recv_loop re s recv r inp st = Some (Inr (st', r', inp')) \<and> loop_inv re rd D B m (L @ items_bytes s B xs) st'"
proof -
  obtain r1 s1 d where p: "recv_prefix recv r inp xs r1 s1" "recv r1 s1 = Inr ((0, d, r'), inp')" using recvs_prefix [OF assms(1)] by blast
  obtain st' where "recv_loop re s recv r inp st = recv_loop re s recv r1 s1 st'" "loop_inv re rd D B m (L @ items_bytes s B xs) st'"
    using recv_loop_prefix [OF p(1) assms(2,3) _ assms(5-7)] assms(4) by blast
  then show ?thesis using p(2) by (auto simp: recv_loop.simps [of _ _ _ r1])
qed

section \<open>A new output file\<close>

text \<open>What the kernel reports as allocated covers the size of the file.\<close>

definition prealloc_ok :: "recv_env \<Rightarrow> bool" where
  "prealloc_ok re \<longleftrightarrow> (preallocate_files re \<and> sparse_files (rc_out re) > 0 \<longrightarrow>
     full_writes (rc_out re) \<and> (\<forall>n b. rc_st_blocks re n = Some b \<longrightarrow> int n \<le> b * 512))"

definition new_file_env :: "recv_env \<Rightarrow> rd_env \<Rightarrow> bool" where
  "new_file_env re rd \<longleftrightarrow> separate re rd \<and> \<not> rc_inplace_sizing re \<and> \<not> rc_device re \<and> \<not> rc_fsync_fails re
     \<and> progress (rc_out re) \<and> truncate_works (rc_out re) \<and> append_mode (rc_cf re) \<le> 0 \<and> prealloc_ok re"

definition basis_ok :: "recv_env \<Rightarrow> rd_env \<Rightarrow> bool \<Rightarrow> sum_struct \<Rightarrow> byte list \<Rightarrow> bool" where
  "basis_ok re rd have_basis s B \<longleftrightarrow> ss_blength s \<le> 2 ^ 30 \<and> (tiles s (length B) \<or> ss_count s \<le> 0) \<and> (B = [] \<or> have_basis
     \<and> win_inv rd B (ss_blength s) (map_file (rc_map re) (int (length B)) (max (ss_blength s * 2) (16 * 1024)) (ss_blength s)))"

lemma basis_ok_reads:
  assumes "\<not> mc_am_sender (rc_map re)" "disk_read_size (rc_map re) \<le> 2 ^ 29" "reads_file B rd" "page_of rd \<le> 4096"
    "0 \<le> ss_blength s" "ss_blength s \<le> MAX_BLOCK_SIZE" "tiles s (length B) \<or> ss_count s \<le> 0"
  shows "basis_ok re rd True s B"
proof -
  let ?rs = "max (ss_blength s * 2) (16 * 1024)"
  have "win_inv rd B (ss_blength s) (map_file (rc_map re) (int (length B)) ?rs (ss_blength s))"
    by (rule map_file_inv) (use assms in \<open>auto simp: conf_fits_def serves_mode_def MAX_BLOCK_SIZE_def MAPPED_WINDOW_SIZE_def\<close>)
  then show ?thesis using assms(6,7) by (simp add: basis_ok_def MAX_BLOCK_SIZE_def)
qed

definition fallocates :: "recv_env \<Rightarrow> bool" where
  "fallocates re \<longleftrightarrow> \<not> rc_dry_run re \<and> \<not> rc_read_only re \<and> rc_fallocate_ok re"

lemma start_output_new:
  assumes "new_file_env re rd"
  shows "\<exists>D pre. start_output re (fresh_output [] p) size_r tsize = fresh_output D pre \<and> D = replicate (length D) 0
    \<and> out_inv (rc_out re) D [] (fresh_output D pre) \<and> (D = [] \<or> sparse_files (rc_out re) > 0)"
proof -
  let ?o = "rc_out re"
  define n where "n = (if odd tsize then tsize + 1 else tsize - 1)"
  have e: "progress ?o" "\<not> rc_inplace_sizing re" using assms by (simp_all add: new_file_env_def)
  have upd: "(fresh_output D q)\<lparr>preallocated_len := pre\<rparr> = fresh_output D pre" for D q pre by (simp add: fresh_output_def)
  have empty: ?thesis if "start_output re (fresh_output [] p) size_r tsize = fresh_output [] pre" "pre \<le> 0 \<or> sparse_files ?o \<le> 0" for pre
    using that e(1) fresh_output_inv [of "[]" pre ?o] by (intro exI [of _ "[]"] exI [of _ pre]) (auto simp: out_inv_def)
  consider "\<not> (preallocate_files re \<and> rc_have_fd re \<and> tsize > 0)"
    | "preallocate_files re \<and> rc_have_fd re \<and> tsize > 0" "\<not> fallocates re \<or> sparse_files ?o \<le> 0"
    | "preallocate_files re \<and> rc_have_fd re \<and> tsize > 0" "fallocates re" "sparse_files ?o > 0" by linarith
  then show ?thesis
  proof cases
    case 1
    then show ?thesis using empty [of 0] e(2) upd by (auto simp: start_output_def)
  next
    case 2
    then have "start_output re (fresh_output [] p) size_r tsize = fresh_output [] (if fallocates re then n else -1)"
      using e(2) upd by (auto simp: start_output_def do_fallocate_def fallocates_def Let_def n_def)
    then show ?thesis by (rule empty) (use 2(2) in auto)
  next
    case 3
    define D :: "byte list" where "D = replicate (nat n) 0"
    define pre where "pre = (case rc_st_blocks re (nat n) of None \<Rightarrow> n | Some b \<Rightarrow> b * 512)"
    have "0 \<le> n" using 3(1) by (auto simp: n_def)
    have "start_output re (fresh_output [] p) size_r tsize = fresh_output D pre"
      using 3 e(2) by (simp add: start_output_def do_fallocate_def fallocates_def Let_def n_def [symmetric] fresh_output_def D_def pre_def)
    moreover have ok: "full_writes ?o" "\<And>k b. rc_st_blocks re k = Some b \<Longrightarrow> int k \<le> b * 512"
      using assms 3 by (auto simp: new_file_env_def prealloc_ok_def)
    moreover have "int (length D) \<le> pre"
      using ok(2) [of "nat n"] \<open>0 \<le> n\<close> by (cases "rc_st_blocks re (nat n)") (simp_all add: D_def pre_def)
    moreover have "out_inv ?o D [] (fresh_output D pre)" using calculation(2,4) e(1) by (simp add: out_inv_def fresh_output_inv)
    ultimately show ?thesis using 3(3) by (intro exI [of _ D] exI [of _ pre]) (simp add: D_def)
  qed
qed

text \<open>What \<^verbatim>\<open>receive_data\<close> does with a stream of valid tokens; the checksum that follows may be any.\<close>

lemma receive_data_ok:
  assumes e: "new_file_env re rd" "basis_ok re rd have_basis s B"
    and h: "read_sum_head (rc_cf re) inp = Inr (s, inp1)"
    and t: "recvs recv r inp1 xs r' (fsum @ rest)" "items_ok s xs" and f: "length fsum = nat (xfer_sum_len (rc_cf re))"
  shows "\<exists>st'. receive_data re recv have_basis (int (length B)) tsize (fresh_output [] p) r inp
      = Some (Inr (take (nat (xfer_sum_len (rc_cf re))) (rc_digest re (items_bytes s B xs)) = fsum, st', r', rest))
    \<and> wf_data (rs_out st') = items_bytes s B xs"
proof -
  obtain D pre where w: "start_output re (fresh_output [] p) (int (length B)) tsize = fresh_output D pre" "D = replicate (length D) 0"
    "out_inv (rc_out re) D [] (fresh_output D pre)" "D = [] \<or> sparse_files (rc_out re) > 0" using start_output_new [OF e(1)] by blast
  let ?st = "\<lparr>rs_map = map_basis re have_basis (int (length B)) s, rs_out = fresh_output D pre, rs_offset = 0, rs_summed = [],
      literal_data = 0, matched_data = 0\<rparr>"
  have sep: "separate re rd" and env: "progress (rc_out re)" "truncate_works (rc_out re)" "\<not> rc_inplace_sizing re" "\<not> rc_device re"
    "\<not> rc_fsync_fails re" "append_mode (rc_cf re) \<le> 0" "rc_have_fd re" "\<not> rc_updating re"
    using e(1) by (auto simp: new_file_env_def separate_def)
  have "loop_inv re rd D B (ss_blength s) [] ?st"
    using w(3) e(2) by (auto simp: loop_inv_def map_basis_def basis_ok_def)
  from recv_loop_ok [OF t(1) sep t(2) _ order_refl _ this] e(2) obtain st1 where
    st1: "recv_loop re s recv r inp1 ?st = Some (Inr (st1, r', fsum @ rest))" "loop_inv re rd D B (ss_blength s) (items_bytes s B xs) st1"
    by (auto simp: basis_ok_def)
  have inv: "wr_inv (rc_out re) D (items_bytes s B xs) (rs_out st1)" "rs_offset st1 = int (length (items_bytes s B xs))" "rs_summed st1 = items_bytes s B xs"
    using st1(2) by (simp_all add: loop_inv_def out_inv_def)
  have pl: "int (length D) \<le> max 0 (preallocated_len (rs_out st1))" using w(4) inv(1) by (auto simp: wr_inv_def sparse_inv_def)
  obtain w2 where "finish_output (rc_out re) (rs_out st1) (length (items_bytes s B xs)) False False False = Some (Inr w2)" "wf_data w2 = items_bytes s B xs"
    using finish_output_ok [OF env(1,2) inv(1), of False False] w(2) pl by auto
  then show ?thesis using env h st1(1) inv f w(1)
    by (simp add: receive_data_def append_start_def run_bind_def read_buf_def)
qed

section \<open>Streams that are refused, and streams that are discarded\<close>

lemma recv_loop_discards:
  assumes "recvs recv r inp xs r' inp'" "\<not> rc_have_fd re" "items_ok s xs" "rs_map st = None"
  shows "\<exists>st'. recv_loop re s recv r inp st = Some (Inr (st', r', inp')) \<and> rs_out st' = rs_out st"
  using assms
proof (induction arbitrary: st rule: recvs.induct)
  case (recvs_end r inp d r' inp')
  then show ?case by (simp add: recv_loop.simps)
next
  case (recvs_lit r inp d r1 inp1 xs r' inp')
  let ?st = "st\<lparr>literal_data := literal_data st + int (length d), rs_offset := rs_offset st + int (length d)\<rparr>"
  have "recv_literal re (int (length d)) d st = Some (Inr ?st)" using recvs_lit.hyps(2) recvs_lit.prems(1) by (simp add: recv_literal_def)
  moreover from recvs_lit.IH [OF recvs_lit.prems(1), of ?st] recvs_lit.prems(2,3) obtain st' where
    "recv_loop re s recv r1 inp1 ?st = Some (Inr (st', r', inp'))" "rs_out st' = rs_out st" by auto
  ultimately show ?case using recvs_lit.hyps(1,2) by (auto simp: recv_loop.simps [of _ _ _ r])
next
  case (recvs_tok r inp i d r1 inp1 xs r' inp')
  let ?st = "st\<lparr>matched_data := matched_data st + block_len s i, rs_offset := rs_offset st + block_len s i\<rparr>"
  have "recv_block re s i st = Some (Inr ?st)"
    using recvs_tok.prems by (simp add: recv_block_def Let_def block_len_def)
  moreover from recvs_tok.IH [OF recvs_tok.prems(1), of ?st] recvs_tok.prems(2,3) obtain st' where
    "recv_loop re s recv r1 inp1 ?st = Some (Inr (st', r', inp'))" "rs_out st' = rs_out st" by auto
  ultimately show ?case using recvs_tok.hyps(1,2) by (auto simp: recv_loop.simps [of _ _ _ r])
qed

text \<open>A block number outside the signature, or any block number when there is no basis.\<close>

lemma receive_data_refuses:
  assumes e: "new_file_env re rd" "basis_ok re rd have_basis s B \<or> B = [] \<and> ss_blength s \<le> 2 ^ 30"
    and h: "read_sum_head (rc_cf re) inp = Inr (s, inp1)"
    and t: "recv_prefix recv r inp1 xs r1 inp2" "items_ok s xs" "B = [] \<longrightarrow> (\<forall>j. TokI j \<notin> set xs)"
    and i: "recv r1 inp2 = Inr ((-1 - i, d, r2), inp3)" "0 \<le> i" "ss_count s \<le> i \<or> B = []"
  shows "receive_data re recv have_basis (int (length B)) tsize (fresh_output [] p) r inp = Some (Inl RERR_PROTOCOL)"
proof -
  obtain D pre where w: "start_output re (fresh_output [] p) (int (length B)) tsize = fresh_output D pre"
    "out_inv (rc_out re) D [] (fresh_output D pre)" using start_output_new [OF e(1)] by blast
  let ?st = "\<lparr>rs_map = map_basis re have_basis (int (length B)) s, rs_out = fresh_output D pre, rs_offset = 0, rs_summed = [],
      literal_data = 0, matched_data = 0\<rparr>"
  have sep: "separate re rd" and a: "append_mode (rc_cf re) \<le> 0" using e(1) by (auto simp: new_file_env_def)
  have inv: "loop_inv re rd D B (ss_blength s) [] ?st" "ss_blength s \<le> 2 ^ 30"
    "tiles s (length B) \<or> ss_count s \<le> 0 \<or> (\<forall>j. TokI j \<notin> set xs)"
    using w(2) e(2) t(3) by (auto simp: loop_inv_def map_basis_def basis_ok_def)
  obtain st' where st': "recv_loop re s recv r inp1 ?st = recv_loop re s recv r1 inp2 st'" "loop_inv re rd D B (ss_blength s) ([] @ items_bytes s B xs) st'"
    using recv_loop_prefix [OF t(1) sep t(2) inv(3) order_refl inv(2,1)] by blast
  have "recv_block re s i st' = Some (Inl RERR_PROTOCOL)"
    using i(2,3) st'(2) sep by (auto simp: recv_block_def Let_def loop_inv_def separate_def split: option.splits)
  then have "recv_loop re s recv r1 inp2 st' = Some (Inl RERR_PROTOCOL)" using i(1,2) by (auto simp: recv_loop.simps [of _ _ _ r1])
  then show ?thesis using st'(1) a h w(1) by (simp add: receive_data_def append_start_def run_bind_def)
qed

section \<open>From the search to the file\<close>

lemma recon_head: "recon (head_of s) F B cs = recon s F B cs"
  using recon_cong [of "head_of s" s] by (simp add: head_of_def)

text \<open>The delta search, any channel that carries its calls, and \<^verbatim>\<open>receive_data\<close> at the other end.\<close>

context token_channel
begin

lemma delta_over_channel:
  assumes d: "describes (me_cf me) (me_csum2 me) s B" "me_len me = int (length (me_file me))"
    and c: "append_mode (me_cf me) \<le> 0" "0 < ss_count s" "ss_blength s \<le> OLD_MAX_BLOCK_SIZE"
    and h: "no_collision me s B" "zero_windows me s" "me_file me \<noteq> []" "length (me_file me) < fuel" "head_ok (me_cf me) s"
    and e: "new_file_env re rd" "basis_ok re rd have_basis (head_of s) B" "rc_cf re = me_cf me"
    and g: "nat (xfer_sum_len (me_cf me)) \<le> length (rc_digest re (me_file me))"
    and rdy: "\<And>st. match_sums fuel me literal_step s = Some (Inr st) \<Longrightarrow> calls_ok (me_file me) (ss_count s) (ms_calls st) \<Longrightarrow>
        recon s (me_file me) B (ms_calls st) = me_file me \<Longrightarrow> ready (me_file me) t (ms_calls st)"
  shows "\<exists>st w t'. match_sums fuel me literal_step s = Some (Inr st) \<and> send_calls send (me_file me) t (ms_calls st) = Some (Inr (w, t'))
    \<and> (\<forall>r rest. link t t' r \<longrightarrow> (\<exists>rs r'. receive_data re recv have_basis (int (length B)) tsize (fresh_output [] p) r
          (write_sum_head (me_cf me) (Some s) @ w @ sender_file_sum (nat (xfer_sum_len (me_cf me))) False (rc_digest re (ms_fed st)) @ rest)
        = Some (Inr (True, rs, r', rest)) \<and> wf_data (rs_out rs) = me_file me))"
proof -
  let ?F = "me_file me" and ?n = "nat (xfer_sum_len (me_cf me))"
  obtain st where st: "match_sums fuel me literal_step s = Some (Inr st)" "sent_ok me B st" "last_match st = me_len me"
    "ss_blength (ms_s st) = ss_blength s" "calls_ok ?F (ss_count s) (ms_calls st)"
    using match_sums_search [OF d c h(1-4)] by blast
  have rec: "recon s ?F B (ms_calls st) = ?F" using st(2,3) d(2) recon_cong [OF st(4)] by (simp add: sent_ok_def Let_def)
  obtain w t' where w: "send_calls send ?F t (ms_calls st) = Some (Inr (w, t'))"
    "\<And>r rest. link t t' r \<Longrightarrow> \<exists>r'. recvs recv r (w @ rest) (call_items ?F (ms_calls st)) r' rest"
    using roundtrip [OF rdy [OF st(1,5) rec]] by blast
  have rc: "items_bytes (head_of s) B (call_items ?F (ms_calls st)) = ?F" by (simp add: items_bytes_calls recon_head rec)
  have ok: "items_ok (head_of s) (call_items ?F (ms_calls st))"
    using items_ok_calls [of ?F "head_of s"] st(5) by (simp add: calls_ok_def head_of_def)
  define fsum where "fsum = sender_file_sum ?n False (rc_digest re (ms_fed st))"
  have fsum: "fsum = take ?n (rc_digest re ?F)"
    using st(2,3) d(2) by (cases "xfer_sum_len (me_cf me) = 0") (auto simp: fsum_def sender_file_sum_def sent_ok_def Let_def)
  have "\<exists>rs r'. receive_data re recv have_basis (int (length B)) tsize (fresh_output [] p) r (write_sum_head (me_cf me) (Some s) @ w @ fsum @ rest)
        = Some (Inr (True, rs, r', rest)) \<and> wf_data (rs_out rs) = ?F" if l: "link t t' r" for r rest
  proof -
    obtain r' where r': "recvs recv r (w @ fsum @ rest) (call_items ?F (ms_calls st)) r' (fsum @ rest)" using w(2) [OF l] by blast
    have hd: "read_sum_head (rc_cf re) (write_sum_head (me_cf me) (Some s) @ w @ fsum @ rest) = Inr (head_of s, w @ fsum @ rest)"
      using read_sum_head_write_sum_head [OF h(5)] e(3) by simp
    have len: "length fsum = nat (xfer_sum_len (rc_cf re))" using g by (simp add: fsum e(3))
    from receive_data_ok [OF e(1,2) hd r' ok len, of tsize p] show ?thesis unfolding rc by (auto simp: fsum e(3))
  qed
  then show ?thesis using st(1) w(1) unfolding fsum_def by blast
qed

end

section \<open>Properties of the receiver\<close>

text \<open>
  C5: Receiving into a new file. For any channel and any stream of literals and block numbers within the signature, \<^verbatim>\<open>receive_data\<close>
  ends, leaves in the output exactly the literals and the blocks of the basis in their order, whether the file is sparse or preallocated or
  neither and however the kernel splits reads and writes (for a file that is both sparse and preallocated, with complete writes), consumes exactly the stream, and returns 1 just when the digest of these bytes is the one that was sent.
\<close>

theorem receive_data_exact:
  assumes "new_file_env re rd" "basis_ok re rd have_basis s B"
    and "read_sum_head (rc_cf re) inp = Inr (s, inp1)"
    and "recvs recv r inp1 xs r' (fsum @ rest)" "items_ok s xs" "length fsum = nat (xfer_sum_len (rc_cf re))"
  shows "\<exists>st'. receive_data re recv have_basis (int (length B)) tsize (fresh_output [] p) r inp
      = Some (Inr (take (nat (xfer_sum_len (rc_cf re))) (rc_digest re (items_bytes s B xs)) = fsum, st', r', rest))
    \<and> wf_data (rs_out st') = items_bytes s B xs"
  using receive_data_ok [OF assms] .

text \<open>
  C24: Streams that are refused. When tokens that are in order have been received and the next one is a block number outside the
  signature, an empty one included, or is any block number although the receiver has no basis file, \<^verbatim>\<open>receive_data\<close> ends with
  \<^verbatim>\<open>RERR_PROTOCOL\<close>, whatever bytes follow.
\<close>

theorem receive_data_protocol_error:
  assumes "new_file_env re rd" "basis_ok re rd have_basis s B \<or> B = [] \<and> ss_blength s \<le> 2 ^ 30"
    and "read_sum_head (rc_cf re) inp = Inr (s, inp1)"
    and "recv_prefix recv r inp1 xs r1 inp2" "items_ok s xs" "B = [] \<longrightarrow> (\<forall>j. TokI j \<notin> set xs)"
    and "recv r1 inp2 = Inr ((-1 - i, d, r2), inp3)" "0 \<le> i" "ss_count s \<le> i \<or> B = []"
  shows "receive_data re recv have_basis (int (length B)) tsize (fresh_output [] p) r inp = Some (Inl RERR_PROTOCOL)"
  using receive_data_refuses [OF assms] .

text \<open>
  C37: A failed preallocation spoils an in-place update. When \<^verbatim>\<open>fallocate\<close> fails for a sparse file that is updated in place and
  grows, \<^verbatim>\<open>preallocated_len\<close> becomes -1, and zeros are then skipped by a seek. For every old file \<open>D\<close> and every new one that fits one
  piece of the sparse writer, \<open>k\<close> zeros and then data \<open>c\<close> that starts and ends with other bytes, sent as one literal, the receiver reports success,
  but the first \<open>k\<close> bytes of the file are the old ones.
\<close>

theorem failed_preallocation_keeps_old_data:
  assumes env: "preallocate_files re" "rc_have_fd re" "rc_inplace_sizing re" "rc_updating re" "\<not> rc_device re" "\<not> rc_fsync_fails re"
      "sparse_files (rc_out re) > 0" "full_writes (rc_out re)" "truncate_works (rc_out re)" "append_mode (rc_cf re) \<le> 0"
    and fail: "\<not> rc_fallocate_ok re"
    and c: "c \<noteq> []" "hd c \<noteq> 0" "last c \<noteq> 0" "k + length c \<le> SPARSE_WRITE_SIZE" "k \<le> length D" "0 < k" "length D < k + length c"
    and stream: "read_sum_head (rc_cf re) inp = Inr (s, inp1)" "recv r inp1 = Inr ((int (k + length c), replicate k 0 @ c, r1), inp2)"
      "recv r1 inp2 = Inr ((0, d, r'), fsum @ rest)" "length fsum = nat (xfer_sum_len (rc_cf re))"
      "fsum = take (nat (xfer_sum_len (rc_cf re))) (rc_digest re (replicate k 0 @ c))"
  shows "\<exists>st'. receive_data re recv True (int (length D)) (int (k + length c)) (fresh_output D 0) r inp = Some (Inr (True, st', r', rest))
    \<and> wf_data (rs_out st') = take k D @ c"
proof -
  let ?o = "rc_out re" and ?n = "k + length c"
  have "do_fallocate re v l = (-1, v)" for v l using fail by (simp add: do_fallocate_def Let_def)
  then have start: "start_output re (fresh_output D 0) (int (length D)) (int ?n) = fresh_output D (-1)"
    using env(1-3) c(1,7) by (auto simp: start_output_def fresh_output_def)
  obtain w where w: "write_file ?o (fresh_output D (-1)) False 0 (replicate k 0 @ c) = Some (int ?n, w)"
    "wf_data w = take k D @ c @ drop ?n D" "sparse_seek w = 0"
    using write_file_seeks [OF env(7,8) _ c(1-6), of "-1"] by auto
  have "finish_output ?o w ?n True True False = Some (Inr (w\<lparr>wf_data := take k D @ c, sparse_past_write := 0, sparse_seek := 0\<rparr>))"
    using env(7,9) w(2,3) c(1,5,7) by (simp add: finish_output_def sparse_end_def do_ftruncate_def run_bind_def Let_def min_def)
  moreover let ?st = "\<lparr>rs_map = map_basis re True (int (length D)) s, rs_out = fresh_output D (-1), rs_offset = 0, rs_summed = [],
      literal_data = 0, matched_data = 0\<rparr>"
  let ?st1 = "?st\<lparr>literal_data := int ?n, rs_offset := int ?n, rs_summed := replicate k 0 @ c, rs_out := w\<rparr>"
  have "recv_literal re (int ?n) (replicate k 0 @ c) ?st = Some (Inr ?st1)" using env(2) w(1) c(1) by (simp add: recv_literal_def Let_def)
  moreover have "recv_loop re s recv r1 inp2 ?st1 = Some (Inr (?st1, r', fsum @ rest))" by (subst recv_loop.simps) (simp add: stream(3))
  ultimately have "recv_loop re s recv r inp1 ?st = Some (Inr (?st1, r', fsum @ rest))"
    using c(6) stream(2) by (subst recv_loop.simps) (simp del: of_nat_add)
  moreover have "nat (int ?n) = ?n" by (rule nat_int)
  ultimately show ?thesis using env stream(1,4,5) start \<open>finish_output _ _ _ _ _ _ = _\<close>
    by (simp add: receive_data_def append_start_def run_bind_def read_buf_def del: of_nat_add)
qed

text \<open>
  C26: Discarding. \<^verbatim>\<open>discard_receive_data\<close> accepts every valid stream, block numbers included although there is no basis, in every
  append mode and whatever the checksum is: it consumes the stream exactly, reports success and leaves the file state alone.
\<close>

theorem discard_drains:
  assumes "read_sum_head (rc_cf re) inp = Inr (s, inp1)" "recvs recv r inp1 xs r' (fsum @ rest)" "items_ok s xs"
    "length fsum = nat (xfer_sum_len (rc_cf re))"
  shows "\<exists>st'. discard_receive_data re recv tsize w r inp = Some (Inr (True, st', r', rest)) \<and> rs_out st' = w\<lparr>preallocated_len := 0\<rparr>"
proof -
  let ?re = "re\<lparr>rc_have_fd := False, rc_inplace_sizing := False\<rparr>"
  let ?st = "\<lparr>rs_map = None, rs_out = w\<lparr>preallocated_len := 0\<rparr>, rs_offset = 0, rs_summed = [], literal_data = 0, matched_data = 0\<rparr>"
  obtain st0 where st0: "append_start ?re s ?st = Some (Inr st0)" "rs_map st0 = None" "rs_out st0 = w\<lparr>preallocated_len := 0\<rparr>"
    by (cases "append_mode (rc_cf re) > 0") (auto simp: append_start_def Let_def)
  obtain st1 where "recv_loop ?re s recv r inp1 st0 = Some (Inr (st1, r', fsum @ rest))" "rs_out st1 = rs_out st0"
    using recv_loop_discards [OF assms(2) _ assms(3) st0(2), of ?re] by auto
  then show ?thesis using st0 assms(1,4)
    by (auto simp: discard_receive_data_def receive_data_def start_output_def map_basis_def run_bind_def read_buf_def)
qed

text \<open>A concrete receiver: reads of at most three bytes, writes of one, a preallocated output, a digest of two bytes.\<close>

definition ex_recv :: recv_env where
  "ex_recv = \<lparr>rc_cf = \<lparr>protocol_version = 31, xfer_sum_len = 2, csum_length = 2, block_size = 0, append_mode = 0\<rparr>,
     rc_out = \<lparr>sys_write = (\<lambda>p n. 1), punch_works = True, zero_range_works = False, truncate_works = True, sparse_files = 0\<rparr>,
     rc_have_fd = True, rc_updating = False, rc_inplace_sizing = False, rc_device = False, rc_inplace = False, preallocate_files = True, rc_dry_run = False, rc_read_only = False, rc_whole_file = False,
     rc_fallocate_ok = True, rc_st_blocks = (\<lambda>n. None), rc_fsync_fails = False, rc_digest = (\<lambda>x. take 2 (x @ [0, 0])),
     rc_map = \<lparr>mc_am_sender = False, source_io_mode = SOURCE_IO_CACHED, synthetic_file_size = -1, disk_read_size = 0\<rparr>,
     rc_reads = (\<lambda>_. short_reads 3 [1, 2, 3, 4, 5])\<rparr>"

definition ex_head :: sum_struct where
  "ex_head = null_sum\<lparr>ss_count := 3, ss_blength := 2, ss_s2length := 2, ss_remainder := 1\<rparr>"

definition ex_rx :: simple_rx where
  "ex_rx = \<lparr>residue = 0, sx_rx = \<lparr>rx_chunk = 0, rx_depth = 0, rx_rails = 0,
     rx_paths = (\<lambda>_. \<lparr>rr_arriving = [], rr_posted = [], rr_ring = (\<lambda>_. []), current_recv_slot = None, current_recv_length = 0, current_recv_offset = 0\<rparr>),
     recv_seq = 0, rx_data_bytes = 0, rx_data_messages = 0\<rparr>\<rparr>"

lemma ex_env: "new_file_env ex_recv (short_reads 3 [1, 2, 3, 4, 5])"
  by (simp add: new_file_env_def separate_def ex_recv_def progress_def prealloc_ok_def)

lemma ex_basis: "basis_ok ex_recv (short_reads 3 [1, 2, 3, 4, 5]) True ex_head [1, 2, 3, 4, 5]"
proof (rule basis_ok_reads)
  show "page_of (short_reads 3 [1, 2, 3, 4, 5]) \<le> 4096" by (simp add: page_of_def short_reads_def)
qed (simp_all add: ex_recv_def short_reads_file ex_head_def tiles_def MAX_BLOCK_SIZE_def)

lemma ex_read_head: "read_sum_head (rc_cf ex_recv) (write_sum_head (rc_cf ex_recv) (Some ex_head) @ x) = Inr (ex_head, x)"
proof -
  have "head_ok (rc_cf ex_recv) ex_head" "head_of ex_head = ex_head"
    by (simp_all add: head_ok_def head_of_def ex_head_def ex_recv_def SIZE_MAX_def max_blength_def MAX_BLOCK_SIZE_def null_sum_def)
  then show ?thesis using read_sum_head_write_sum_head [of "rc_cf ex_recv" ex_head x] by simp
qed

lemma ex_read_null: "read_sum_head (rc_cf ex_recv) (write_sum_head (rc_cf ex_recv) None @ x) = Inr (null_sum, x)"
proof -
  have "head_ok (rc_cf ex_recv) null_sum" "head_of null_sum = null_sum" "write_sum_head (rc_cf ex_recv) None = write_sum_head (rc_cf ex_recv) (Some null_sum)"
    by (simp_all add: head_ok_def head_of_def ex_recv_def SIZE_MAX_def max_blength_def MAX_BLOCK_SIZE_def null_sum_def write_sum_head_def)
  then show ?thesis using read_sum_head_write_sum_head [of "rc_cf ex_recv" null_sum x] by simp
qed

text \<open>One literal byte and one block, over plain tokens.\<close>

lemma ex_stream:
  assumes "0 \<le> i" "i < 2 ^ 31 - 1"
  obtains r' where "recvs (simple_recv_token False) ex_rx ((write_int 1 @ [9] @ write_int (- (i + 1)) @ write_int 0) @ rest) [LitB 9, TokI i] r' rest"
proof -
  have "accepts (simple_recv_token False) (\<lambda>r. residue r = 0) (write_int (- (i + 1)) @ write_int 0 @ rest) [TokI i] rest"
    using assms by (intro accepts_block accepts_end) auto
  moreover have "residue ex_rx = 0" by (simp add: ex_rx_def)
  ultimately show thesis using accepts_plain_literal [of "[9]"] that by (fastforce simp: accepts_def)
qed

theorem receive_data_exact_witness:
  "\<exists>st' r'. receive_data ex_recv (simple_recv_token False) True (int (length [1, 2, 3, 4, 5 :: byte])) 3 (fresh_output [] 0) ex_rx
       (write_sum_head (rc_cf ex_recv) (Some ex_head) @ (write_int 1 @ [9] @ write_int (- (1 + 1)) @ write_int 0) @ [9, 3] @ [77])
     = Some (Inr (True, st', r', [77])) \<and> wf_data (rs_out st') = [9, 3, 4]"
proof -
  obtain r' where "recvs (simple_recv_token False) ex_rx ((write_int 1 @ [9] @ write_int (- (1 + 1)) @ write_int 0) @ [9, 3] @ [77])
      [LitB 9, TokI 1] r' ([9, 3] @ [77])" by (rule ex_stream [of 1]) simp_all
  from receive_data_exact [OF ex_env ex_basis ex_read_head this, of 3 0] show ?thesis
    by (simp add: items_ok_def ex_head_def items_bytes_def item_bytes_def block_def seg_def ex_recv_def) blast
qed

lemma ex_prefix:
  assumes "0 \<le> i" "i < 2 ^ 31 - 1"
  obtains r1 where "recv_prefix (simple_recv_token False) ex_rx ((write_int 1 @ [9] @ write_int (- (i + 1))) @ rest) [LitB 9] r1 (write_int (- (i + 1)) @ rest)"
    "simple_recv_token False r1 (write_int (- (i + 1)) @ rest) = Inr ((-1 - i, [], r1), rest)"
proof -
  have i: "in_int32 (- (i + 1))" "in_int32 1" using assms by (simp_all add: in_int32_def)
  have 1: "simple_recv_token False ex_rx ((write_int 1 @ [9] @ write_int (- (i + 1))) @ rest) = Inr ((int (length [9 :: byte]), [9], ex_rx), write_int (- (i + 1)) @ rest)"
    using read_int_write_int [OF i(2)]
    by (simp add: simple_recv_token_def ex_rx_def recv_piece_def Let_def reader_simps read_buf_def CHUNK_SIZE_def)
  have "recv_prefix (simple_recv_token False) ex_rx ((write_int 1 @ [9] @ write_int (- (i + 1))) @ rest) (map LitB [9] @ []) ex_rx (write_int (- (i + 1)) @ rest)"
    by (rule prefix_lit [where recv = "simple_recv_token False", OF 1]) (simp_all add: prefix_here)
  moreover have "simple_recv_token False ex_rx (write_int (- (i + 1)) @ rest) = Inr ((-1 - i, [], ex_rx), rest)"
    using read_int_write_int [OF i(1)] assms(1) by (simp add: simple_recv_token_def ex_rx_def reader_simps)
  ultimately show thesis using that by simp
qed

text \<open>Block 3 of a signature of three blocks; block 0 of an empty signature, without a basis. The bytes 1, 2 and 3 follow.\<close>

theorem receive_data_protocol_error_witness:
  "receive_data ex_recv (simple_recv_token False) True (int (length [1, 2, 3, 4, 5 :: byte])) 3 (fresh_output [] 0) ex_rx
       (write_sum_head (rc_cf ex_recv) (Some ex_head) @ (write_int 1 @ [9] @ write_int (- (3 + 1))) @ [1, 2, 3])
     = Some (Inl RERR_PROTOCOL)
   \<and> receive_data ex_recv (simple_recv_token False) False (int (length ([] :: byte list))) 3 (fresh_output [] 0) ex_rx
       (write_sum_head (rc_cf ex_recv) None @ (write_int 1 @ [9] @ write_int (- (0 + 1))) @ [1, 2, 3])
     = Some (Inl RERR_PROTOCOL)"
proof
  obtain r1 where r: "recv_prefix (simple_recv_token False) ex_rx ((write_int 1 @ [9] @ write_int (- (3 + 1))) @ [1, 2, 3]) [LitB 9] r1 (write_int (- (3 + 1)) @ [1, 2, 3])"
    "simple_recv_token False r1 (write_int (- (3 + 1)) @ [1, 2, 3]) = Inr ((-1 - 3, [], r1), [1, 2, 3])" by (rule ex_prefix [of 3]) simp_all
  show "receive_data ex_recv (simple_recv_token False) True (int (length [1, 2, 3, 4, 5 :: byte])) 3 (fresh_output [] 0) ex_rx
       (write_sum_head (rc_cf ex_recv) (Some ex_head) @ (write_int 1 @ [9] @ write_int (- (3 + 1))) @ [1, 2, 3])
     = Some (Inl RERR_PROTOCOL)"
    by (rule receive_data_protocol_error [OF ex_env disjI1 [OF ex_basis] ex_read_head r(1) _ _ r(2)]) (simp_all add: items_ok_def ex_head_def)
next
  obtain r1 where r: "recv_prefix (simple_recv_token False) ex_rx ((write_int 1 @ [9] @ write_int (- (0 + 1))) @ [1, 2, 3]) [LitB 9] r1 (write_int (- (0 + 1)) @ [1, 2, 3])"
    "simple_recv_token False r1 (write_int (- (0 + 1)) @ [1, 2, 3]) = Inr ((-1 - 0, [], r1), [1, 2, 3])" by (rule ex_prefix [of 0]) simp_all
  show "receive_data ex_recv (simple_recv_token False) False (int (length ([] :: byte list))) 3 (fresh_output [] 0) ex_rx
       (write_sum_head (rc_cf ex_recv) None @ (write_int 1 @ [9] @ write_int (- (0 + 1))) @ [1, 2, 3])
     = Some (Inl RERR_PROTOCOL)"
    by (rule receive_data_protocol_error [OF ex_env disjI2 ex_read_null r(1) _ _ r(2)]) (simp_all add: items_ok_def null_sum_def)
qed

definition ex_inplace :: recv_env where
  "ex_inplace = ex_recv\<lparr>rc_updating := True, rc_inplace_sizing := True, rc_inplace := True, rc_fallocate_ok := False,
     rc_out := \<lparr>sys_write = (\<lambda>p n. int n), punch_works = True, zero_range_works = True, truncate_works = True, sparse_files = 1\<rparr>\<rparr>"

theorem failed_preallocation_keeps_old_data_witness:
  "\<exists>st' r'. receive_data ex_inplace (simple_recv_token False) True (int (length [1, 2, 3, 4 :: byte])) (int (2 + length [9, 9, 9 :: byte])) (fresh_output [1, 2, 3, 4] 0) ex_rx
       (write_sum_head (rc_cf ex_inplace) None @ write_int 5 @ [0, 0, 9, 9, 9] @ write_int 0 @ [0, 0] @ [])
     = Some (Inr (True, st', r', [])) \<and> wf_data (rs_out st') = take 2 [1, 2, 3, 4] @ [9, 9, 9]"
proof -
  have two: "replicate 2 (0 :: byte) = [0, 0]" by (simp add: numeral_2_eq_2)
  have cf: "rc_cf ex_inplace = rc_cf ex_recv" by (simp add: ex_inplace_def)
  have 1: "simple_recv_token False ex_rx (write_int 5 @ [0, 0, 9, 9, 9] @ write_int 0 @ [0, 0] @ [])
      = Inr ((int (2 + length [9, 9, 9 :: byte]), replicate 2 0 @ [9, 9, 9], ex_rx), write_int 0 @ [0, 0] @ [])"
    using read_int_write_int [of 5]
    by (simp add: simple_recv_token_def ex_rx_def recv_piece_def Let_def reader_simps read_buf_def CHUNK_SIZE_def in_int32_def two)
  have 2: "simple_recv_token False ex_rx (write_int 0 @ [0, 0] @ []) = Inr ((0, [], ex_rx), [0, 0] @ [])"
    using read_int_write_int [of 0] by (simp add: simple_recv_token_def ex_rx_def reader_simps in_int32_def)
  have "\<exists>st'. receive_data ex_inplace (simple_recv_token False) True (int (length [1, 2, 3, 4 :: byte])) (int (2 + length [9, 9, 9 :: byte])) (fresh_output [1, 2, 3, 4] 0) ex_rx
       (write_sum_head (rc_cf ex_inplace) None @ write_int 5 @ [0, 0, 9, 9, 9] @ write_int 0 @ [0, 0] @ [])
     = Some (Inr (True, st', ex_rx, [])) \<and> wf_data (rs_out st') = take 2 [1, 2, 3, 4] @ [9, 9, 9]"
    by (rule failed_preallocation_keeps_old_data [where recv = "simple_recv_token False" and d = "[]" and fsum = "[0, 0]" and rest = "[]",
          OF _ _ _ _ _ _ _ _ _ _ _ _ _ _ _ _ _ _ ex_read_null [folded cf] 1 2])
      (simp_all add: ex_inplace_def ex_recv_def full_writes_def SPARSE_WRITE_SIZE_def two)
  then show ?thesis by blast
qed

theorem discard_drains_witness:
  "\<exists>st' r'. discard_receive_data ex_recv (simple_recv_token False) 3 (fresh_output [4, 4] 9) ex_rx
       (write_sum_head (rc_cf ex_recv) (Some ex_head) @ (write_int 1 @ [9] @ write_int (- (2 + 1)) @ write_int 0) @ [0, 0] @ [77])
     = Some (Inr (True, st', r', [77])) \<and> wf_data (rs_out st') = [4, 4]"
proof -
  obtain r' where "recvs (simple_recv_token False) ex_rx ((write_int 1 @ [9] @ write_int (- (2 + 1)) @ write_int 0) @ [0, 0] @ [77])
      [LitB 9, TokI 2] r' ([0, 0] @ [77])" by (rule ex_stream [of 2]) simp_all
  from discard_drains [OF ex_read_head this, of 3 "fresh_output [4, 4] 9"] show ?thesis
    by (auto simp: items_ok_def ex_head_def ex_recv_def fresh_output_def)
qed

end
