(* ===== verification/MdDigest.thy ===== *)
theory MdDigest
  imports Checksum
begin

unbundle bit_operations_syntax

text \<open>
  The digests that the program computes itself: MD4 (\<^verbatim>\<open>lib/mdfour.c\<close>), MD5 (\<^verbatim>\<open>lib/md5.c\<close>), and the accumulator
  of \<^verbatim>\<open>checksum.c\<close> (\<^verbatim>\<open>sum_init\<close>, \<^verbatim>\<open>sum_update\<close>, \<^verbatim>\<open>sum_end\<close>, \<^verbatim>\<open>get_checksum2\<close>) over them. OpenSSL and xxhash are arguments.
  Lengths are natural numbers; the \<^verbatim>\<open>int32\<close> sums of \<^verbatim>\<open>get_checksum2\<close> agree with them below \<open>2^31 - 68\<close>.
\<close>

section \<open>Definitions\<close>

definition CSUM_CHUNK :: nat where "CSUM_CHUNK = 64"

record md_context =
  md_A :: uint32
  md_B :: uint32
  md_C :: uint32
  md_D :: uint32
  totalN :: uint32
  totalN2 :: uint32
  md_buffer :: "byte list"

type_synonym md_regs = "uint32 \<times> uint32 \<times> uint32 \<times> uint32"

definition regs_of :: "md_context \<Rightarrow> md_regs" where
  "regs_of m = (md_A m, md_B m, md_C m, md_D m)"

definition set_regs :: "md_regs \<Rightarrow> md_context \<Rightarrow> md_context" where
  "set_regs r m = (case r of (a, b, c, d) \<Rightarrow> m\<lparr>md_A := a, md_B := b, md_C := c, md_D := d\<rparr>)"

subsection \<open>MD4\<close>

definition md4_F :: "uint32 \<Rightarrow> uint32 \<Rightarrow> uint32 \<Rightarrow> uint32" where
  "md4_F X Y Z = (X AND Y) OR (NOT X AND Z)"

definition md4_G :: "uint32 \<Rightarrow> uint32 \<Rightarrow> uint32 \<Rightarrow> uint32" where
  "md4_G X Y Z = (X AND Y) OR (X AND Z) OR (Y AND Z)"

definition md4_H :: "uint32 \<Rightarrow> uint32 \<Rightarrow> uint32 \<Rightarrow> uint32" where
  "md4_H X Y Z = X XOR Y XOR Z"

definition lshift :: "uint32 \<Rightarrow> nat \<Rightarrow> uint32" where
  "lshift x s = push_bit s x OR drop_bit (32 - s) x"

text \<open>
  One \<^verbatim>\<open>ROUND\<close> line. The registers are named in the order of the macro's arguments, which from one line to the
  next rotate as \<open>A B C D\<close>, \<open>D A B C\<close>, \<open>C D A B\<close>, \<open>B C D A\<close>.
\<close>

definition md4_round :: "(uint32 \<Rightarrow> uint32 \<Rightarrow> uint32 \<Rightarrow> uint32) \<Rightarrow> uint32 \<Rightarrow> uint32 list \<Rightarrow> nat \<times> nat \<Rightarrow> md_regs \<Rightarrow> md_regs" where
  "md4_round f t M ks r = (case ks of (k, s) \<Rightarrow> (case r of (a, b, c, d) \<Rightarrow> (d, lshift (a + f b c d + M ! k + t) s, b, c)))"

definition md4_ROUND1 :: "(nat \<times> nat) list" where
  "md4_ROUND1 = [(0, 3), (1, 7), (2, 11), (3, 19), (4, 3), (5, 7), (6, 11), (7, 19),
     (8, 3), (9, 7), (10, 11), (11, 19), (12, 3), (13, 7), (14, 11), (15, 19)]"

definition md4_ROUND2 :: "(nat \<times> nat) list" where
  "md4_ROUND2 = [(0, 3), (4, 5), (8, 9), (12, 13), (1, 3), (5, 5), (9, 9), (13, 13),
     (2, 3), (6, 5), (10, 9), (14, 13), (3, 3), (7, 5), (11, 9), (15, 13)]"

definition md4_ROUND3 :: "(nat \<times> nat) list" where
  "md4_ROUND3 = [(0, 3), (8, 9), (4, 11), (12, 15), (2, 3), (10, 9), (6, 11), (14, 15),
     (1, 3), (9, 9), (5, 11), (13, 15), (3, 3), (11, 9), (7, 11), (15, 15)]"

definition add_regs :: "md_regs \<Rightarrow> md_regs \<Rightarrow> md_regs" where
  "add_regs r q = (case r of (a, b, c, d) \<Rightarrow> (case q of (a', b', c', d') \<Rightarrow> (a + a', b + b', c + c', d + d')))"

definition mdfour64 :: "md_context \<Rightarrow> uint32 list \<Rightarrow> md_context" where
  "mdfour64 m M =
     (let r0 = regs_of m;
          r1 = fold (md4_round md4_F 0 M) md4_ROUND1 r0;
          r2 = fold (md4_round md4_G 0x5A827999 M) md4_ROUND2 r1;
          r3 = fold (md4_round md4_H 0x6ED9EBA1 M) md4_ROUND3 r2
      in set_regs (add_regs r3 r0) m)"

definition copy64 :: "byte list \<Rightarrow> uint32 list" where
  "copy64 inp = map (\<lambda>i. push_bit 24 (UVAL inp (i * 4 + 3)) OR push_bit 16 (UVAL inp (i * 4 + 2))
     OR push_bit 8 (UVAL inp (i * 4 + 1)) OR UVAL inp (i * 4)) [0..<16]"

definition copy4 :: "uint32 \<Rightarrow> byte list" where
  "copy4 x = [ucast (x AND 0xFF), ucast (drop_bit 8 x AND 0xFF), ucast (drop_bit 16 x AND 0xFF), ucast (drop_bit 24 x AND 0xFF)]"

definition mdfour_begin :: "md_context \<Rightarrow> md_context" where
  "mdfour_begin md = md\<lparr>md_A := 0x67452301, md_B := 0xefcdab89, md_C := 0x98badcfe, md_D := 0x10325476, totalN := 0, totalN2 := 0\<rparr>"

definition tail_count :: "md_context \<Rightarrow> nat \<Rightarrow> md_context" where
  "tail_count m len =
     (let bits = push_bit 3 (word_of_nat len);
          m1 = m\<lparr>totalN := totalN m + bits\<rparr>;
          m2 = (if totalN m1 < bits then m1\<lparr>totalN2 := totalN2 m1 + 1\<rparr> else m1)
      in m2\<lparr>totalN2 := totalN2 m2 + drop_bit 29 (word_of_nat len)\<rparr>)"

text \<open>The last bytes, fewer than 64 of them; the first argument is the protocol version.\<close>

definition mdfour_tail :: "int \<Rightarrow> md_context \<Rightarrow> byte list \<Rightarrow> md_context" where
  "mdfour_tail protocol m inp =
     (let len = length inp;
          m3 = tail_count m len;
          buf = (blit (replicate 128 0) 0 inp)[len := 0x80]
      in if len \<le> 55
         then (let buf1 = blit buf 56 (copy4 (totalN m3));
                   buf2 = (if protocol \<ge> 27 then blit buf1 60 (copy4 (totalN2 m3)) else buf1)
               in mdfour64 m3 (copy64 buf2))
         else (let buf1 = blit buf 120 (copy4 (totalN m3));
                   buf2 = (if protocol \<ge> 27 then blit buf1 124 (copy4 (totalN2 m3)) else buf1)
               in mdfour64 (mdfour64 m3 (copy64 buf2)) (copy64 (drop 64 buf2))))"

function mdfour_loop :: "md_context \<Rightarrow> byte list \<Rightarrow> md_context \<times> byte list" where
  "mdfour_loop m inp =
     (if length inp \<ge> 64
      then (let m1 = mdfour64 m (copy64 inp);
                m2 = m1\<lparr>totalN := totalN m1 + 512\<rparr>;
                m3 = (if totalN m2 < 512 then m2\<lparr>totalN2 := totalN2 m2 + 1\<rparr> else m2)
            in mdfour_loop m3 (drop 64 inp))
      else (m, inp))"
  by pat_completeness auto
termination by (relation "measure (\<lambda>(m, inp). length inp)") auto

declare mdfour_loop.simps [simp del]

definition mdfour_update :: "int \<Rightarrow> md_context \<Rightarrow> byte list \<Rightarrow> md_context" where
  "mdfour_update protocol md inp =
     (let m0 = (if inp = [] then mdfour_tail protocol md [] else md);
          (m1, rest) = mdfour_loop m0 inp
      in if rest \<noteq> [] then mdfour_tail protocol m1 rest else m1)"

definition mdfour_result :: "md_context \<Rightarrow> byte list" where
  "mdfour_result md = copy4 (md_A md) @ copy4 (md_B md) @ copy4 (md_C md) @ copy4 (md_D md)"

subsection \<open>MD5\<close>

definition md5_begin :: "md_context \<Rightarrow> md_context" where
  "md5_begin ctx = ctx\<lparr>md_A := 0x67452301, md_B := 0xEFCDAB89, md_C := 0x98BADCFE, md_D := 0x10325476, totalN := 0, totalN2 := 0\<rparr>"

definition md5_S :: "uint32 \<Rightarrow> nat \<Rightarrow> uint32" where
  "md5_S x n = push_bit n x OR drop_bit (32 - n) (x AND 0xFFFFFFFF)"

definition md5_F1 :: "uint32 \<Rightarrow> uint32 \<Rightarrow> uint32 \<Rightarrow> uint32" where "md5_F1 x y z = z XOR (x AND (y XOR z))"
definition md5_F2 :: "uint32 \<Rightarrow> uint32 \<Rightarrow> uint32 \<Rightarrow> uint32" where "md5_F2 x y z = y XOR (z AND (x XOR y))"
definition md5_F3 :: "uint32 \<Rightarrow> uint32 \<Rightarrow> uint32 \<Rightarrow> uint32" where "md5_F3 x y z = x XOR y XOR z"
definition md5_F4 :: "uint32 \<Rightarrow> uint32 \<Rightarrow> uint32 \<Rightarrow> uint32" where "md5_F4 x y z = y XOR (x OR NOT z)"

definition md5_P :: "(uint32 \<Rightarrow> uint32 \<Rightarrow> uint32 \<Rightarrow> uint32) \<Rightarrow> uint32 list \<Rightarrow> nat \<times> nat \<times> uint32 \<Rightarrow> md_regs \<Rightarrow> md_regs" where
  "md5_P f X kst r = (case kst of (k, s, t) \<Rightarrow> (case r of (a, b, c, d) \<Rightarrow> (d, md5_S (a + (f b c d + X ! k + t)) s + b, b, c)))"

definition md5_round1 :: "(nat \<times> nat \<times> uint32) list" where
  "md5_round1 = [(0, 7, 0xD76AA478), (1, 12, 0xE8C7B756), (2, 17, 0x242070DB), (3, 22, 0xC1BDCEEE),
     (4, 7, 0xF57C0FAF), (5, 12, 0x4787C62A), (6, 17, 0xA8304613), (7, 22, 0xFD469501),
     (8, 7, 0x698098D8), (9, 12, 0x8B44F7AF), (10, 17, 0xFFFF5BB1), (11, 22, 0x895CD7BE),
     (12, 7, 0x6B901122), (13, 12, 0xFD987193), (14, 17, 0xA679438E), (15, 22, 0x49B40821)]"

definition md5_round2 :: "(nat \<times> nat \<times> uint32) list" where
  "md5_round2 = [(1, 5, 0xF61E2562), (6, 9, 0xC040B340), (11, 14, 0x265E5A51), (0, 20, 0xE9B6C7AA),
     (5, 5, 0xD62F105D), (10, 9, 0x02441453), (15, 14, 0xD8A1E681), (4, 20, 0xE7D3FBC8),
     (9, 5, 0x21E1CDE6), (14, 9, 0xC33707D6), (3, 14, 0xF4D50D87), (8, 20, 0x455A14ED),
     (13, 5, 0xA9E3E905), (2, 9, 0xFCEFA3F8), (7, 14, 0x676F02D9), (12, 20, 0x8D2A4C8A)]"

definition md5_round3 :: "(nat \<times> nat \<times> uint32) list" where
  "md5_round3 = [(5, 4, 0xFFFA3942), (8, 11, 0x8771F681), (11, 16, 0x6D9D6122), (14, 23, 0xFDE5380C),
     (1, 4, 0xA4BEEA44), (4, 11, 0x4BDECFA9), (7, 16, 0xF6BB4B60), (10, 23, 0xBEBFBC70),
     (13, 4, 0x289B7EC6), (0, 11, 0xEAA127FA), (3, 16, 0xD4EF3085), (6, 23, 0x04881D05),
     (9, 4, 0xD9D4D039), (12, 11, 0xE6DB99E5), (15, 16, 0x1FA27CF8), (2, 23, 0xC4AC5665)]"

definition md5_round4 :: "(nat \<times> nat \<times> uint32) list" where
  "md5_round4 = [(0, 6, 0xF4292244), (7, 10, 0x432AFF97), (14, 15, 0xAB9423A7), (5, 21, 0xFC93A039),
     (12, 6, 0x655B59C3), (3, 10, 0x8F0CCC92), (10, 15, 0xFFEFF47D), (1, 21, 0x85845DD1),
     (8, 6, 0x6FA87E4F), (15, 10, 0xFE2CE6E0), (6, 15, 0xA3014314), (13, 21, 0x4E0811A1),
     (4, 6, 0xF7537E82), (11, 10, 0xBD3AF235), (2, 15, 0x2AD7D2BB), (9, 21, 0xEB86D391)]"

definition md5_process :: "md_context \<Rightarrow> byte list \<Rightarrow> md_context" where
  "md5_process ctx data =
     (let X = map (\<lambda>i. IVALu data (4 * i)) [0..<16];
          r0 = regs_of ctx;
          r1 = fold (md5_P md5_F1 X) md5_round1 r0;
          r2 = fold (md5_P md5_F2 X) md5_round2 r1;
          r3 = fold (md5_P md5_F3 X) md5_round3 r2;
          r4 = fold (md5_P md5_F4 X) md5_round4 r3
      in set_regs (add_regs r0 r4) ctx)"

function md5_loop :: "md_context \<Rightarrow> byte list \<Rightarrow> md_context \<times> byte list" where
  "md5_loop ctx inp = (if length inp \<ge> CSUM_CHUNK then md5_loop (md5_process ctx inp) (drop CSUM_CHUNK inp) else (ctx, inp))"
  by pat_completeness auto
termination by (relation "measure (\<lambda>(ctx, inp). length inp)") (auto simp: CSUM_CHUNK_def)

declare md5_loop.simps [simp del]

definition md5_update :: "md_context \<Rightarrow> byte list \<Rightarrow> md_context" where
  "md5_update ctx inp =
     (if inp = [] then ctx
      else (let len = length inp;
                left = unat (totalN ctx AND 0x3F);
                fill = CSUM_CHUNK - left;
                ctx1 = ctx\<lparr>totalN := totalN ctx + word_of_nat len\<rparr>;
                ctx2 = (if totalN ctx1 < word_of_nat len then ctx1\<lparr>totalN2 := totalN2 ctx1 + 1\<rparr> else ctx1);
                (ctx3, inp1, left1) =
                  (if left \<noteq> 0 \<and> len \<ge> fill
                   then (let c = ctx2\<lparr>md_buffer := blit (md_buffer ctx2) left (take fill inp)\<rparr>
                         in (md5_process c (md_buffer c), drop fill inp, 0))
                   else (ctx2, inp, left));
                (ctx4, rest) = md5_loop ctx3 inp1
            in if rest \<noteq> [] then ctx4\<lparr>md_buffer := blit (md_buffer ctx4) left1 rest\<rparr> else ctx4))"

definition md5_padding :: "byte list" where
  "md5_padding = 0x80 # replicate 63 0"

definition md5_result :: "md_context \<Rightarrow> byte list" where
  "md5_result ctx =
     (let high = drop_bit 29 (totalN ctx) OR push_bit 3 (totalN2 ctx);
          low = push_bit 3 (totalN ctx);
          msglen = SIVALu (SIVALu (replicate 8 0) 0 low) 4 high;
          l = unat (totalN ctx AND 0x3F);
          padn = (if l < 56 then 56 - l else 120 - l);
          ctx1 = md5_update (md5_update ctx (take padn md5_padding)) msglen
      in SIVALu (SIVALu (SIVALu (SIVALu (replicate 16 0) 0 (md_A ctx1)) 4 (md_B ctx1)) 8 (md_C ctx1)) 12 (md_D ctx1))"

subsection \<open>The accumulator of checksum.c\<close>

text \<open>
  OpenSSL and xxhash: the streaming functions, and the one-shot functions of xxhash, whose 64-bit seed extends the sign of \<^verbatim>\<open>checksum_seed\<close>. \<open>evp_md\<close> tells for which
  checksums \<^verbatim>\<open>csum_evp_md\<close> finds a digest of OpenSSL.
\<close>

record 'x hash_lib =
  evp_md :: "csum_type \<Rightarrow> bool"
  lib_init :: "csum_type \<Rightarrow> 'x"
  lib_update :: "'x \<Rightarrow> byte list \<Rightarrow> 'x"
  evp_final :: "'x \<Rightarrow> byte list"
  XXH64_digest :: "'x \<Rightarrow> uint64"
  XXH3_64bits_digest :: "'x \<Rightarrow> uint64"
  XXH3_128bits_digest :: "'x \<Rightarrow> uint64 \<times> uint64"
  XXH64 :: "byte list \<Rightarrow> uint64 \<Rightarrow> uint64"
  XXH3_64bits_withSeed :: "byte list \<Rightarrow> uint64 \<Rightarrow> uint64"
  XXH3_128bits_withSeed :: "byte list \<Rightarrow> uint64 \<Rightarrow> uint64 \<times> uint64"

record 'x sum_state =
  cur_sum :: csum_type
  cur_sum_evp :: bool
  cur_sum_len :: nat
  ctx_md :: md_context
  sumresidue :: nat
  sum_lib :: 'x

definition is_xxh :: "csum_type \<Rightarrow> bool" where
  "is_xxh t \<longleftrightarrow> t = CSUM_XXH64 \<or> t = CSUM_XXH3_64 \<or> t = CSUM_XXH3_128"

definition is_md4 :: "csum_type \<Rightarrow> bool" where
  "is_md4 t \<longleftrightarrow> t = CSUM_MD4 \<or> t = CSUM_MD4_OLD \<or> t = CSUM_MD4_BUSTED \<or> t = CSUM_MD4_ARCHAIC"

function md4_chunks :: "int \<Rightarrow> md_context \<Rightarrow> byte list \<Rightarrow> md_context \<times> byte list" where
  "md4_chunks protocol ctx p =
     (if length p \<ge> CSUM_CHUNK then md4_chunks protocol (mdfour_update protocol ctx (take CSUM_CHUNK p)) (drop CSUM_CHUNK p) else (ctx, p))"
  by pat_completeness auto
termination by (relation "measure (\<lambda>(protocol, ctx, p). length p)") (auto simp: CSUM_CHUNK_def)

declare md4_chunks.simps [simp del]

definition md4_sum_update :: "int \<Rightarrow> 'x sum_state \<Rightarrow> byte list \<Rightarrow> 'x sum_state" where
  "md4_sum_update protocol st p =
     (let res = sumresidue st; ctx = ctx_md st
      in if length p + res < CSUM_CHUNK
         then st\<lparr>ctx_md := ctx\<lparr>md_buffer := blit (md_buffer ctx) res p\<rparr>, sumresidue := res + length p\<rparr>
         else (let (ctx1, p1) =
                     (if res \<noteq> 0
                      then (let i = CSUM_CHUNK - res;
                                c = ctx\<lparr>md_buffer := blit (md_buffer ctx) res (take i p)\<rparr>
                            in (mdfour_update protocol c (take CSUM_CHUNK (md_buffer c)), drop i p))
                      else (ctx, p));
                   (ctx2, p2) = md4_chunks protocol ctx1 p1
               in st\<lparr>ctx_md := (if p2 \<noteq> [] then ctx2\<lparr>md_buffer := blit (md_buffer ctx2) 0 p2\<rparr> else ctx2), sumresidue := length p2\<rparr>))"

definition sum_update :: "int \<Rightarrow> 'x hash_lib \<Rightarrow> 'x sum_state \<Rightarrow> byte list \<Rightarrow> 'x sum_state result" where
  "sum_update protocol hl st p =
     (if cur_sum_evp st \<or> is_xxh (cur_sum st) then Inr (st\<lparr>sum_lib := lib_update hl (sum_lib st) p\<rparr>)
      else if cur_sum st = CSUM_MD5 then Inr (st\<lparr>ctx_md := md5_update (ctx_md st) p\<rparr>)
      else if is_md4 (cur_sum st) then Inr (md4_sum_update protocol st p)
      else if cur_sum st = CSUM_NONE then Inr st
      else Inl RERR_UNSUPPORTED)"

definition sum_init :: "int \<Rightarrow> 'x hash_lib \<Rightarrow> 'x sum_state \<Rightarrow> csum_type \<Rightarrow> uint32 \<Rightarrow> 'x sum_state result" where
  "sum_init protocol hl st t seed =
     (case csum_len_for_type t False of
        Inl e \<Rightarrow> Inl e
      | Inr n \<Rightarrow>
          (let st1 = st\<lparr>cur_sum := t, cur_sum_evp := evp_md hl t, cur_sum_len := n\<rparr>
           in if evp_md hl t \<or> is_xxh t then Inr (st1\<lparr>sum_lib := lib_init hl t\<rparr>)
              else if t = CSUM_MD5 then Inr (st1\<lparr>ctx_md := md5_begin (ctx_md st)\<rparr>)
              else if t = CSUM_MD4 then Inr (st1\<lparr>ctx_md := mdfour_begin (ctx_md st), sumresidue := 0\<rparr>)
              else if is_md4 t
              then sum_update protocol hl (st1\<lparr>ctx_md := mdfour_begin (ctx_md st), sumresidue := 0\<rparr>) (SIVALu (replicate 4 0) 0 seed)
              else if t = CSUM_NONE then Inr st1
              else Inl RERR_UNSUPPORTED))"

definition sum_end :: "int \<Rightarrow> 'x hash_lib \<Rightarrow> 'x sum_state \<Rightarrow> byte list result" where
  "sum_end protocol hl st =
     (let t = cur_sum st; rest = take (sumresidue st) (md_buffer (ctx_md st))
      in if cur_sum_evp st then Inr (evp_final hl (sum_lib st))
         else if t = CSUM_XXH64 then Inr (SIVAL64 (replicate 8 0) 0 (XXH64_digest hl (sum_lib st)))
         else if t = CSUM_XXH3_64 then Inr (SIVAL64 (replicate 8 0) 0 (XXH3_64bits_digest hl (sum_lib st)))
         else if t = CSUM_XXH3_128
         then (let (low64, high64) = XXH3_128bits_digest hl (sum_lib st) in Inr (SIVAL64 (SIVAL64 (replicate 16 0) 0 low64) 8 high64))
         else if t = CSUM_MD5 then Inr (md5_result (ctx_md st))
         else if t = CSUM_MD4 \<or> t = CSUM_MD4_OLD then Inr (mdfour_result (mdfour_update protocol (ctx_md st) rest))
         else if t = CSUM_MD4_BUSTED \<or> t = CSUM_MD4_ARCHAIC
         then Inr (mdfour_result (if sumresidue st \<noteq> 0 then mdfour_update protocol (ctx_md st) rest else ctx_md st))
         else if t = CSUM_NONE then Inr [0]
         else Inl RERR_UNSUPPORTED)"

text \<open>The strong sum of one block. The MD4 branch feeds whole chunks of the seeded copy and then the rest.\<close>

definition get_checksum2 :: "int \<Rightarrow> bool \<Rightarrow> 'x hash_lib \<Rightarrow> csum_type \<Rightarrow> uint32 \<Rightarrow> byte list \<Rightarrow> byte list result" where
  "get_checksum2 protocol proper_seed_order hl t checksum_seed buf =
     (let seedbuf = SIVALu (replicate 4 0) 0 checksum_seed;
          new_md = \<lparr>md_A = 0, md_B = 0, md_C = 0, md_D = 0, totalN = 0, totalN2 = 0, md_buffer = replicate CSUM_CHUNK 0\<rparr>
      in if evp_md hl t
         then (let e1 = (if checksum_seed \<noteq> 0 then lib_update hl (lib_init hl t) seedbuf else lib_init hl t)
               in Inr (evp_final hl (lib_update hl e1 buf)))
         else if t = CSUM_XXH64 then Inr (SIVAL64 (replicate 8 0) 0 (XXH64 hl buf (scast checksum_seed)))
         else if t = CSUM_XXH3_64 then Inr (SIVAL64 (replicate 8 0) 0 (XXH3_64bits_withSeed hl buf (scast checksum_seed)))
         else if t = CSUM_XXH3_128
         then (let (low64, high64) = XXH3_128bits_withSeed hl buf (scast checksum_seed)
               in Inr (SIVAL64 (SIVAL64 (replicate 16 0) 0 low64) 8 high64))
         else if t = CSUM_MD5
         then (let m0 = md5_begin new_md;
                   m1 = (if proper_seed_order
                         then md5_update (if checksum_seed \<noteq> 0 then md5_update m0 seedbuf else m0) buf
                         else (if checksum_seed \<noteq> 0 then md5_update (md5_update m0 buf) seedbuf else md5_update m0 buf))
               in Inr (md5_result m1))
         else if is_md4 t
         then (let buf1 = (if checksum_seed \<noteq> 0 then buf @ seedbuf else buf);
                   (m1, rest) = md4_chunks protocol (mdfour_begin new_md) buf1
               in Inr (mdfour_result (if rest \<noteq> [] \<or> t = CSUM_MD4_OLD \<or> t = CSUM_MD4 then mdfour_update protocol m1 rest else m1)))
         else Inl RERR_UNSUPPORTED)"

section \<open>The reference digests\<close>

text \<open>Whole chunks of 64 bytes are absorbed one after another.\<close>

function absorb :: "(md_regs \<Rightarrow> byte list \<Rightarrow> md_regs) \<Rightarrow> md_regs \<Rightarrow> byte list \<Rightarrow> md_regs" where
  "absorb f r m = (if 64 \<le> length m then absorb f (f r (take 64 m)) (drop 64 m) else r)"
  by pat_completeness auto
termination by (relation "measure (\<lambda>(f, r, m). length m)") auto

declare absorb.simps [simp del]

definition md4_block :: "md_regs \<Rightarrow> byte list \<Rightarrow> md_regs" where
  "md4_block r b = regs_of (mdfour64 (set_regs r \<lparr>md_A = 0, md_B = 0, md_C = 0, md_D = 0, totalN = 0, totalN2 = 0, md_buffer = []\<rparr>) (copy64 b))"

definition md5_block :: "md_regs \<Rightarrow> byte list \<Rightarrow> md_regs" where
  "md5_block r b = regs_of (md5_process (set_regs r \<lparr>md_A = 0, md_B = 0, md_C = 0, md_D = 0, totalN = 0, totalN2 = 0, md_buffer = []\<rparr>) b)"

definition md_iv :: md_regs where
  "md_iv = (0x67452301, 0xefcdab89, 0x98badcfe, 0x10325476)"

text \<open>A one bit, zeros, and the number of bits in eight bytes (the upper four are zero before protocol 27), up to a whole chunk.\<close>

definition md_pad :: "bool \<Rightarrow> byte list \<Rightarrow> byte list" where
  "md_pad high m = m @ 0x80 # replicate (if length m mod 64 < 56 then 55 - length m mod 64 else 119 - length m mod 64) 0
     @ SIVALu (replicate 4 0) 0 (word_of_nat (8 * length m))
     @ SIVALu (replicate 4 0) 0 (if high then word_of_nat (8 * length m div 2 ^ 32) else 0)"

definition regs_bytes :: "md_regs \<Rightarrow> byte list" where
  "regs_bytes r = (case r of (a, b, c, d) \<Rightarrow> SIVALu (replicate 4 0) 0 a @ SIVALu (replicate 4 0) 0 b @ SIVALu (replicate 4 0) 0 c @ SIVALu (replicate 4 0) 0 d)"

definition md5_digest :: "byte list \<Rightarrow> byte list" where
  "md5_digest m = regs_bytes (absorb md5_block md_iv (md_pad True m))"

definition md4_digest :: "int \<Rightarrow> byte list \<Rightarrow> byte list" where
  "md4_digest protocol m = regs_bytes (absorb md4_block md_iv (md_pad (protocol \<ge> 27) m))"

section \<open>Absorbing\<close>

lemma absorb_short [simp]: "length m < 64 \<Longrightarrow> absorb f r m = r"
  by (simp add: absorb.simps)

lemma absorb_append: "64 dvd length a \<Longrightarrow> absorb f r (a @ b) = absorb f (absorb f r a) b"
proof (induction f r a rule: absorb.induct)
  case (1 f r a)
  show ?case
  proof (cases "64 \<le> length a")
    case True
    then have "64 dvd length (drop 64 a)" using 1(2) by (simp add: dvd_minus_self)
    then show ?thesis using 1(1) True by (simp add: absorb.simps [of f r])
  next
    case False
    then have "a = []" using 1(2) by (metis dvd_imp_le length_greater_0_conv linorder_not_le)
    then show ?thesis by simp
  qed
qed

text \<open>A message is its whole chunks and a rest of fewer than 64 bytes.\<close>

definition whole :: "byte list \<Rightarrow> byte list" where "whole m = take (64 * (length m div 64)) m"
definition rest :: "byte list \<Rightarrow> byte list" where "rest m = drop (64 * (length m div 64)) m"

lemma whole_rest [simp]: "whole m @ rest m = m" by (simp add: whole_def rest_def)

lemma length_whole: "length (whole m) = 64 * (length m div 64)" "64 dvd length (whole m)"
  by (simp_all add: whole_def)

lemma length_rest: "length (rest m) = length m mod 64" "length (rest m) < 64"
  by (simp_all add: rest_def minus_mult_div_eq_mod)

lemma absorb_whole: "absorb f r (whole m) = absorb f r m"
  using absorb_append [OF length_whole(2), of f r m "rest m"] length_rest(2) [of m] by simp

lemma whole_rest_append:
  assumes "64 dvd length a" "length b < 64"
  shows "whole (a @ b) = a" "rest (a @ b) = b"
proof -
  have "64 * (length (a @ b) div 64) = length a" using assms by (auto elim!: dvdE)
  then show "whole (a @ b) = a" "rest (a @ b) = b" by (simp_all add: whole_def rest_def)
qed

lemma rest_append: "rest (m @ x) = rest (rest m @ x)"
  and absorb_rest: "absorb f r (m @ x) = absorb f (absorb f r m) (rest m @ x)"
proof -
  have m: "m @ x = whole m @ (rest m @ x)" by (metis append.assoc whole_rest)
  show "absorb f r (m @ x) = absorb f (absorb f r m) (rest m @ x)"
    by (subst m) (simp add: absorb_append length_whole absorb_whole)
  have "m @ x = (whole m @ whole (rest m @ x)) @ rest (rest m @ x)" by (metis append.assoc whole_rest)
  moreover have "64 dvd length (whole m @ whole (rest m @ x))" by (simp add: length_whole)
  ultimately show "rest (m @ x) = rest (rest m @ x)" using whole_rest_append(2) length_rest(2) by metis
qed

section \<open>Counting\<close>

lemma add_carry:
  fixes n k W :: nat
  assumes "k < W"
  shows "(n + k) div W = n div W + (if W \<le> n mod W + k then 1 else 0)" "(n + k) mod W < k \<longleftrightarrow> W \<le> n mod W + k"
proof -
  define q r where "q = n div W" and "r = n mod W"
  have r: "r < W" and n: "n + k = q * W + (r + k)" using assms by (simp_all add: q_def r_def)
  show "(n + k) div W = n div W + (if W \<le> n mod W + k then 1 else 0)"
    unfolding n q_def [symmetric] r_def [symmetric] using r assms by (simp add: div_eq_dividend_iff le_div_geq)
  show "(n + k) mod W < k \<longleftrightarrow> W \<le> n mod W + k"
    unfolding n r_def [symmetric] using r assms by (cases "W \<le> r + k") (auto simp: le_mod_geq)
qed

lemma count_carry:
  assumes "k < 2 ^ 32"
  shows "(if (word_of_nat (n + k) :: uint32) < word_of_nat k then word_of_nat (n div 2 ^ 32) + 1 else word_of_nat (n div 2 ^ 32))
    = (word_of_nat ((n + k) div 2 ^ 32) :: uint32)"
proof -
  have u: "unat (word_of_nat j :: uint32) = j mod 2 ^ 32" for j by (simp add: unat_of_nat)
  have "(word_of_nat (n + k) :: uint32) < word_of_nat k \<longleftrightarrow> (n + k) mod 2 ^ 32 < k"
    using assms unfolding word_less_nat_alt u by simp
  then show ?thesis unfolding add_carry [OF assms] by simp
qed

lemma high_bits: "drop_bit 29 (word_of_nat n) OR push_bit 3 (word_of_nat (n div 2 ^ 32)) = (word_of_nat (8 * n div 2 ^ 32) :: uint32)"
proof -
  let ?a = "drop_bit 29 (word_of_nat n) :: uint32" and ?b = "push_bit 3 (word_of_nat (n div 2 ^ 32)) :: uint32"
  have "?a AND ?b = 0" by (rule bit_word_eqI) (auto simp: bit_simps dest: bit_imp_le_length)
  then have ab: "?a OR ?b = ?a + ?b" by (simp add: disjunctive_add_eq_or)
  have "unat ?a = drop_bit 29 (unat (word_of_nat n :: uint32))" by (rule unat_drop_bit_eq)
  also have "\<dots> = n mod 2 ^ 32 div 2 ^ 29" by (simp add: unat_of_nat drop_bit_eq_div)
  finally have "(word_of_nat (unat ?a) :: uint32) = word_of_nat (n mod 2 ^ 32 div 2 ^ 29)" by (rule arg_cong)
  then have a: "?a = word_of_nat (n mod 2 ^ 32 div 2 ^ 29)" by simp
  have b: "?b = word_of_nat (8 * (n div 2 ^ 32))" by (simp add: push_bit_eq_mult)
  define q r where "q = n div 2 ^ 32" and "r = n mod 2 ^ 32"
  have "n = r + (8 * q) * 2 ^ 29" by (simp add: q_def r_def)
  then have "n div 2 ^ 29 = r div 2 ^ 29 + 8 * q" by (simp add: div_mult_self1)
  moreover have "8 * n div 2 ^ 32 = n div 2 ^ 29" using div_mult_mult1 [of 8 n "2 ^ 29"] by simp
  ultimately have "word_of_nat (8 * n div 2 ^ 32) = (word_of_nat (r div 2 ^ 29) + word_of_nat (8 * q) :: uint32)" by simp
  moreover have "?a OR ?b = word_of_nat (r div 2 ^ 29) + word_of_nat (8 * q)" using ab a b unfolding q_def r_def by metis
  ultimately show ?thesis by metis
qed

lemma low_six_bits: "unat (word_of_nat n AND 0x3F :: uint32) = n mod 64"
proof -
  have "(0x3F :: uint32) = mask 6" by (simp add: mask_eq_exp_minus_1)
  then have "unat (word_of_nat n AND 0x3F :: uint32) = unat (take_bit 6 (word_of_nat n :: uint32))" by (simp add: take_bit_eq_mask)
  also have "\<dots> = n mod 64" by (simp add: unsigned_take_bit_eq unat_of_nat) (simp add: take_bit_eq_mod mod_mod_cancel)
  finally show ?thesis .
qed

lemma rest_short [simp]: "length x < 64 \<Longrightarrow> rest x = x"
  by (simp add: rest_def)

lemma rest_dvd: "64 dvd length a \<Longrightarrow> rest (a @ b) = rest b"
  using rest_append [of a b] whole_rest_append(2) [of a "[]"] by simp

lemma absorb_block: "length b = 64 \<Longrightarrow> absorb f r b = f r b"
  by (subst absorb.simps) simp

section \<open>Accumulators\<close>

text \<open>
  The contract of a digest that is fed in pieces: \<open>inv m s\<close> says that the state \<open>s\<close> has taken in the bytes \<open>m\<close>.
  Then any pieces give the digest of their concatenation.
\<close>

locale accumulator =
  fixes start :: 's and feed :: "'s \<Rightarrow> byte list \<Rightarrow> 's" and finish :: "'s \<Rightarrow> byte list"
    and inv :: "byte list \<Rightarrow> 's \<Rightarrow> bool" and digest :: "byte list \<Rightarrow> byte list"
  assumes start_ok: "inv [] start"
    and feed_ok: "inv m s \<Longrightarrow> length x < 2 ^ 31 \<Longrightarrow> inv (m @ x) (feed s x)"
    and finish_ok: "inv m s \<Longrightarrow> finish s = digest m"
begin

lemma feed_pieces: "inv m s \<Longrightarrow> \<forall>x \<in> set xs. length x < 2 ^ 31 \<Longrightarrow> inv (m @ concat xs) (foldl feed s xs)"
proof (induction xs arbitrary: m s)
  case (Cons x xs)
  then show ?case using feed_ok [of m s x] Cons.IH [of "m @ x" "feed s x"] by simp
qed simp

lemma digest_pieces: "\<forall>x \<in> set xs. length x < 2 ^ 31 \<Longrightarrow> finish (foldl feed start xs) = digest (concat xs)"
  using feed_pieces [OF start_ok] finish_ok by fastforce

end

subsection \<open>MD5\<close>

lemma regs_set [simp]: "regs_of (set_regs r m) = r" "md_buffer (set_regs r m) = md_buffer m" "totalN (set_regs r m) = totalN m"
  "totalN2 (set_regs r m) = totalN2 m" "set_regs r (set_regs q m) = set_regs r m" "set_regs (regs_of m) m = m"
  by (cases r; cases q; simp add: regs_of_def set_regs_def)+

lemma md5_process_block: "64 \<le> length b \<Longrightarrow> md5_process ctx b = set_regs (md5_block (regs_of ctx) (take 64 b)) ctx"
proof -
  assume "64 \<le> length b"
  then have X: "map (\<lambda>i. IVALu b (4 * i)) [0..<16] = map (\<lambda>i. IVALu (take 64 b) (4 * i)) [0..<16]"
    by (intro map_cong refl) (simp add: IVALu_def UVAL_def)
  show ?thesis unfolding md5_process_def md5_block_def Let_def X by simp
qed

lemma md5_loop_ok: "md5_loop ctx x = (set_regs (absorb md5_block (regs_of ctx) x) ctx, rest x)"
proof (induction ctx x rule: md5_loop.induct)
  case (1 ctx x)
  show ?case
  proof (cases "64 \<le> length x")
    case True
    have "rest (drop 64 x) = rest x" using rest_append [of "take 64 x" "drop 64 x"] whole_rest_append(2) [of "take 64 x" "[]"] True by simp
    then show ?thesis using True 1 by (subst md5_loop.simps, subst absorb.simps) (simp add: CSUM_CHUNK_def md5_process_block)
  next
    case False
    then show ?thesis by (subst md5_loop.simps) (simp add: CSUM_CHUNK_def rest_def)
  qed
qed

definition md5_inv :: "byte list \<Rightarrow> md_context \<Rightarrow> bool" where
  "md5_inv m ctx \<longleftrightarrow> regs_of ctx = absorb md5_block md_iv m \<and> length (md_buffer ctx) = 64
     \<and> take (length m mod 64) (md_buffer ctx) = rest m
     \<and> totalN ctx = word_of_nat (length m) \<and> totalN2 ctx = word_of_nat (length m div 2 ^ 32)"

lemma take_blit: "k + length x \<le> length b \<Longrightarrow> take (k + length x) (blit b k x) = take k b @ x"
  by (simp add: blit_def)

lemma md5_update_ok:
  assumes "md5_inv m ctx" "length x < 2 ^ 32"
  shows "md5_inv (m @ x) (md5_update ctx x)"
proof (cases "x = []")
  case True
  then show ?thesis using assms(1) by (simp add: md5_update_def)
next
  case ne: False
  define l where "l = length m mod 64"
  have inv: "regs_of ctx = absorb md5_block md_iv m" "length (md_buffer ctx) = 64" "take l (md_buffer ctx) = rest m"
    "totalN ctx = word_of_nat (length m)" "totalN2 ctx = word_of_nat (length m div 2 ^ 32)" "length (rest m) = l" "l < 64"
    using assms(1) by (simp_all add: md5_inv_def l_def length_rest)
  have left: "unat (totalN ctx AND 0x3F) = l" by (simp add: inv(4) low_six_bits l_def)
  define ctx2 where "ctx2 = ctx\<lparr>totalN := word_of_nat (length (m @ x)), totalN2 := word_of_nat (length (m @ x) div 2 ^ 32)\<rparr>"
  have ctx2: "(let c = ctx\<lparr>totalN := totalN ctx + word_of_nat (length x)\<rparr>
      in if totalN c < word_of_nat (length x) then c\<lparr>totalN2 := totalN2 c + 1\<rparr> else c) = ctx2"
    using count_carry [OF assms(2), of "length m"] inv(4,5) by (simp add: ctx2_def Let_def split: if_splits)
  have regs2: "regs_of ctx2 = regs_of ctx" "md_buffer ctx2 = md_buffer ctx" by (simp_all add: ctx2_def regs_of_def)
  have fin: "md5_inv (m @ x) (if rs \<noteq> [] then c\<lparr>md_buffer := blit (md_buffer c) k rs\<rparr> else c)"
    if "c = set_regs (absorb md5_block md_iv (m @ x)) (ctx2\<lparr>md_buffer := b\<rparr>)" "length b = 64" "k + length rs < 64"
      "take k b @ rs = rest (m @ x)" for c b k rs
  proof -
    have "length (m @ x) mod 64 = k + length rs" using that(2-4) length_rest(1) [of "m @ x"] by (metis length_append length_take less_imp_le min.absorb2 add_leD1)
    then show ?thesis using that take_blit [of k rs b]
      by (auto simp: md5_inv_def ctx2_def set_regs_def regs_of_def split: prod.splits)
  qed
  have abs: "absorb md5_block md_iv (m @ x) = absorb md5_block (regs_of ctx) (rest m @ x)" by (simp add: absorb_rest [of _ _ m] inv(1))
  show ?thesis
  proof (cases "l \<noteq> 0 \<and> 64 - l \<le> length x")
    case True
    let ?b = "blit (md_buffer ctx) l (take (64 - l) x)" and ?y = "drop (64 - l) x"
    have b: "?b = rest m @ take (64 - l) x" "length ?b = 64" using take_blit [of l "take (64 - l) x" "md_buffer ctx"] True inv by simp_all
    have "rest m @ x = ?b @ ?y" by (simp add: b(1))
    then have y: "absorb md5_block md_iv (m @ x) = absorb md5_block (md5_block (regs_of ctx) ?b) ?y" "rest (m @ x) = rest ?y"
      using absorb_append [of ?b] rest_dvd [of ?b] b(2) abs by (simp_all add: absorb_block rest_append [of m])
    have "md5_update ctx x = (let (c4, rs) = md5_loop (md5_process (ctx2\<lparr>md_buffer := ?b\<rparr>) ?b) ?y
        in if rs \<noteq> [] then c4\<lparr>md_buffer := blit (md_buffer c4) 0 rs\<rparr> else c4)"
      using ne True ctx2 regs2 by (simp add: md5_update_def left Let_def CSUM_CHUNK_def)
    also have "md5_loop (md5_process (ctx2\<lparr>md_buffer := ?b\<rparr>) ?b) ?y = (set_regs (absorb md5_block md_iv (m @ x)) (ctx2\<lparr>md_buffer := ?b\<rparr>), rest ?y)"
      using b(2) regs2 by (simp add: md5_loop_ok md5_process_block y(1)) (simp add: regs_of_def ctx2_def)
    finally show ?thesis using fin [OF refl b(2), of 0 "rest ?y"] length_rest(2) [of ?y] y(2) by (simp add: Let_def)
  next
    case False
    have "md5_update ctx x = (let (c4, rs) = md5_loop ctx2 x in if rs \<noteq> [] then c4\<lparr>md_buffer := blit (md_buffer c4) l rs\<rparr> else c4)"
      using ne False ctx2 by (auto simp: md5_update_def left Let_def CSUM_CHUNK_def)
    moreover have "md5_loop ctx2 x = (set_regs (absorb md5_block md_iv (m @ x)) (ctx2\<lparr>md_buffer := md_buffer ctx\<rparr>), rest x)"
      "l + length (rest x) < 64" "take l (md_buffer ctx) @ rest x = rest (m @ x)"
    proof -
      have c: "ctx2\<lparr>md_buffer := md_buffer ctx\<rparr> = ctx2" by (simp add: ctx2_def)
      consider "l = 0" | "length x < 64 - l" using False by linarith
      then have "absorb md5_block md_iv (m @ x) = absorb md5_block (regs_of ctx) x \<and> l + length (rest x) < 64 \<and> rest m @ rest x = rest (m @ x)"
      proof cases
        case 1
        then show ?thesis using inv(6) abs length_rest(2) [of x] rest_append [of m x] by simp
      next
        case 2
        then show ?thesis using abs inv(6) rest_append [of m x] by simp
      qed
      then show "md5_loop ctx2 x = (set_regs (absorb md5_block md_iv (m @ x)) (ctx2\<lparr>md_buffer := md_buffer ctx\<rparr>), rest x)"
        "l + length (rest x) < 64" "take l (md_buffer ctx) @ rest x = rest (m @ x)"
        by (simp_all add: md5_loop_ok c regs2 inv(3))
    qed
    ultimately show ?thesis using fin [OF refl inv(2), of l "rest x"] by (simp add: Let_def)
  qed
qed

text \<open>The padding and the length make whole chunks.\<close>

lemma SIVALu_app: "SIVALu (SIVALu (replicate 8 0) 0 a) 4 b = SIVALu (replicate 4 0) 0 a @ SIVALu (replicate 4 0) 0 b"
  by (simp add: SIVALu_def eval_nat_numeral)

lemma SIVALu_regs: "SIVALu (SIVALu (SIVALu (SIVALu (replicate 16 0) 0 a) 4 b) 8 c) 12 d = regs_bytes (a, b, c, d)"
  by (simp add: SIVALu_def regs_bytes_def eval_nat_numeral)

lemma md5_result_ok:
  assumes "md5_inv m ctx" shows "md5_result ctx = md5_digest m"
proof -
  let ?n = "length m"
  define l where "l = ?n mod 64"
  define padn where "padn = (if l < 56 then 56 - l else 120 - l)"
  define msglen where "msglen = SIVALu (replicate 4 0) 0 (word_of_nat (8 * ?n)) @ SIVALu (replicate 4 0) 0 (word_of_nat (8 * ?n div 2 ^ 32) :: uint32)"
  have t: "totalN ctx = word_of_nat ?n" "totalN2 ctx = word_of_nat (?n div 2 ^ 32)" using assms by (simp_all add: md5_inv_def)
  have l64: "l < 64" by (simp add: l_def)
  have low: "push_bit 3 (word_of_nat ?n :: uint32) = word_of_nat (8 * ?n)" by (simp add: push_bit_eq_mult)
  have pad: "take padn md5_padding = 0x80 # replicate (if l < 56 then 55 - l else 119 - l) 0"
    using l64 by (auto simp: padn_def md5_padding_def take_Cons' take_replicate min_def)
  have "md5_inv ((m @ take padn md5_padding) @ msglen) (md5_update (md5_update ctx (take padn md5_padding)) msglen)"
    by (intro md5_update_ok assms) (simp_all add: md5_padding_def msglen_def)
  then have "regs_of (md5_update (md5_update ctx (take padn md5_padding)) msglen) = absorb md5_block md_iv (md_pad True m)"
    unfolding pad by (simp add: md5_inv_def md_pad_def msglen_def l_def)
  moreover have "md5_result ctx = regs_bytes (regs_of (md5_update (md5_update ctx (take padn md5_padding)) msglen))"
    unfolding md5_result_def Let_def SIVALu_regs SIVALu_app t low_six_bits l_def [symmetric] padn_def [symmetric] high_bits low msglen_def
    by (simp add: regs_of_def)
  ultimately show ?thesis by (simp add: md5_digest_def)
qed

lemma md5_begin_ok: "length (md_buffer ctx) = 64 \<Longrightarrow> md5_inv [] (md5_begin ctx)"
  by (simp add: md5_inv_def md5_begin_def regs_of_def md_iv_def)

subsection \<open>MD4\<close>

lemma copy4_SIVALu: "copy4 x = SIVALu (replicate 4 0) 0 x"
proof -
  have "bit (0xFF :: uint32) n" if "n < 8" for n using that by (auto simp: numeral_eq_Suc less_Suc_eq)
  then have "ucast (y AND 0xFF) = (ucast y :: byte)" for y :: uint32
    by (intro bit_word_eqI) (auto simp: bit_simps)
  then show ?thesis by (simp add: copy4_def SIVALu_def eval_nat_numeral)
qed

lemma mdfour64_block: "64 \<le> length b \<Longrightarrow> mdfour64 m (copy64 b) = set_regs (md4_block (regs_of m) (take 64 b)) m"
proof -
  assume "64 \<le> length b"
  then have X: "copy64 b = copy64 (take 64 b)"
    unfolding copy64_def by (intro map_cong refl) (simp add: UVAL_def)
  show ?thesis unfolding mdfour64_def md4_block_def Let_def X by simp
qed

text \<open>The context after the whole chunks \<open>a\<close>; it counts bits.\<close>

definition md4_ctx :: "byte list \<Rightarrow> md_context \<Rightarrow> bool" where
  "md4_ctx a ctx \<longleftrightarrow> 64 dvd length a \<and> regs_of ctx = absorb md4_block md_iv a \<and> length (md_buffer ctx) = 64
     \<and> totalN ctx = word_of_nat (8 * length a) \<and> totalN2 ctx = word_of_nat (8 * length a div 2 ^ 32)"

lemma mdfour_begin_ok: "length (md_buffer ctx) = 64 \<Longrightarrow> md4_ctx [] (mdfour_begin ctx)"
  by (simp add: md4_ctx_def mdfour_begin_def regs_of_def md_iv_def)

lemma md4_ctx_buffer: "md4_ctx a ctx \<Longrightarrow> length b = 64 \<Longrightarrow> md4_ctx a (ctx\<lparr>md_buffer := b\<rparr>)"
  by (simp add: md4_ctx_def regs_of_def)

lemma mdfour_chunk:
  assumes "md4_ctx a ctx" "length b = 64"
  shows "md4_ctx (a @ b) (mdfour_update protocol ctx b)" "md_buffer (mdfour_update protocol ctx b) = md_buffer ctx"
proof -
  let ?r = "md4_block (regs_of ctx) b"
  have "b \<noteq> []" using assms(2) by auto
  moreover have "drop 64 b = []" "take 64 b = b" using assms(2) by simp_all
  ultimately have u: "mdfour_update protocol ctx b = (set_regs ?r ctx)\<lparr>totalN := totalN ctx + 512,
      totalN2 := (if totalN ctx + 512 < 512 then totalN2 ctx + 1 else totalN2 ctx)\<rparr>"
    using assms(2) unfolding mdfour_update_def
    by (subst mdfour_loop.simps) (simp add: mdfour64_block Let_def mdfour_loop.simps [of _ "[]"])
  define n where "n = 8 * length a"
  have t: "totalN ctx = word_of_nat n" "totalN2 ctx = word_of_nat (n div 2 ^ 32)" "64 dvd length a" "regs_of ctx = absorb md4_block md_iv a" "length (md_buffer ctx) = 64"
    using assms(1) unfolding md4_ctx_def n_def by blast+
  have n2: "8 * length (a @ b) = n + 512" using assms(2) by (simp add: n_def)
  have c: "(if totalN ctx + 512 < 512 then totalN2 ctx + 1 else totalN2 ctx) = word_of_nat ((n + 512) div 2 ^ 32)"
    using count_carry [of 512 n] by (simp add: t(1,2) split: if_splits)
  show "md_buffer (mdfour_update protocol ctx b) = md_buffer ctx" by (simp add: u)
  have "regs_of (mdfour_update protocol ctx b) = ?r" unfolding u by (simp add: regs_of_def set_regs_def split: prod.splits)
  moreover have "totalN (mdfour_update protocol ctx b) = word_of_nat (n + 512)" "totalN2 (mdfour_update protocol ctx b) = word_of_nat ((n + 512) div 2 ^ 32)"
    unfolding u using c t(1) by simp_all
  ultimately show "md4_ctx (a @ b) (mdfour_update protocol ctx b)"
    unfolding md4_ctx_def n2 using t(3-5) assms(2) by (simp add: absorb_append absorb_block u)
qed

lemma md4_chunks_ok:
  assumes "md4_ctx a ctx"
  shows "snd (md4_chunks protocol ctx x) = rest x \<and> md4_ctx (a @ whole x) (fst (md4_chunks protocol ctx x))
    \<and> md_buffer (fst (md4_chunks protocol ctx x)) = md_buffer ctx"
  using assms
proof (induction protocol ctx x arbitrary: a rule: md4_chunks.induct)
  case (1 protocol ctx x)
  show ?case
  proof (cases "64 \<le> length x")
    case True
    note ch = mdfour_chunk [OF 1(2), of "take 64 x" protocol]
    have "rest x = rest (drop 64 x)" using rest_dvd [of "take 64 x" "drop 64 x"] True by simp
    moreover have "whole x = take 64 x @ whole (drop 64 x)"
      using whole_rest_append(1) [of "take 64 x @ whole (drop 64 x)" "rest (drop 64 x)"] length_whole(2) [of "drop 64 x"] length_rest(2) [of "drop 64 x"] True by simp
    ultimately show ?thesis using 1(1) [unfolded CSUM_CHUNK_def, OF _ ch(1)] ch(2) True by (subst (1 2 3) md4_chunks.simps) (simp add: CSUM_CHUNK_def)
  next
    case False
    then show ?thesis using 1(2) by (subst (1 2 3) md4_chunks.simps) (simp add: CSUM_CHUNK_def whole_def)
  qed
qed

text \<open>The buffer that \<^verbatim>\<open>mdfour_tail\<close> fills.\<close>

lemma tail_buffer:
  assumes "length r \<le> k - 1" "k + 8 \<le> 128" "0 < k" "length lo = 4" "length hi = 4"
  shows "blit (blit ((blit (replicate 128 0) 0 r)[length r := 0x80]) k lo) (k + 4) hi
    = (r @ 0x80 # replicate (k - 1 - length r) 0 @ lo @ hi) @ replicate (120 - k) (0 :: byte)"
    "blit ((blit (replicate 128 0) 0 r)[length r := 0x80]) k lo
    = (r @ 0x80 # replicate (k - 1 - length r) 0 @ lo @ replicate 4 0) @ replicate (120 - k) (0 :: byte)"
proof -
  have "(blit (replicate 128 0) 0 r)[length r := 0x80] = r @ 0x80 # replicate (127 - length r) (0 :: byte)"
  proof -
    have "replicate (128 - length r) (0 :: byte) = 0 # replicate (127 - length r) 0" using assms(1,2) by (simp flip: replicate_Suc)
    then show ?thesis by (simp add: blit_def list_update_append)
  qed
  moreover have "replicate (127 - length r) (0 :: byte) = replicate (k - 1 - length r) 0 @ replicate 4 0 @ replicate 4 0 @ replicate (120 - k) 0"
    using assms(1-3) by (simp flip: replicate_add)
  ultimately have e: "(blit (replicate 128 0) 0 r)[length r := 0x80]
      = (r @ 0x80 # replicate (k - 1 - length r) 0) @ replicate 4 0 @ replicate 4 0 @ replicate (120 - k) (0 :: byte)" by simp
  have l: "length (r @ 0x80 # replicate (k - 1 - length r) (0 :: byte)) = k" using assms(1,3) by simp
  have bl: "length p = n \<Longrightarrow> length v = 4 \<Longrightarrow> blit (p @ replicate 4 0 @ q) n v = p @ v @ q" for p v q n by (simp add: blit_def)
  show "blit ((blit (replicate 128 0) 0 r)[length r := 0x80]) k lo
    = (r @ 0x80 # replicate (k - 1 - length r) 0 @ lo @ replicate 4 0) @ replicate (120 - k) (0 :: byte)"
    unfolding e using bl [OF l assms(4)] by simp
  have l2: "length ((r @ 0x80 # replicate (k - 1 - length r) (0 :: byte)) @ lo) = k + 4" using l assms(4) by simp
  show "blit (blit ((blit (replicate 128 0) 0 r)[length r := 0x80]) k lo) (k + 4) hi
    = (r @ 0x80 # replicate (k - 1 - length r) 0 @ lo @ hi) @ replicate (120 - k) (0 :: byte)"
    unfolding e bl [OF l assms(4)] using bl [OF l2 assms(5)] by simp
qed

lemma tail_count_bits:
  assumes "l < 64" "totalN ctx = word_of_nat c" "totalN2 ctx = word_of_nat (c div 2 ^ 32)"
  shows "tail_count ctx l = ctx\<lparr>totalN := word_of_nat (c + 8 * l), totalN2 := word_of_nat ((c + 8 * l) div 2 ^ 32)\<rparr>"
proof -
  define w :: uint32 where "w = word_of_nat (8 * l)"
  have bits: "push_bit 3 (word_of_nat l) = w" by (simp add: push_bit_eq_mult w_def)
  have d0: "drop_bit 29 (word_of_nat l) = (0 :: uint32)"
    unfolding word_unat_eq_iff unat_drop_bit_eq using assms(1) by (simp add: unat_of_nat drop_bit_eq_div)
  have t: "totalN ctx + w = word_of_nat (c + 8 * l)" by (simp add: assms(2) w_def)
  have "tail_count ctx l = ctx\<lparr>totalN := totalN ctx + w, totalN2 := if totalN ctx + w < w then totalN2 ctx + 1 else totalN2 ctx\<rparr>"
    unfolding tail_count_def Let_def bits d0 by simp
  also have "(if totalN ctx + w < w then totalN2 ctx + 1 else totalN2 ctx) = word_of_nat ((c + 8 * l) div 2 ^ 32)"
    unfolding t assms(3) unfolding w_def by (rule count_carry) (use assms(1) in simp)
  finally show ?thesis unfolding t .
qed

lemma mdfour_final:
  assumes "md4_ctx a ctx" "length r < 64"
  shows "regs_of (mdfour_update protocol ctx r) = absorb md4_block md_iv (md_pad (protocol \<ge> 27) (a @ r))"
proof -
  define n where "n = 8 * length (a @ r)"
  define m3 where "m3 = ctx\<lparr>totalN := word_of_nat n, totalN2 := word_of_nat (n div 2 ^ 32)\<rparr>"
  define lo where "lo = SIVALu (replicate 4 0) 0 (word_of_nat n)"
  define hi where "hi = SIVALu (replicate 4 0) 0 (if protocol \<ge> 27 then word_of_nat (n div 2 ^ 32) else 0)"
  define k where "k = (if length r \<le> 55 then 56 else 120 :: nat)"
  define P where "P = r @ 0x80 # replicate (k - 1 - length r) 0 @ lo @ hi"
  have a: "64 dvd length a" "regs_of ctx = absorb md4_block md_iv a" "totalN ctx = word_of_nat (8 * length a)" "totalN2 ctx = word_of_nat (8 * length a div 2 ^ 32)"
    using assms(1) by (simp_all add: md4_ctx_def)
  have upd: "mdfour_update protocol ctx r = mdfour_tail protocol ctx r"
    using assms(2) by (cases "r = []") (simp_all add: mdfour_update_def mdfour_loop.simps Let_def)
  have hi0: "protocol < 27 \<Longrightarrow> hi = replicate 4 0" by (simp add: hi_def SIVALu_def eval_nat_numeral)
  have kk: "length r \<le> k - 1" "k + 8 \<le> 128" "0 < k" using assms(2) by (auto simp: k_def)
  have pad: "md_pad (protocol \<ge> 27) (a @ r) = a @ P"
  proof -
    have "length (a @ r) mod 64 = length r" using a(1) assms(2) by (auto elim!: dvdE)
    then show ?thesis unfolding md_pad_def P_def lo_def hi_def n_def k_def by auto
  qed
  have PL: "length P = k + 8" using kk by (simp add: P_def lo_def hi_def)
  have m3: "tail_count ctx (length r) = m3"
    using tail_count_bits [OF assms(2) a(3,4)] by (simp add: m3_def n_def distrib_left)
  have r3: "regs_of m3 = regs_of ctx" by (simp add: m3_def regs_of_def)
  have tot: "copy4 (totalN m3) = lo" "protocol \<ge> 27 \<Longrightarrow> copy4 (totalN2 m3) = hi" by (simp_all add: copy4_SIVALu m3_def lo_def hi_def)
  define buf where "buf = (let b1 = blit ((blit (replicate 128 0) 0 r)[length r := 0x80]) k (copy4 (totalN m3))
      in if protocol \<ge> 27 then blit b1 (k + 4) (copy4 (totalN2 m3)) else b1)"
  have buf: "buf = P @ replicate (120 - k) 0"
    using tail_buffer [OF kk, of lo hi] hi0 by (cases "protocol \<ge> 27") (simp_all add: buf_def tot P_def lo_def hi_def)
  have tl: "mdfour_tail protocol ctx r = (if length r \<le> 55 then mdfour64 m3 (copy64 buf) else mdfour64 (mdfour64 m3 (copy64 buf)) (copy64 (drop 64 buf)))"
    unfolding mdfour_tail_def Let_def m3 buf_def k_def by simp
  show ?thesis
  proof (cases "length r \<le> 55")
    case True
    then have l: "length P = 64" using PL by (simp add: k_def)
    then show ?thesis using True unfolding upd tl pad buf by (simp add: mdfour64_block r3 a(2) absorb_append [OF a(1)] absorb_block)
  next
    case False
    then have l: "length P = 128" "buf = P" using PL buf by (simp_all add: k_def)
    have "absorb f q P = f (f q (take 64 P)) (drop 64 P)" for f q using l(1) by (subst absorb.simps) (simp add: absorb_block)
    then show ?thesis using False l unfolding upd tl pad by (simp add: mdfour64_block r3 a(2) absorb_append [OF a(1)])
  qed
qed

lemma mdfour_result_bytes: "mdfour_result ctx = regs_bytes (regs_of ctx)"
  by (simp add: mdfour_result_def regs_bytes_def regs_of_def copy4_SIVALu)

section \<open>The accumulator\<close>

interpretation md5: accumulator "md5_begin \<lparr>md_A = a, md_B = b, md_C = c, md_D = d, totalN = n, totalN2 = n2, md_buffer = replicate CSUM_CHUNK x\<rparr>"
    md5_update md5_result md5_inv md5_digest for a b c d n n2 x
  by unfold_locales (auto simp: CSUM_CHUNK_def intro: md5_begin_ok md5_update_ok md5_result_ok)

text \<open>What \<^verbatim>\<open>sum_update\<close> keeps for MD4: whole chunks in the context, the rest in its buffer.\<close>

definition md4_inv :: "byte list \<Rightarrow> 'x sum_state \<Rightarrow> bool" where
  "md4_inv m st \<longleftrightarrow> md4_ctx (whole m) (ctx_md st) \<and> sumresidue st = length (rest m)
     \<and> take (length (rest m)) (md_buffer (ctx_md st)) = rest m"

lemma whole_append: "whole (m @ x) = whole m @ whole (rest m @ x)"
proof -
  have "m @ x = (whole m @ whole (rest m @ x)) @ rest (rest m @ x)" by (metis append.assoc whole_rest)
  moreover have "64 dvd length (whole m @ whole (rest m @ x))" by (simp add: length_whole)
  ultimately show ?thesis using whole_rest_append(1) length_rest(2) by metis
qed

lemma md4_sum_update_ok:
  assumes "md4_inv m st"
  shows "md4_inv (m @ x) (md4_sum_update protocol st x)"
proof -
  let ?c = "ctx_md st"
  define l where "l = length (rest m)"
  have inv: "md4_ctx (whole m) ?c" "sumresidue st = l" "take l (md_buffer ?c) = rest m" "l < 64" "length (md_buffer ?c) = 64"
    using assms length_rest(2) [of m] by (auto simp: md4_inv_def l_def md4_ctx_def)
  show ?thesis
  proof (cases "length x + l < 64")
    case True
    have wx: "whole (rest m @ x) = []" "rest (rest m @ x) = rest m @ x" using True by (simp_all add: whole_def l_def rest_def)
    let ?b = "blit (md_buffer ?c) l x"
    have "take (l + length x) ?b = rest m @ x" "length ?b = 64" using take_blit [of l x "md_buffer ?c"] True inv by simp_all
    moreover have "md4_sum_update protocol st x = st\<lparr>ctx_md := ?c\<lparr>md_buffer := ?b\<rparr>, sumresidue := l + length x\<rparr>"
      using True inv(2) by (simp add: md4_sum_update_def CSUM_CHUNK_def Let_def)
    ultimately show ?thesis using md4_ctx_buffer [OF inv(1)] wx
      by (simp add: md4_inv_def whole_append [of m] rest_append [of m] l_def)
  next
    case False
    define y where "y = (if l \<noteq> 0 then drop (64 - l) x else x)"
    define h where "h = (if l \<noteq> 0 then rest m @ take (64 - l) x else [])"
    have hy: "rest m @ x = h @ y" "64 dvd length h" using False inv(4) by (auto simp: h_def y_def l_def)
    have "\<exists>c1. md4_ctx (whole m @ h) c1 \<and> md4_sum_update protocol st x = (let (c2, p2) = md4_chunks protocol c1 y
        in st\<lparr>ctx_md := (if p2 \<noteq> [] then c2\<lparr>md_buffer := blit (md_buffer c2) 0 p2\<rparr> else c2), sumresidue := length p2\<rparr>)"
    proof (cases "l = 0")
      case True
      then show ?thesis using inv False by (intro exI [of _ ?c]) (simp add: md4_sum_update_def CSUM_CHUNK_def h_def y_def Let_def)
    next
      case nz: False
      let ?b = "blit (md_buffer ?c) l (take (64 - l) x)"
      have b: "?b = h" "length h = 64"
        using take_blit [of l "take (64 - l) x" "md_buffer ?c"] nz False inv by (simp_all add: h_def l_def)
      have "md4_ctx (whole m @ h) (mdfour_update protocol (?c\<lparr>md_buffer := h\<rparr>) h)"
        using mdfour_chunk(1) [OF md4_ctx_buffer [OF inv(1) b(2)] b(2)] .
      then show ?thesis using nz False inv(2) b
        by (intro exI [of _ "mdfour_update protocol (?c\<lparr>md_buffer := h\<rparr>) h"]) (simp add: md4_sum_update_def CSUM_CHUNK_def y_def Let_def)
    qed
    then obtain c1 where c1: "md4_ctx (whole m @ h) c1" "md4_sum_update protocol st x = (let (c2, p2) = md4_chunks protocol c1 y
        in st\<lparr>ctx_md := (if p2 \<noteq> [] then c2\<lparr>md_buffer := blit (md_buffer c2) 0 p2\<rparr> else c2), sumresidue := length p2\<rparr>)" by blast
    obtain c2 where c2: "md4_chunks protocol c1 y = (c2, rest y)" "md4_ctx ((whole m @ h) @ whole y) c2"
      using md4_chunks_ok [OF c1(1), of protocol y] by (metis prod.collapse)
    have "whole (h @ y) = h @ whole y" "rest (h @ y) = rest y"
      using hy(2) rest_dvd whole_rest_append(1) [of "h @ whole y" "rest y"] length_whole(2) [of y] length_rest(2) [of y] by simp_all
    then have wr: "whole (m @ x) = (whole m @ h) @ whole y" "rest (m @ x) = rest y" by (simp_all add: whole_append [of m] rest_append [of m] hy(1))
    have "length (md_buffer c2) = 64" using c2(2) by (simp add: md4_ctx_def)
    then show ?thesis using c2 md4_ctx_buffer [OF c2(2)] length_rest(2) [of y] take_blit [of 0 "rest y" "md_buffer c2"]
      by (auto simp: c1(2) md4_inv_def wr)
  qed
qed

lemma mdfour_begin_inv: "length (md_buffer (ctx_md st)) = 64 \<Longrightarrow> md4_inv [] (st\<lparr>ctx_md := mdfour_begin (ctx_md st), sumresidue := 0\<rparr>)"
  using mdfour_begin_ok by (simp add: md4_inv_def whole_def rest_def)

lemma md4_finish:
  assumes "md4_inv m st"
  shows "mdfour_result (mdfour_update protocol (ctx_md st) (take (sumresidue st) (md_buffer (ctx_md st)))) = md4_digest protocol m"
    "mdfour_result (ctx_md st) = regs_bytes (absorb md4_block md_iv (whole m))"
  using assms mdfour_final [of "whole m" "ctx_md st" "rest m" protocol] length_rest(2) [of m]
  by (auto simp: md4_inv_def mdfour_result_bytes md4_digest_def md4_ctx_def)

text \<open>The digest that each kind of checksum stands for; the two oldest leave out the padding after whole chunks.\<close>

definition busted_digest :: "int \<Rightarrow> byte list \<Rightarrow> byte list" where
  "busted_digest protocol m = (if length m mod 64 = 0 then regs_bytes (absorb md4_block md_iv m) else md4_digest protocol m)"

definition file_digest :: "int \<Rightarrow> csum_type \<Rightarrow> uint32 \<Rightarrow> byte list \<Rightarrow> byte list" where
  "file_digest protocol t seed m = (let sm = SIVALu (replicate 4 0) 0 seed @ m in
     if t = CSUM_MD5 then md5_digest m else if t = CSUM_MD4 then md4_digest protocol m
     else if t = CSUM_MD4_OLD then md4_digest protocol sm else busted_digest protocol sm)"

definition block_digest :: "int \<Rightarrow> bool \<Rightarrow> csum_type \<Rightarrow> uint32 \<Rightarrow> byte list \<Rightarrow> byte list" where
  "block_digest protocol proper_seed_order t seed m = (let s = (if seed \<noteq> 0 then SIVALu (replicate 4 0) 0 seed else []) in
     if t = CSUM_MD5 then md5_digest (if proper_seed_order then s @ m else m @ s)
     else if t = CSUM_MD4 \<or> t = CSUM_MD4_OLD then md4_digest protocol (m @ s) else busted_digest protocol (m @ s))"

primrec sum_updates :: "int \<Rightarrow> 'x hash_lib \<Rightarrow> 'x sum_state \<Rightarrow> byte list list \<Rightarrow> 'x sum_state result" where
  "sum_updates protocol hl st [] = Inr st"
| "sum_updates protocol hl st (x # xs) = (case sum_update protocol hl st x of Inl e \<Rightarrow> Inl e | Inr st1 \<Rightarrow> sum_updates protocol hl st1 xs)"

lemma sum_updates_md5:
  assumes "cur_sum st = CSUM_MD5" "\<not> cur_sum_evp st"
  shows "sum_updates protocol hl st xs = Inr (st\<lparr>ctx_md := foldl md5_update (ctx_md st) xs\<rparr>)"
  using assms
proof (induction xs arbitrary: st)
  case (Cons x xs)
  then have "sum_update protocol hl st x = Inr (st\<lparr>ctx_md := md5_update (ctx_md st) x\<rparr>)" by (simp add: sum_update_def is_xxh_def)
  then show ?case using Cons by simp
qed simp

lemma sum_update_md4: "is_md4 (cur_sum st) \<Longrightarrow> \<not> cur_sum_evp st \<Longrightarrow> sum_update protocol hl st x = Inr (md4_sum_update protocol st x)"
  by (auto simp: sum_update_def is_md4_def is_xxh_def)

lemma md4_sum_update_same: "cur_sum (md4_sum_update protocol st x) = cur_sum st" "cur_sum_evp (md4_sum_update protocol st x) = cur_sum_evp st"
  by (simp_all add: md4_sum_update_def Let_def split: prod.splits)

lemma sum_updates_md4:
  assumes "md4_inv m st" "is_md4 (cur_sum st)" "\<not> cur_sum_evp st"
  shows "\<exists>st'. sum_updates protocol hl st xs = Inr st' \<and> md4_inv (m @ concat xs) st' \<and> cur_sum st' = cur_sum st \<and> \<not> cur_sum_evp st'"
  using assms
proof (induction xs arbitrary: m st)
  case (Cons x xs)
  let ?s = "md4_sum_update protocol st x"
  have "md4_inv (m @ x) ?s" "is_md4 (cur_sum ?s)" "\<not> cur_sum_evp ?s"
    using md4_sum_update_ok [OF Cons.prems(1)] Cons.prems(2,3) by (simp_all add: md4_sum_update_same)
  from Cons.IH [OF this] show ?case using sum_update_md4 [OF Cons.prems(2,3)] by (simp add: md4_sum_update_same)
qed simp

lemma sum_init_md4:
  assumes "is_md4 t" "\<not> evp_md hl t" "length (md_buffer (ctx_md st)) = 64"
  shows "\<exists>st'. sum_init protocol hl st t seed = Inr st' \<and> md4_inv (if t = CSUM_MD4 then [] else SIVALu (replicate 4 0) 0 seed) st' \<and> cur_sum st' = t \<and> \<not> cur_sum_evp st'"
proof -
  let ?s = "(st\<lparr>cur_sum := t, cur_sum_evp := False, cur_sum_len := 16\<rparr>)\<lparr>ctx_md := mdfour_begin (ctx_md st), sumresidue := 0\<rparr>"
  have inv: "md4_inv [] ?s" using mdfour_begin_inv [of "st\<lparr>cur_sum := t, cur_sum_evp := False, cur_sum_len := 16\<rparr>"] assms(3) by simp
  have len: "csum_len_for_type t False = Inr 16" "\<not> is_xxh t" "t \<noteq> CSUM_MD5" using assms(1) by (auto simp: is_md4_def is_xxh_def)
  show ?thesis
  proof (cases "t = CSUM_MD4")
    case True
    then show ?thesis using inv len assms(2) by (simp add: sum_init_def is_xxh_def)
  next
    case False
    then have "sum_init protocol hl st t seed = sum_update protocol hl ?s (SIVALu (replicate 4 0) 0 seed)"
      using len assms by (simp add: sum_init_def)
    then show ?thesis using False assms(1) md4_sum_update_ok [OF inv, of "SIVALu (replicate 4 0) 0 seed" protocol]
      by (simp add: sum_update_md4 md4_sum_update_same)
  qed
qed

lemma sum_end_md4:
  assumes "md4_inv m st" "is_md4 (cur_sum st)" "\<not> cur_sum_evp st"
  shows "sum_end protocol hl st = Inr (if cur_sum st = CSUM_MD4 \<or> cur_sum st = CSUM_MD4_OLD then md4_digest protocol m else busted_digest protocol m)"
proof -
  have "sumresidue st = 0 \<longleftrightarrow> length m mod 64 = 0" using assms(1) length_rest(1) [of m] by (simp add: md4_inv_def)
  then show ?thesis using assms(2,3) md4_finish(1) [OF assms(1), of protocol] md4_finish(2) [OF assms(1)]
    by (auto simp: sum_end_def Let_def is_md4_def busted_digest_def absorb_whole)
qed

section \<open>Properties of the digests\<close>

text \<open>
  C17: The whole-file digest does not depend on how the file is cut. For MD5 and every kind of MD4 computed by the program itself, \<^verbatim>\<open>sum_init\<close>,
  any sequence of \<^verbatim>\<open>sum_update\<close> calls and \<^verbatim>\<open>sum_end\<close> give the reference digest of the bytes in order, with the seed before them
  where the old checksums have it, with the 64-bit count of bits (32 bits before protocol 27), and for any earlier contents of the static context.
\<close>

theorem streaming_digest:
  assumes "t = CSUM_MD5 \<or> is_md4 t" "\<not> evp_md hl t" "length (md_buffer (ctx_md st)) = CSUM_CHUNK" "\<forall>x \<in> set xs. length x < 2 ^ 31"
  shows "\<exists>st0 st1. sum_init protocol hl st t seed = Inr st0 \<and> sum_updates protocol hl st0 xs = Inr st1
    \<and> sum_end protocol hl st1 = Inr (file_digest protocol t seed (concat xs))"
proof (cases "t = CSUM_MD5")
  case True
  let ?st = "st\<lparr>cur_sum := t, cur_sum_evp := False, cur_sum_len := 16, ctx_md := md5_begin (ctx_md st)\<rparr>"
  have "sum_init protocol hl st t seed = Inr ?st" using True assms(2) by (simp add: sum_init_def is_xxh_def)
  moreover have "sum_updates protocol hl ?st xs = Inr (?st\<lparr>ctx_md := foldl md5_update (ctx_md ?st) xs\<rparr>)"
    using True by (intro sum_updates_md5) simp_all
  moreover have "md5_inv ([] @ concat xs) (foldl md5_update (md5_begin (ctx_md st)) xs)"
    using assms(3,4) by (intro md5.feed_pieces md5_begin_ok) (simp_all add: CSUM_CHUNK_def)
  ultimately show ?thesis using True by (simp add: sum_end_def Let_def md5_result_ok file_digest_def)
next
  case False
  then have t: "is_md4 t" using assms(1) by blast
  obtain st0 where st0: "sum_init protocol hl st t seed = Inr st0" "md4_inv (if t = CSUM_MD4 then [] else SIVALu (replicate 4 0) 0 seed) st0"
    "cur_sum st0 = t" "\<not> cur_sum_evp st0" using sum_init_md4 [OF t assms(2), of st protocol seed] assms(3) by (auto simp: CSUM_CHUNK_def)
  obtain st1 where "sum_updates protocol hl st0 xs = Inr st1" "cur_sum st1 = t" "\<not> cur_sum_evp st1"
    "md4_inv ((if t = CSUM_MD4 then [] else SIVALu (replicate 4 0) 0 seed) @ concat xs) st1"
    using sum_updates_md4 [OF st0(2)] st0(3,4) t by blast
  then show ?thesis using st0(1) sum_end_md4 [of _ st1 protocol hl] t False by (auto simp: file_digest_def Let_def)
qed

definition no_lib :: "unit hash_lib" where
  "no_lib = \<lparr>evp_md = (\<lambda>_. False), lib_init = (\<lambda>_. ()), lib_update = (\<lambda>_ _. ()), evp_final = (\<lambda>_. []), XXH64_digest = (\<lambda>_. 0),
     XXH3_64bits_digest = (\<lambda>_. 0), XXH3_128bits_digest = (\<lambda>_. (0, 0)), XXH64 = (\<lambda>_ _. 0), XXH3_64bits_withSeed = (\<lambda>_ _. 0), XXH3_128bits_withSeed = (\<lambda>_ _. (0, 0))\<rparr>"

definition ex_sum :: "unit sum_state" where
  "ex_sum = \<lparr>cur_sum = CSUM_NONE, cur_sum_evp = False, cur_sum_len = 0,
     ctx_md = \<lparr>md_A = 1, md_B = 2, md_C = 3, md_D = 4, totalN = 5, totalN2 = 6, md_buffer = replicate 64 7\<rparr>, sumresidue = 9, sum_lib = ()\<rparr>"

theorem streaming_digest_witness:
  "\<exists>st0 st1. sum_init 31 no_lib ex_sum CSUM_MD4_OLD 99 = Inr st0 \<and> sum_updates 31 no_lib st0 [replicate 61 1, [], replicate 130 2] = Inr st1
    \<and> sum_end 31 no_lib st1 = Inr (file_digest 31 CSUM_MD4_OLD 99 (replicate 61 1 @ replicate 130 2))"
  using streaming_digest [of CSUM_MD4_OLD no_lib ex_sum "[replicate 61 1, [], replicate 130 2]" 31 99]
  by (simp add: is_md4_def no_lib_def ex_sum_def CSUM_CHUNK_def del: sum_updates.simps)

lemma checksum2_block:
  assumes "t = CSUM_MD5 \<or> is_md4 t" "\<not> evp_md hl t" "length buf < 2 ^ 31"
  shows "get_checksum2 protocol order hl t seed buf = Inr (block_digest protocol order t seed buf)"
proof (cases "t = CSUM_MD5")
  case True
  let ?s = "SIVALu (replicate 4 0) 0 seed"
  let ?m = "\<lparr>md_A = 0, md_B = 0, md_C = 0, md_D = 0, totalN = 0, totalN2 = 0, md_buffer = replicate CSUM_CHUNK 0\<rparr>"
  have "md5_result (foldl md5_update (md5_begin ?m) xs) = md5_digest (concat xs)" if "\<forall>x \<in> set xs. length x < 2 ^ 31" for xs
    using md5.digest_pieces [OF that] .
  from this [of "[?s, buf]"] this [of "[buf, ?s]"] this [of "[buf]"] show ?thesis
    using True assms(2,3) by (simp add: get_checksum2_def block_digest_def Let_def)
next
  case False
  then have t: "is_md4 t" "\<not> is_xxh t" using assms(1) by (auto simp: is_md4_def is_xxh_def)
  define b where "b = (if seed \<noteq> 0 then buf @ SIVALu (replicate 4 0) 0 seed else buf)"
  define m0 where "m0 = mdfour_begin \<lparr>md_A = 0, md_B = 0, md_C = 0, md_D = 0, totalN = 0, totalN2 = 0, md_buffer = replicate CSUM_CHUNK 0\<rparr>"
  have m0: "md4_ctx [] m0" unfolding m0_def by (rule mdfour_begin_ok) (simp add: CSUM_CHUNK_def)
  obtain m1 where m1: "md4_chunks protocol m0 b = (m1, rest b)" "md4_ctx (whole b) m1"
    using md4_chunks_ok [OF m0, of protocol b] by (metis prod.collapse append_Nil)
  have "get_checksum2 protocol order hl t seed buf
      = Inr (mdfour_result (if rest b \<noteq> [] \<or> t = CSUM_MD4_OLD \<or> t = CSUM_MD4 then mdfour_update protocol m1 (rest b) else m1))"
    using t False assms(2) m1(1) unfolding get_checksum2_def Let_def b_def [symmetric] m0_def [symmetric] by (simp add: is_xxh_def)
  moreover have "mdfour_result (mdfour_update protocol m1 (rest b)) = md4_digest protocol b"
    using mdfour_final [OF m1(2) length_rest(2)] by (simp add: mdfour_result_bytes md4_digest_def)
  moreover have "mdfour_result m1 = regs_bytes (absorb md4_block md_iv b)" using m1(2) by (simp add: mdfour_result_bytes md4_ctx_def absorb_whole)
  moreover have "rest b = [] \<longleftrightarrow> length b mod 64 = 0" using length_rest(1) [of b] by auto
  ultimately show ?thesis using False by (auto simp: block_digest_def busted_digest_def b_def Let_def)
qed

text \<open>
  C27: The strong sum of a block. \<^verbatim>\<open>get_checksum2\<close> with MD5 or any kind of MD4 is the reference digest of the block and the seed, the seed first
  or last as negotiated, and absent when it is zero; only the checksums of protocols below 27 leave the padding out when the bytes fill whole chunks.
\<close>

theorem get_checksum2_digest:
  assumes "t = CSUM_MD5 \<or> is_md4 t" "\<not> evp_md hl t" "length buf < 2 ^ 31"
  shows "get_checksum2 protocol order hl t seed buf = Inr (block_digest protocol order t seed buf)"
  using checksum2_block [OF assms] .

theorem get_checksum2_digest_witness:
  "get_checksum2 26 False no_lib CSUM_MD4_BUSTED 0 (replicate 64 1) = Inr (regs_bytes (absorb md4_block md_iv (replicate 64 1)))"
  using get_checksum2_digest [of CSUM_MD4_BUSTED no_lib "replicate 64 1" 26 False 0]
  by (simp add: is_md4_def no_lib_def block_digest_def busted_digest_def)

section \<open>Test vectors\<close>

lemma SIVALu4: "SIVALu (replicate 4 0) 0 v = [ucast v, ucast (drop_bit 8 v), ucast (drop_bit 16 v), ucast (drop_bit 24 v)]"
  by (simp add: SIVALu_def eval_nat_numeral)

lemma md5_block_rounds:
  assumes "map (\<lambda>i. IVALu b (4 * i)) [0..<16] = X"
    and "fold (md5_P md5_F1 X) md5_round1 r = r1" "fold (md5_P md5_F2 X) md5_round2 r1 = r2"
    and "fold (md5_P md5_F3 X) md5_round3 r2 = r3" "fold (md5_P md5_F4 X) md5_round4 r3 = r4"
  shows "md5_block r b = add_regs r r4"
  unfolding md5_block_def md5_process_def Let_def using assms by simp

lemma md4_block_rounds:
  assumes "copy64 b = X" "fold (md4_round md4_F 0 X) md4_ROUND1 r = r1"
    and "fold (md4_round md4_G 0x5A827999 X) md4_ROUND2 r1 = r2" "fold (md4_round md4_H 0x6ED9EBA1 X) md4_ROUND3 r2 = r3"
  shows "md4_block r b = add_regs r3 r"
  unfolding md4_block_def mdfour64_def Let_def using assms by simp

lemma md5_empty: "md5_digest [] = [0xd4, 0x1d, 0x8c, 0xd9, 0x8f, 0x00, 0xb2, 0x04, 0xe9, 0x80, 0x09, 0x98, 0xec, 0xf8, 0x42, 0x7e]"
proof -
  let ?p = "0x80 # replicate 55 0 @ [0, 0, 0, 0, 0, 0, 0, 0] :: byte list"
  let ?X = "[0x80, 0, 0, 0, 0, 0, 0, 0, 0, 0, 0, 0, 0, 0, 0, 0] :: uint32 list"
  have X: "map (\<lambda>i. IVALu ?p (4 * i)) [0..<16] = ?X" by code_simp
  have r1: "fold (md5_P md5_F1 ?X) md5_round1 md_iv = (0xF56C7CF1, 0xD6819C6A, 0x5AA53F75, 0x374943A7)" by code_simp
  have r2: "fold (md5_P md5_F2 ?X) md5_round2 (0xF56C7CF1, 0xD6819C6A, 0x5AA53F75, 0x374943A7) = (0x13707036, 0xA2205F1F, 0x1C31C384, 0xAE7813DB)" by code_simp
  have r3: "fold (md5_P md5_F3 ?X) md5_round3 (0x13707036, 0xA2205F1F, 0x1C31C384, 0xAE7813DB) = (0x3F55EDFD, 0xCA7D2DBD, 0x68D84EA2, 0x22A31F54)" by code_simp
  have r4: "fold (md5_P md5_F4 ?X) md5_round4 (0x3F55EDFD, 0xCA7D2DBD, 0x68D84EA2, 0x22A31F54) = (0x7246FAD3, 0x14E45506, 0xFF4EA3EB, 0x6E10A476)" by code_simp
  have b: "md5_block md_iv ?p = add_regs md_iv (0x7246FAD3, 0x14E45506, 0xFF4EA3EB, 0x6E10A476)" by (rule md5_block_rounds [OF X r1 r2 r3 r4])
  have l: "md_pad True [] = ?p" "length ?p = 64" by (simp_all add: md_pad_def SIVALu4)
  have "md5_digest [] = regs_bytes (add_regs md_iv (0x7246FAD3, 0x14E45506, 0xFF4EA3EB, 0x6E10A476))" unfolding md5_digest_def l(1) absorb_block [OF l(2)] b ..
  also have "\<dots> = [0xd4, 0x1d, 0x8c, 0xd9, 0x8f, 0x00, 0xb2, 0x04, 0xe9, 0x80, 0x09, 0x98, 0xec, 0xf8, 0x42, 0x7e]" by (simp add: regs_bytes_def add_regs_def md_iv_def SIVALu4)
  finally show ?thesis .
qed

lemma md5_abc: "md5_digest [0x61, 0x62, 0x63] = [0x90, 0x01, 0x50, 0x98, 0x3c, 0xd2, 0x4f, 0xb0, 0xd6, 0x96, 0x3f, 0x7d, 0x28, 0xe1, 0x7f, 0x72]"
proof -
  let ?p = "0x61 # 0x62 # 0x63 # 0x80 # replicate 52 0 @ [24, 0, 0, 0, 0, 0, 0, 0] :: byte list"
  let ?X = "[0x80636261, 0, 0, 0, 0, 0, 0, 0, 0, 0, 0, 0, 0, 0, 0x18, 0] :: uint32 list"
  have X: "map (\<lambda>i. IVALu ?p (4 * i)) [0..<16] = ?X" by code_simp
  have r1: "fold (md5_P md5_F1 ?X) md5_round1 md_iv = (0xDDA9B9A6, 0x72AFF2E0, 0xE396856B, 0xA1051895)" by code_simp
  have r2: "fold (md5_P md5_F2 ?X) md5_round2 (0xDDA9B9A6, 0x72AFF2E0, 0xE396856B, 0xA1051895) = (0x790A77FB, 0x726342D3, 0xA62884AA, 0x9F47E4F8)" by code_simp
  have r3: "fold (md5_P md5_F3 ?X) md5_round3 (0x790A77FB, 0x726342D3, 0xA62884AA, 0x9F47E4F8) = (0x7F2E507B, 0x7BEB9700, 0x8FAE6399, 0x99D9679D)" by code_simp
  have r4: "fold (md5_P md5_F4 ?X) md5_round4 (0x7F2E507B, 0x7BEB9700, 0x8FAE6399, 0x99D9679D) = (0x310ADE8F, 0xC08226B3, 0xE484B9D8, 0x624D8CB2)" by code_simp
  have b: "md5_block md_iv ?p = add_regs md_iv (0x310ADE8F, 0xC08226B3, 0xE484B9D8, 0x624D8CB2)" by (rule md5_block_rounds [OF X r1 r2 r3 r4])
  have l: "md_pad True [0x61, 0x62, 0x63] = ?p" "length ?p = 64" by (simp_all add: md_pad_def SIVALu4)
  have "md5_digest [0x61, 0x62, 0x63] = regs_bytes (add_regs md_iv (0x310ADE8F, 0xC08226B3, 0xE484B9D8, 0x624D8CB2))" unfolding md5_digest_def l(1) absorb_block [OF l(2)] b ..
  also have "\<dots> = [0x90, 0x01, 0x50, 0x98, 0x3c, 0xd2, 0x4f, 0xb0, 0xd6, 0x96, 0x3f, 0x7d, 0x28, 0xe1, 0x7f, 0x72]" by (simp add: regs_bytes_def add_regs_def md_iv_def SIVALu4)
  finally show ?thesis .
qed

lemma md4_abc: "md4_digest 31 [0x61, 0x62, 0x63] = [0xa4, 0x48, 0x01, 0x7a, 0xaf, 0x21, 0xd8, 0x52, 0x5f, 0xc1, 0x0a, 0xe8, 0x7a, 0xa6, 0x72, 0x9d]"
proof -
  let ?p = "0x61 # 0x62 # 0x63 # 0x80 # replicate 52 0 @ [24, 0, 0, 0, 0, 0, 0, 0] :: byte list"
  let ?X = "[0x80636261, 0, 0, 0, 0, 0, 0, 0, 0, 0, 0, 0, 0, 0, 0x18, 0] :: uint32 list"
  have X: "copy64 ?p = ?X" by code_simp
  have r1: "fold (md4_round md4_F 0 ?X) md4_ROUND1 md_iv = (0xA299A540, 0xDA717395, 0x24BAADCB, 0x4E19293)" by code_simp
  have r2: "fold (md4_round md4_G 0x5A827999 ?X) md4_ROUND2 (0xA299A540, 0xDA717395, 0x24BAADCB, 0x4E19293) = (0x7296594C, 0x8E531B8F, 0x3DD42422, 0x4E7E1748)" by code_simp
  have r3: "fold (md4_round md4_H 0x6ED9EBA1 ?X) md4_ROUND3 (0x7296594C, 0x8E531B8F, 0x3DD42422, 0x4E7E1748) = (0x12BC25A3, 0x630A7626, 0x4F4FE461, 0x8D405204)" by code_simp
  have b: "md4_block md_iv ?p = add_regs (0x12BC25A3, 0x630A7626, 0x4F4FE461, 0x8D405204) md_iv" by (rule md4_block_rounds [OF X r1 r2 r3])
  have l: "md_pad ((31 :: int) \<ge> 27) [0x61, 0x62, 0x63] = ?p" "length ?p = 64" by (simp_all add: md_pad_def SIVALu4)
  have "md4_digest 31 [0x61, 0x62, 0x63] = regs_bytes (add_regs (0x12BC25A3, 0x630A7626, 0x4F4FE461, 0x8D405204) md_iv)" unfolding md4_digest_def l(1) absorb_block [OF l(2)] b ..
  also have "\<dots> = [0xa4, 0x48, 0x01, 0x7a, 0xaf, 0x21, 0xd8, 0x52, 0x5f, 0xc1, 0x0a, 0xe8, 0x7a, 0xa6, 0x72, 0x9d]" by (simp add: regs_bytes_def add_regs_def md_iv_def SIVALu4)
  finally show ?thesis .
qed

text \<open>
  Published test vectors. The code computes the MD5 digests of the empty string and of \<^verbatim>\<open>abc\<close> that \<^verbatim>\<open>lib/md5.c\<close> lists from RFC 1321, and the
  MD4 digest of \<^verbatim>\<open>abc\<close> of RFC 1320.
\<close>

theorem digest_vectors:
  "get_checksum2 31 True no_lib CSUM_MD5 0 [] = Inr [0xd4, 0x1d, 0x8c, 0xd9, 0x8f, 0x00, 0xb2, 0x04, 0xe9, 0x80, 0x09, 0x98, 0xec, 0xf8, 0x42, 0x7e]
   \<and> get_checksum2 31 True no_lib CSUM_MD5 0 [0x61, 0x62, 0x63] = Inr [0x90, 0x01, 0x50, 0x98, 0x3c, 0xd2, 0x4f, 0xb0, 0xd6, 0x96, 0x3f, 0x7d, 0x28, 0xe1, 0x7f, 0x72]
   \<and> get_checksum2 31 True no_lib CSUM_MD4 0 [0x61, 0x62, 0x63] = Inr [0xa4, 0x48, 0x01, 0x7a, 0xaf, 0x21, 0xd8, 0x52, 0x5f, 0xc1, 0x0a, 0xe8, 0x7a, 0xa6, 0x72, 0x9d]"
proof -
  have "\<not> evp_md no_lib t" for t by (simp add: no_lib_def)
  then have md5: "length m < 2 ^ 31 \<Longrightarrow> get_checksum2 31 True no_lib CSUM_MD5 0 m = Inr (md5_digest m)"
    and md4: "length m < 2 ^ 31 \<Longrightarrow> get_checksum2 31 True no_lib CSUM_MD4 0 m = Inr (md4_digest 31 m)" for m
    using checksum2_block [of _ no_lib m 31 True 0] by (simp_all add: is_md4_def block_digest_def)
  show ?thesis using md5 [of "[]"] md5 [of "[0x61, 0x62, 0x63]"] md4 [of "[0x61, 0x62, 0x63]"] by (simp add: md5_empty md5_abc md4_abc)
qed

end
