(* ===== verification/Wildmatch.thy ===== *)
theory Wildmatch
  imports Prelude
begin

text \<open>
  The filter patterns of \<^verbatim>\<open>lib/wildmatch.c\<close>: \<^verbatim>\<open>dowild\<close> with its character classes and its two ways to give up early, and the
  functions that match against a virtually joined array of strings. Strings are lists of their bytes without the final
  zero, and a null pointer ends an array.
\<close>

section \<open>Definitions\<close>

datatype wild = W_FALSE | W_TRUE | W_ABORT_ALL | W_ABORT_TO_STARSTAR

definition C_STAR :: byte where "C_STAR = 42"
definition C_QUERY :: byte where "C_QUERY = 63"
definition C_BACKSLASH :: byte where "C_BACKSLASH = 92"
definition C_LBRACKET :: byte where "C_LBRACKET = 91"
definition C_RBRACKET :: byte where "C_RBRACKET = 93"
definition C_COLON :: byte where "C_COLON = 58"
definition C_MINUS :: byte where "C_MINUS = 45"
definition NEGATE_CLASS :: byte where "NEGATE_CLASS = 33"
definition NEGATE_CLASS2 :: byte where "NEGATE_CLASS2 = 94"

lemmas wild_chars = C_SLASH_def C_STAR_def C_QUERY_def C_BACKSLASH_def C_LBRACKET_def C_RBRACKET_def C_COLON_def C_MINUS_def
  NEGATE_CLASS_def NEGATE_CLASS2_def

lemma slash_backslash [simp]: "C_SLASH \<noteq> C_BACKSLASH" "C_BACKSLASH \<noteq> C_SLASH"
  by (simp_all add: wild_chars)

subsection \<open>Character classes\<close>

text \<open>The functions of \<^verbatim>\<open>ctype.h\<close> in the C locale, in which no byte from 128 on belongs to a class.\<close>

definition ISUPPER :: "byte \<Rightarrow> bool" where "ISUPPER c \<longleftrightarrow> 65 \<le> c \<and> c \<le> 90"
definition ISLOWER :: "byte \<Rightarrow> bool" where "ISLOWER c \<longleftrightarrow> 97 \<le> c \<and> c \<le> 122"
definition ISDIGIT :: "byte \<Rightarrow> bool" where "ISDIGIT c \<longleftrightarrow> 48 \<le> c \<and> c \<le> 57"
definition ISALPHA :: "byte \<Rightarrow> bool" where "ISALPHA c \<longleftrightarrow> ISUPPER c \<or> ISLOWER c"
definition ISALNUM :: "byte \<Rightarrow> bool" where "ISALNUM c \<longleftrightarrow> ISALPHA c \<or> ISDIGIT c"
definition ISBLANK :: "byte \<Rightarrow> bool" where "ISBLANK c \<longleftrightarrow> c = 32 \<or> c = 9"
definition ISCNTRL :: "byte \<Rightarrow> bool" where "ISCNTRL c \<longleftrightarrow> c < 32 \<or> c = 127"
definition ISPRINT :: "byte \<Rightarrow> bool" where "ISPRINT c \<longleftrightarrow> 32 \<le> c \<and> c < 127"
definition ISSPACE :: "byte \<Rightarrow> bool" where "ISSPACE c \<longleftrightarrow> c = 32 \<or> 9 \<le> c \<and> c \<le> 13"
definition ISGRAPH :: "byte \<Rightarrow> bool" where "ISGRAPH c \<longleftrightarrow> ISPRINT c \<and> \<not> ISSPACE c"
definition ISPUNCT :: "byte \<Rightarrow> bool" where "ISPUNCT c \<longleftrightarrow> ISGRAPH c \<and> \<not> ISALNUM c"
definition ISXDIGIT :: "byte \<Rightarrow> bool" where "ISXDIGIT c \<longleftrightarrow> ISDIGIT c \<or> 65 \<le> c \<and> c \<le> 70 \<or> 97 \<le> c \<and> c \<le> 102"

definition tolower :: "byte \<Rightarrow> byte" where
  "tolower c = (if ISUPPER c then c + 32 else c)"

text \<open>The chain of \<^verbatim>\<open>CC_EQ\<close> tests; a name that none of them knows is malformed.\<close>

definition char_class :: "byte list \<Rightarrow> byte \<Rightarrow> bool option" where
  "char_class s t_ch =
     (if s = bytes_of ''alnum'' then Some (ISALNUM t_ch)
      else if s = bytes_of ''alpha'' then Some (ISALPHA t_ch)
      else if s = bytes_of ''blank'' then Some (ISBLANK t_ch)
      else if s = bytes_of ''cntrl'' then Some (ISCNTRL t_ch)
      else if s = bytes_of ''digit'' then Some (ISDIGIT t_ch)
      else if s = bytes_of ''graph'' then Some (ISGRAPH t_ch)
      else if s = bytes_of ''lower'' then Some (ISLOWER t_ch)
      else if s = bytes_of ''print'' then Some (ISPRINT t_ch)
      else if s = bytes_of ''punct'' then Some (ISPUNCT t_ch)
      else if s = bytes_of ''space'' then Some (ISSPACE t_ch)
      else if s = bytes_of ''upper'' then Some (ISUPPER t_ch)
      else if s = bytes_of ''xdigit'' then Some (ISXDIGIT t_ch)
      else None)"

text \<open>
  One turn of the loop over the members of a class: \<open>p\<close> is the pattern from the current character on and \<open>prev_ch\<close> is 0 when no range can end
  here. The result says whether the member matches and has the next \<open>prev_ch\<close> and the pattern behind the member; none is \<^verbatim>\<open>ABORT_ALL\<close>.
\<close>

fun class_member :: "byte \<Rightarrow> byte \<Rightarrow> byte list \<Rightarrow> (bool \<times> byte \<times> byte list) option" where
  "class_member t_ch prev_ch [] = None"
| "class_member t_ch prev_ch (p_ch # p) =
     (if p_ch = C_BACKSLASH
      then (case p of [] \<Rightarrow> None | c # q \<Rightarrow> Some (t_ch = c, c, q))
      else if p_ch = C_MINUS \<and> prev_ch \<noteq> 0 \<and> p \<noteq> [] \<and> hd p \<noteq> C_RBRACKET
      then (case (if hd p = C_BACKSLASH then tl p else p) of [] \<Rightarrow> None
            | c # q \<Rightarrow> Some (t_ch \<le> c \<and> t_ch \<ge> prev_ch, 0, q))
      else if p_ch = C_LBRACKET \<and> p \<noteq> [] \<and> hd p = C_COLON
      then (let s = takeWhile (\<lambda>c. c \<noteq> C_RBRACKET) (tl p); q = dropWhile (\<lambda>c. c \<noteq> C_RBRACKET) (tl p)
            in if q = [] then None
               else if s = [] \<or> last s \<noteq> C_COLON then Some (t_ch = C_LBRACKET, C_LBRACKET, p)
               else (case char_class (butlast s) t_ch of None \<Rightarrow> None | Some b \<Rightarrow> Some (b, 0, tl q)))
      else Some (t_ch = p_ch, p_ch, p))"

lemma tl_dropWhile_tl: "length (dropWhile P (tl p)) - Suc 0 \<le> length p"
  using length_dropWhile_le [of P "tl p"] by simp

lemma tl_Cons_length: "tl p = x # y \<Longrightarrow> length y \<le> length p"
  by (cases p) auto

lemma class_member_shorter: "class_member t pr p = Some (h, pr', q) \<Longrightarrow> length q < length p"
  by (cases p) (auto simp: Let_def less_Suc_eq_le tl_dropWhile_tl tl_Cons_length split: if_splits list.splits option.splits)

declare class_member.simps [simp del]

text \<open>The loop ends in front of a closing bracket, which as first member stands for itself.\<close>

function class_loop :: "byte \<Rightarrow> byte \<Rightarrow> bool \<Rightarrow> byte list \<Rightarrow> (bool \<times> byte list) option" where
  "class_loop t_ch prev_ch matched p =
     (case class_member t_ch prev_ch p of
        None \<Rightarrow> None
      | Some (hit, prev_ch', q) \<Rightarrow>
          if q \<noteq> [] \<and> hd q = C_RBRACKET then Some (matched \<or> hit, q) else class_loop t_ch prev_ch' (matched \<or> hit) q)"
  by pat_completeness auto
termination
  by (relation "measure (\<lambda>(t, pr, m, p). length p)") (auto dest: class_member_shorter)

declare class_loop.simps [simp del]

lemma class_loop_shorter: "class_loop t pr m p = Some (b, q) \<Longrightarrow> length q < length p"
proof (induction t pr m p rule: class_loop.induct)
  case (1 t pr m p)
  obtain h pr' r where "class_member t pr p = Some (h, pr', r)" and
    "(if r \<noteq> [] \<and> hd r = C_RBRACKET then Some (m \<or> h, r) else class_loop t pr' (m \<or> h) r) = Some (b, q)"
    using 1(2) by (subst (asm) class_loop.simps) (auto split: option.splits)
  then show ?case using 1(1) [of _ h "(pr', r)" pr' r] class_member_shorter [of t pr p h pr' r] by (fastforce split: if_splits)
qed

text \<open>A class from behind its opening bracket: whether the character is in it, and the pattern behind the closing bracket.\<close>

definition match_class :: "byte \<Rightarrow> byte list \<Rightarrow> (bool \<times> byte list) option" where
  "match_class t_ch p =
     (let special = (p \<noteq> [] \<and> (hd p = NEGATE_CLASS \<or> hd p = NEGATE_CLASS2))
      in case class_loop t_ch 0 False (if special then tl p else p) of
           None \<Rightarrow> None
         | Some (matched, q) \<Rightarrow> Some (matched \<noteq> special, tl q))"

lemma match_class_shorter: "match_class t p = Some (b, q) \<Longrightarrow> length q \<le> length p"
  by (auto simp: match_class_def Let_def split: option.splits if_splits dest!: class_loop_shorter)

subsection \<open>Matching\<close>

text \<open>The end of a string is passed over to the next one of the array.\<close>

fun next_text :: "byte list \<Rightarrow> byte list list \<Rightarrow> byte list \<times> byte list list" where
  "next_text [] (x # a) = next_text x a"
| "next_text text a = (text, a)"

definition at_end :: "byte list \<Rightarrow> byte list list \<Rightarrow> bool" where
  "at_end text a \<longleftrightarrow> text = [] \<and> list_all (\<lambda>x. x = []) a"

definition no_slash :: "byte list \<Rightarrow> byte list list \<Rightarrow> bool" where
  "no_slash text a \<longleftrightarrow> C_SLASH \<notin> set text \<and> list_all (\<lambda>x. C_SLASH \<notin> set x) a"

text \<open>\<^verbatim>\<open>dowild\<close>, with \<^verbatim>\<open>force_lower_case\<close> first; \<open>star_loop\<close> is the loop that tries the rest of the pattern at each position.\<close>

function dowild :: "bool \<Rightarrow> byte list \<Rightarrow> byte list \<Rightarrow> byte list list \<Rightarrow> wild"
  and star_loop :: "bool \<Rightarrow> bool \<Rightarrow> byte list \<Rightarrow> byte list \<Rightarrow> byte list list \<Rightarrow> wild" where
  "dowild fl [] text a = (if at_end text a then W_TRUE else W_FALSE)"
| "dowild fl (p_ch # p) text0 a0 =
     (case next_text text0 a0 of (text, a) \<Rightarrow>
        if text = [] \<and> p_ch \<noteq> C_STAR then W_ABORT_ALL
        else (let t_ch = (if fl \<and> text \<noteq> [] \<and> ISUPPER (hd text) then tolower (hd text) else if text \<noteq> [] then hd text else 0)
              in if p_ch = C_BACKSLASH
                 then (case p of [] \<Rightarrow> W_FALSE | c # q \<Rightarrow> if t_ch \<noteq> c then W_FALSE else dowild fl q (tl text) a)
                 else if p_ch = C_QUERY then (if t_ch = C_SLASH then W_FALSE else dowild fl p (tl text) a)
                 else if p_ch = C_STAR
                 then (let special = (p \<noteq> [] \<and> hd p = C_STAR);
                           q = (if special then dropWhile (\<lambda>c. c = C_STAR) p else p)
                       in if q = [] then (if \<not> special \<and> \<not> no_slash text a then W_FALSE else W_TRUE)
                          else star_loop fl special q text a)
                 else if p_ch = C_LBRACKET
                 then (case match_class t_ch p of None \<Rightarrow> W_ABORT_ALL
                       | Some (b, q) \<Rightarrow> if \<not> b \<or> t_ch = C_SLASH then W_FALSE else dowild fl q (tl text) a)
                 else if t_ch \<noteq> p_ch then W_FALSE else dowild fl p (tl text) a))"
| "star_loop fl special p [] [] = W_ABORT_ALL"
| "star_loop fl special p [] (x # a) = star_loop fl special p x a"
| "star_loop fl special p (c # text) a =
     (let matched = dowild fl p (c # text) a
      in if matched \<noteq> W_FALSE \<and> (\<not> special \<or> matched \<noteq> W_ABORT_TO_STARSTAR) then matched
         else if matched = W_FALSE \<and> \<not> special \<and> c = C_SLASH then W_ABORT_TO_STARSTAR
         else star_loop fl special p text a)"
  by pat_completeness auto
termination
  by (relation "measures [\<lambda>x. case x of Inl (fl, p, text, a) \<Rightarrow> length p | Inr (fl, sp, p, text, a) \<Rightarrow> length p,
        \<lambda>x. case x of Inl y \<Rightarrow> 0 | Inr y \<Rightarrow> 1,
        \<lambda>x. case x of Inl y \<Rightarrow> 0 | Inr (fl, sp, p, text, a) \<Rightarrow> length text + length a + sum_list (map length a)]")
    (auto split: if_splits simp: less_Suc_eq_le length_dropWhile_le match_class_shorter)

declare dowild.simps [simp del] star_loop.simps [simp del]

fun doliteral :: "byte list \<Rightarrow> byte list \<Rightarrow> byte list list \<Rightarrow> bool" where
  "doliteral [] text a = at_end text a"
| "doliteral (c # s) text0 a0 =
     (case next_text text0 a0 of
        ([], a) \<Rightarrow> False
      | (t # text, a) \<Rightarrow> if t \<noteq> c then False else doliteral s text a)"

text \<open>
  \<^verbatim>\<open>trailing_N_elements\<close> walks back through the array: \<open>back_string\<close> through one string, with the characters already passed, and
  \<open>back_array\<close> through the strings from the last one on. The result is the string pointer and the strings behind it.
\<close>

fun back_string :: "byte list \<Rightarrow> byte list \<Rightarrow> int \<Rightarrow> byte list + int" where
  "back_string [] passed count = Inr count"
| "back_string (c # s) passed count =
     (if c = C_SLASH then (if count - 1 = 0 then Inl passed else back_string s (c # passed) (count - 1))
      else back_string s (c # passed) count)"

fun back_array :: "byte list list \<Rightarrow> byte list list \<Rightarrow> int \<Rightarrow> (byte list \<times> byte list list) option" where
  "back_array [] passed count =
     (if count = 1 then (case passed of [] \<Rightarrow> None | x # a \<Rightarrow> Some (x, a)) else None)"
| "back_array (x # a) passed count =
     (case back_string (rev x) [] count of
        Inl s \<Rightarrow> Some (s, passed)
      | Inr count' \<Rightarrow> back_array a (x # passed) count')"

definition trailing_N_elements :: "byte list list \<Rightarrow> int \<Rightarrow> (byte list \<times> byte list list) option" where
  "trailing_N_elements texts count = back_array (rev texts) [] count"

definition wildmatch :: "byte list \<Rightarrow> byte list \<Rightarrow> bool" where
  "wildmatch pattern text \<longleftrightarrow> dowild False pattern text [] = W_TRUE"

definition iwildmatch :: "byte list \<Rightarrow> byte list \<Rightarrow> bool" where
  "iwildmatch pattern text \<longleftrightarrow> dowild True pattern text [] = W_TRUE"

text \<open>The search behind each slash, when \<^verbatim>\<open>where\<close> is negative.\<close>

function slash_loop :: "byte list \<Rightarrow> byte list \<Rightarrow> byte list list \<Rightarrow> bool" where
  "slash_loop p [] [] = False"
| "slash_loop p [] (x # a) = slash_loop p x a"
| "slash_loop p (c # text) a =
     (if c = C_SLASH
      then (let matched = dowild False p text a
            in if matched \<noteq> W_FALSE \<and> matched \<noteq> W_ABORT_TO_STARSTAR then matched = W_TRUE else slash_loop p text a)
      else slash_loop p text a)"
  by pat_completeness auto
termination
  by (relation "measure (\<lambda>(p, text, a). length text + length a + sum_list (map length a))") auto

definition array_start :: "byte list list \<Rightarrow> int \<Rightarrow> (byte list \<times> byte list list) option" where
  "array_start texts where_n =
     (if where_n > 0 then trailing_N_elements texts where_n
      else (case texts of [] \<Rightarrow> None | x # a \<Rightarrow> Some (x, a)))"

definition wildmatch_array :: "byte list \<Rightarrow> byte list list \<Rightarrow> int \<Rightarrow> bool" where
  "wildmatch_array p texts where_n =
     (case array_start texts where_n of
        None \<Rightarrow> False
      | Some (text, a) \<Rightarrow>
          (let matched = dowild False p text a
           in if matched \<noteq> W_TRUE \<and> where_n < 0 \<and> matched \<noteq> W_ABORT_ALL then slash_loop p text a
              else matched = W_TRUE))"

definition litmatch_array :: "byte list \<Rightarrow> byte list list \<Rightarrow> int \<Rightarrow> bool" where
  "litmatch_array s texts where_n =
     (case array_start texts where_n of None \<Rightarrow> False | Some (text, a) \<Rightarrow> doliteral s text a)"

section \<open>What a pattern means\<close>

text \<open>
  The reference: a pattern is read once, without a text, into a list of elements, and the elements say which texts they stand for. There is no early
  end and no array here.
\<close>

datatype citem = CChar byte | CRange byte byte | CNamed "byte list"

datatype wtok = WLit byte | WAny | WStar | WStarStar | WClass bool "citem list"

fun item_has :: "citem \<Rightarrow> byte \<Rightarrow> bool" where
  "item_has (CChar c) t \<longleftrightarrow> t = c"
| "item_has (CRange lo hi) t \<longleftrightarrow> t \<le> hi \<and> t \<ge> lo"
| "item_has (CNamed s) t \<longleftrightarrow> char_class s t = Some True"

fun read_item :: "byte \<Rightarrow> byte list \<Rightarrow> (citem \<times> byte \<times> byte list) option" where
  "read_item prev [] = None"
| "read_item prev (c # p) =
     (if c = C_BACKSLASH then (case p of [] \<Rightarrow> None | d # q \<Rightarrow> Some (CChar d, d, q))
      else if c = C_MINUS \<and> prev \<noteq> 0 \<and> p \<noteq> [] \<and> hd p \<noteq> C_RBRACKET
      then (case (if hd p = C_BACKSLASH then tl p else p) of [] \<Rightarrow> None | d # q \<Rightarrow> Some (CRange prev d, 0, q))
      else if c = C_LBRACKET \<and> p \<noteq> [] \<and> hd p = C_COLON
      then (let s = takeWhile (\<lambda>c. c \<noteq> C_RBRACKET) (tl p); q = dropWhile (\<lambda>c. c \<noteq> C_RBRACKET) (tl p)
            in if q = [] then None
               else if s = [] \<or> last s \<noteq> C_COLON then Some (CChar C_LBRACKET, C_LBRACKET, p)
               else if char_class (butlast s) 0 = None then None
               else Some (CNamed (butlast s), 0, tl q))
      else Some (CChar c, c, p))"

lemma char_class_known: "char_class s t = None \<longleftrightarrow> char_class s u = None"
  by (simp add: char_class_def)

lemma class_named:
  "(case char_class s t of None \<Rightarrow> None | Some b \<Rightarrow> Some (b, 0, q)) =
   map_option (\<lambda>(it, pr', q). (item_has it t, pr', q)) (if char_class s 0 = None then None else Some (CNamed s, 0, q))"
  using char_class_known [of s t 0] by (auto split: option.split)

lemma class_member_item:
  "class_member t pr p = map_option (\<lambda>(it, pr', q). (item_has it t, pr', q)) (read_item pr p)"
proof (cases p)
  case (Cons c q)
  show ?thesis
    unfolding Cons class_member.simps read_item.simps Let_def class_named if_distrib [of "map_option _"]
    by (intro if_cong refl) (simp_all split: list.split)
qed (simp add: class_member.simps)

function read_items :: "byte \<Rightarrow> byte list \<Rightarrow> (citem list \<times> byte list) option" where
  "read_items prev p =
     (case read_item prev p of None \<Rightarrow> None
      | Some (it, prev', q) \<Rightarrow>
          if q \<noteq> [] \<and> hd q = C_RBRACKET then Some ([it], tl q)
          else (case read_items prev' q of None \<Rightarrow> None | Some (its, r) \<Rightarrow> Some (it # its, r)))"
  by pat_completeness auto
termination
  by (relation "measure (\<lambda>(pr, p). length p)") (use class_member_shorter in \<open>force simp: class_member_item\<close>)+

declare read_items.simps [simp del]

definition read_class :: "byte list \<Rightarrow> (bool \<times> citem list \<times> byte list) option" where
  "read_class p =
     (let neg = (p \<noteq> [] \<and> (hd p = NEGATE_CLASS \<or> hd p = NEGATE_CLASS2))
      in map_option (\<lambda>(its, q). (neg, its, q)) (read_items 0 (if neg then tl p else p)))"

lemma class_loop_items:
  "class_loop t pr m p = map_option (\<lambda>(its, q). (m \<or> list_ex (\<lambda>it. item_has it t) its, C_RBRACKET # q)) (read_items pr p)"
proof (induction pr p arbitrary: m rule: read_items.induct)
  case (1 pr p)
  show ?case
  proof (cases "read_item pr p")
    case None
    then show ?thesis by (simp add: class_loop.simps [of t pr m p] read_items.simps [of pr p] class_member_item)
  next
    case (Some x)
    obtain it pr' q where x: "x = (it, pr', q)" by (cases x) auto
    show ?thesis
    proof (cases "q \<noteq> [] \<and> hd q = C_RBRACKET")
      case True
      then have "C_RBRACKET # tl q = q" by (cases q) auto
      then show ?thesis
        using True by (simp add: class_loop.simps [of t pr m p] read_items.simps [of pr p] class_member_item Some x)
    next
      case False
      from 1 [OF Some x [symmetric] refl False]
      have IH: "class_loop t pr' (m \<or> item_has it t) q =
        map_option (\<lambda>(its, q). ((m \<or> item_has it t) \<or> list_ex (\<lambda>it. item_has it t) its, C_RBRACKET # q)) (read_items pr' q)"
        by simp
      show ?thesis
        unfolding class_loop.simps [of t pr m p] read_items.simps [of pr p] class_member_item Some x
        by (cases "read_items pr' q") (auto simp: IH False)
    qed
  qed
qed

lemma match_class_read:
  "match_class t p = map_option (\<lambda>(neg, its, q). (list_ex (\<lambda>it. item_has it t) its \<noteq> neg, q)) (read_class p)"
proof -
  define neg where "neg = (p \<noteq> [] \<and> (hd p = NEGATE_CLASS \<or> hd p = NEGATE_CLASS2))"
  show ?thesis
    unfolding match_class_def read_class_def Let_def neg_def [symmetric] class_loop_items
    by (cases "read_items 0 (if neg then tl p else p)") auto
qed

lemma read_class_shorter: "read_class p = Some (neg, its, q) \<Longrightarrow> length q \<le> length p"
  by (rule match_class_shorter [of 0 p "list_ex (\<lambda>it. item_has it 0) its \<noteq> neg" q]) (simp add: match_class_read)

function read_pattern :: "byte list \<Rightarrow> wtok list option" where
  "read_pattern [] = Some []"
| "read_pattern (c # p) =
     (if c = C_BACKSLASH then (case p of [] \<Rightarrow> None | d # q \<Rightarrow> map_option (Cons (WLit d)) (read_pattern q))
      else if c = C_QUERY then map_option (Cons WAny) (read_pattern p)
      else if c = C_STAR
      then (if p \<noteq> [] \<and> hd p = C_STAR
            then map_option (Cons WStarStar) (read_pattern (dropWhile (\<lambda>c. c = C_STAR) p))
            else map_option (Cons WStar) (read_pattern p))
      else if c = C_LBRACKET
      then (case read_class p of None \<Rightarrow> None
            | Some (neg, its, q) \<Rightarrow> map_option (Cons (WClass neg its)) (read_pattern q))
      else map_option (Cons (WLit c)) (read_pattern p))"
  by pat_completeness auto
termination
  by (relation "measure length") (auto simp: less_Suc_eq_le length_dropWhile_le read_class_shorter)

definition fold_case :: "bool \<Rightarrow> byte \<Rightarrow> byte" where
  "fold_case fl t = (if fl then tolower t else t)"

fun tok_has :: "bool \<Rightarrow> wtok \<Rightarrow> byte \<Rightarrow> bool" where
  "tok_has fl (WLit c) t \<longleftrightarrow> fold_case fl t = c"
| "tok_has fl WAny t \<longleftrightarrow> t \<noteq> C_SLASH"
| "tok_has fl (WClass neg its) t \<longleftrightarrow> t \<noteq> C_SLASH \<and> (list_ex (\<lambda>it. item_has it (fold_case fl t)) its \<noteq> neg)"
| "tok_has fl _ t \<longleftrightarrow> False"

text \<open>One star stands for any text without a slash, two or more for any text, and every other element for one character.\<close>

fun stands_for :: "bool \<Rightarrow> wtok list \<Rightarrow> byte list \<Rightarrow> bool" where
  "stands_for fl [] t \<longleftrightarrow> t = []"
| "stands_for fl (WStar # ts) t \<longleftrightarrow> list_ex (\<lambda>k. C_SLASH \<notin> set (take k t) \<and> stands_for fl ts (drop k t)) [0..<length t + 1]"
| "stands_for fl (WStarStar # ts) t \<longleftrightarrow> list_ex (\<lambda>k. stands_for fl ts (drop k t)) [0..<length t + 1]"
| "stands_for fl (x # ts) t \<longleftrightarrow> (case t of [] \<Rightarrow> False | c # u \<Rightarrow> tok_has fl x c \<and> stands_for fl ts u)"

definition pattern_matches :: "bool \<Rightarrow> byte list \<Rightarrow> byte list \<Rightarrow> bool" where
  "pattern_matches fl p t \<longleftrightarrow> (case read_pattern p of None \<Rightarrow> False | Some ts \<Rightarrow> stands_for fl ts t)"

section \<open>The matcher and the meaning of the pattern\<close>

lemma fold_case_slash [simp]: "fold_case fl t = C_SLASH \<longleftrightarrow> t = C_SLASH"
proof -
  have "tolower t = C_SLASH \<longleftrightarrow> t = C_SLASH" by (rule byte_enum) code_simp
  then show ?thesis by (simp add: fold_case_def)
qed

lemma fold_case_of_slash [simp]: "fold_case fl C_SLASH = C_SLASH"
  using fold_case_slash [of fl C_SLASH] by blast

lemma next_text_join: "next_text t a = (u, b) \<Longrightarrow> t @ concat a = u @ concat b \<and> (u = [] \<longrightarrow> b = [])"
  by (induction t a rule: next_text.induct) auto

lemma at_end_join: "at_end text a \<longleftrightarrow> text @ concat a = []"
  by (auto simp: at_end_def list_all_iff)

lemma no_slash_join: "no_slash text a \<longleftrightarrow> C_SLASH \<notin> set (text @ concat a)"
  by (auto simp: no_slash_def list_all_iff)

lemma fold_case_test: "(if fl \<and> ISUPPER t then tolower t else t) = fold_case fl t"
  by (simp add: fold_case_def tolower_def)

text \<open>What a text is split into by the first element of a pattern.\<close>

lemma list_ex_splits: "list_ex (\<lambda>k. P (take k t) (drop k t)) [0..<length t + 1] \<longleftrightarrow> (\<exists>u v. t = u @ v \<and> P u v)"
proof
  assume "list_ex (\<lambda>k. P (take k t) (drop k t)) [0..<length t + 1]"
  then obtain k where "P (take k t) (drop k t)" unfolding list_ex_iff by blast
  then show "\<exists>u v. t = u @ v \<and> P u v" by (metis append_take_drop_id)
next
  assume "\<exists>u v. t = u @ v \<and> P u v"
  then obtain u v where "t = u @ v" "P u v" by blast
  then have "P (take (length u) t) (drop (length u) t)" "length u \<in> set [0..<length t + 1]" by auto
  then show "list_ex (\<lambda>k. P (take k t) (drop k t)) [0..<length t + 1]" by (force simp: list_ex_iff)
qed

lemma stands_for_star: "stands_for fl (WStar # ts) t \<longleftrightarrow> (\<exists>u v. t = u @ v \<and> C_SLASH \<notin> set u \<and> stands_for fl ts v)"
  using list_ex_splits [of "\<lambda>u v. C_SLASH \<notin> set u \<and> stands_for fl ts v"] by simp

lemma stands_for_starstar: "stands_for fl (WStarStar # ts) t \<longleftrightarrow> (\<exists>u v. t = u @ v \<and> stands_for fl ts v)"
  using list_ex_splits [of "\<lambda>u v. stands_for fl ts v"] by simp

text \<open>The first element of a pattern, and the rest of it.\<close>

definition head_tok :: "byte \<Rightarrow> byte list \<Rightarrow> (wtok \<times> byte list) option" where
  "head_tok c p =
     (if c = C_BACKSLASH then (case p of [] \<Rightarrow> None | d # q \<Rightarrow> Some (WLit d, q))
      else if c = C_QUERY then Some (WAny, p)
      else if c = C_STAR
      then (if p \<noteq> [] \<and> hd p = C_STAR then Some (WStarStar, dropWhile (\<lambda>c. c = C_STAR) p) else Some (WStar, p))
      else if c = C_LBRACKET then map_option (\<lambda>(neg, its, q). (WClass neg its, q)) (read_class p)
      else Some (WLit c, p))"

lemma read_pattern_head:
  "read_pattern (c # p) = (case head_tok c p of None \<Rightarrow> None | Some (x, q) \<Rightarrow> map_option (Cons x) (read_pattern q))"
  unfolding read_pattern.simps head_tok_def
  by (cases "read_class p") (auto split: list.split)

declare read_pattern.simps(2) [simp del]

lemma pattern_none: "head_tok c p = None \<Longrightarrow> \<not> pattern_matches fl (c # p) t"
  by (simp add: pattern_matches_def read_pattern_head)

lemma pattern_single:
  assumes "head_tok c p = Some (x, q)" and "x \<noteq> WStar" and "x \<noteq> WStarStar"
  shows "pattern_matches fl (c # p) t \<longleftrightarrow> (\<exists>y u. t = y # u \<and> tok_has fl x y \<and> pattern_matches fl q u)"
  using assms
  by (cases x; cases t) (auto simp: pattern_matches_def read_pattern_head split: option.splits)

lemma pattern_star:
  assumes "head_tok c p = Some (if sp then WStarStar else WStar, q)"
  shows "pattern_matches fl (c # p) t \<longleftrightarrow> (\<exists>u v. t = u @ v \<and> (sp \<or> C_SLASH \<notin> set u) \<and> pattern_matches fl q v)"
  using assms
  by (cases sp; cases "read_pattern q")
    (simp_all add: pattern_matches_def read_pattern_head stands_for_star stands_for_starstar del: stands_for.simps)

lemma pattern_Nil: "pattern_matches fl [] t \<longleftrightarrow> t = []"
  by (simp add: pattern_matches_def)

text \<open>
  What each result of the matcher says of the joined text \<open>j\<close>, for the texts \<open>Q\<close> that the pattern stands for: \<^verbatim>\<open>ABORT_ALL\<close> says that no later
  position can match either, and \<^verbatim>\<open>ABORT_TO_STARSTAR\<close> that none can before the next slash has been passed.
\<close>

definition verdict :: "(byte list \<Rightarrow> bool) \<Rightarrow> byte list \<Rightarrow> wild \<Rightarrow> bool" where
  "verdict Q j r \<longleftrightarrow>
     (case r of
        W_TRUE \<Rightarrow> Q j
      | W_FALSE \<Rightarrow> \<not> Q j
      | W_ABORT_ALL \<Rightarrow> (\<forall>u v. j = u @ v \<longrightarrow> \<not> Q v)
      | W_ABORT_TO_STARSTAR \<Rightarrow> (\<forall>u v. j = u @ v \<longrightarrow> C_SLASH \<notin> set u \<longrightarrow> \<not> Q v))"

definition after_star :: "bool \<Rightarrow> (byte list \<Rightarrow> bool) \<Rightarrow> byte list \<Rightarrow> bool" where
  "after_star sp Q t \<longleftrightarrow> (\<exists>u v. t = u @ v \<and> (sp \<or> C_SLASH \<notin> set u) \<and> Q v)"

lemma verdict_true: "verdict Q j r \<Longrightarrow> r = W_TRUE \<longleftrightarrow> Q j"
  by (cases r) (auto simp: verdict_def)

lemma verdict_abort: "verdict Q j W_ABORT_ALL \<Longrightarrow> j = u @ v \<Longrightarrow> \<not> Q v"
  by (simp add: verdict_def)

lemma after_star_Nil [simp]: "after_star sp Q [] \<longleftrightarrow> Q []"
  by (simp add: after_star_def)

lemma after_star_Cons: "after_star sp Q (c # j) \<longleftrightarrow> Q (c # j) \<or> (sp \<or> c \<noteq> C_SLASH) \<and> after_star sp Q j"
proof
  assume "after_star sp Q (c # j)"
  then obtain u v where "c # j = u @ v" "sp \<or> C_SLASH \<notin> set u" "Q v" by (auto simp: after_star_def)
  then show "Q (c # j) \<or> (sp \<or> c \<noteq> C_SLASH) \<and> after_star sp Q j"
    by (cases u) (auto simp: after_star_def)
next
  assume *: "Q (c # j) \<or> (sp \<or> c \<noteq> C_SLASH) \<and> after_star sp Q j"
  show "after_star sp Q (c # j)"
  proof (cases "Q (c # j)")
    case True
    then have "c # j = [] @ (c # j) \<and> (sp \<or> C_SLASH \<notin> set []) \<and> Q (c # j)" by simp
    then show ?thesis unfolding after_star_def by blast
  next
    case False
    then obtain u v where "j = u @ v" "sp \<or> C_SLASH \<notin> set (c # u)" "Q v" using * by (auto simp: after_star_def)
    then have "c # j = (c # u) @ v \<and> (sp \<or> C_SLASH \<notin> set (c # u)) \<and> Q v" by simp
    then show ?thesis unfolding after_star_def by blast
  qed
qed

lemma after_star_suffix: "after_star sp Q v \<Longrightarrow> \<exists>u w. v = u @ w \<and> Q w"
  by (auto simp: after_star_def)

lemma after_star_skip: "\<not> after_star sp Q j \<Longrightarrow> j = u @ v \<Longrightarrow> sp \<or> C_SLASH \<notin> set u \<Longrightarrow> \<not> after_star sp Q v"
  by (induction u arbitrary: j) (auto simp: after_star_Cons)

text \<open>Results of the rest of the pattern passed on by a star.\<close>

lemma star_abort_all: "verdict Q j W_ABORT_ALL \<Longrightarrow> verdict (after_star sp Q) j W_ABORT_ALL"
  unfolding verdict_def by (auto dest!: after_star_suffix)

lemma star_abort_to: "verdict Q j W_ABORT_TO_STARSTAR \<Longrightarrow> verdict (after_star False Q) j W_ABORT_TO_STARSTAR"
  unfolding verdict_def after_star_def by (auto simp flip: append_assoc)

lemma star_step:
  assumes "\<not> Q (c # j)" and "sp \<or> c \<noteq> C_SLASH" and "verdict (after_star sp Q) j r"
  shows "verdict (after_star sp Q) (c # j) r"
  using assms by (cases r) (auto simp: verdict_def after_star_Cons Cons_eq_append_conv)

lemma star_slash: "\<not> Q (C_SLASH # j) \<Longrightarrow> verdict (after_star False Q) (C_SLASH # j) W_ABORT_TO_STARSTAR"
  by (auto simp: verdict_def after_star_Cons Cons_eq_append_conv)

lemma verdict_not: "verdict Q j r \<Longrightarrow> r \<noteq> W_TRUE \<Longrightarrow> \<not> Q j"
  by (simp add: verdict_true)

text \<open>An element that stands for one character, and the rest of the pattern behind it.\<close>

lemma tok_has_slash:
  "tok_has fl x y \<Longrightarrow> tok_has fl x C_SLASH \<Longrightarrow> y = C_SLASH"
  using fold_case_slash [of fl y] by (cases x) auto

lemma single_step:
  assumes "\<And>t. Q t \<longleftrightarrow> (\<exists>y u. t = y # u \<and> tok_has fl x y \<and> R u)" and "tok_has fl x y" and "verdict R j r"
  shows "verdict Q (y # j) r"
proof (cases r)
  case W_ABORT_TO_STARSTAR
  have "\<not> Q v" if "y # j = u @ v" "C_SLASH \<notin> set u" for u v
  proof
    assume "Q v"
    then obtain z w where v: "v = z # w" "tok_has fl x z" "R w" using assms(1) by blast
    have no: "\<not> R b" if "j = a @ b" "C_SLASH \<notin> set a" for a b
      using assms(3) W_ABORT_TO_STARSTAR that by (simp add: verdict_def)
    show False
    proof (cases u)
      case Nil
      then show ?thesis using no [of "[]" w] v that by simp
    next
      case (Cons d u')
      then have "y \<noteq> C_SLASH" and "j = (u' @ [z]) @ w" and "C_SLASH \<notin> set u'" using that v by auto
      moreover have "z \<noteq> C_SLASH" using tok_has_slash [OF assms(2)] v(2) \<open>y \<noteq> C_SLASH\<close> by blast
      ultimately show ?thesis using no [of "u' @ [z]" w] v(3) by simp
    qed
  qed
  then show ?thesis using W_ABORT_TO_STARSTAR by (simp add: verdict_def)
qed (use assms in \<open>auto simp: verdict_def Cons_eq_append_conv\<close>)

lemma star_loop_ok:
  assumes "\<not> Q []" and "\<And>t b. verdict Q (t @ concat b) (dowild fl q t b)"
  shows "verdict (after_star sp Q) (t @ concat a) (star_loop fl sp q t a)"
proof (induction "length t + length a + sum_list (map length a)" arbitrary: t a rule: less_induct)
  case less
  show ?case
  proof (cases t)
    case Nil
    show ?thesis
    proof (cases a)
      case Nil
      then show ?thesis using \<open>t = []\<close> assms(1) by (simp add: star_loop.simps verdict_def)
    next
      case (Cons x b)
      then show ?thesis using less [of x b] \<open>t = []\<close> by (simp add: star_loop.simps)
    qed
  next
    case (Cons c u)
    define m where "m = dowild fl q (c # u) a"
    have m: "verdict Q (c # u @ concat a) m" using assms(2) [of "c # u" a] by (simp add: m_def)
    have IH: "verdict (after_star sp Q) (u @ concat a) (star_loop fl sp q u a)" using less [of u a] Cons by simp
    have eq: "star_loop fl sp q (c # u) a =
        (if m \<noteq> W_FALSE \<and> (\<not> sp \<or> m \<noteq> W_ABORT_TO_STARSTAR) then m
         else if m = W_FALSE \<and> \<not> sp \<and> c = C_SLASH then W_ABORT_TO_STARSTAR else star_loop fl sp q u a)"
      unfolding star_loop.simps m_def Let_def by (rule refl)
    show ?thesis
    proof (cases m)
      case W_FALSE
      then have "\<not> Q (c # u @ concat a)" using m by (simp add: verdict_def)
      then show ?thesis
        using W_FALSE star_step [OF _ _ IH, of c] star_slash [of Q "u @ concat a"] unfolding Cons eq by (auto simp del: append_Cons simp: append_Cons [of c u])
    next
      case W_TRUE
      then show ?thesis using m unfolding Cons eq by (simp add: verdict_def after_star_Cons)
    next
      case W_ABORT_ALL
      then show ?thesis using m star_abort_all [of Q "c # u @ concat a" sp] unfolding Cons eq by simp
    next
      case W_ABORT_TO_STARSTAR
      then have "\<not> Q (c # u @ concat a)" using m verdict_not by blast
      then show ?thesis
        using W_ABORT_TO_STARSTAR m star_step [OF _ _ IH, of c] star_abort_to [of Q "c # u @ concat a"]
        unfolding Cons eq by (cases sp) simp_all
    qed
  qed
qed

lemma head_nonstar:
  assumes "c \<noteq> C_STAR"
  shows "\<not> pattern_matches fl (c # p) []"
proof (cases "head_tok c p")
  case None
  then show ?thesis by (rule pattern_none)
next
  case (Some y)
  obtain x q where y: "y = (x, q)" by (cases y)
  then have "x \<noteq> WStar" "x \<noteq> WStarStar"
    using Some assms by (auto simp: head_tok_def split: if_splits list.splits option.splits)
  then show ?thesis using pattern_single [of c p x q fl "[]"] Some y by simp
qed

lemma verdict_never: "(\<And>t. \<not> Q t) \<Longrightarrow> r \<noteq> W_TRUE \<Longrightarrow> verdict Q j r"
  by (cases r) (simp_all add: verdict_def)

lemma verdict_head:
  assumes "head_tok c p = Some (x, q)" and "x \<noteq> WStar" and "x \<noteq> WStarStar"
    and "tok_has fl x y \<Longrightarrow> r = r' \<and> verdict (pattern_matches fl q) j r'" and "\<not> tok_has fl x y \<Longrightarrow> r = W_FALSE"
  shows "verdict (pattern_matches fl (c # p)) (y # j) r"
proof (cases "tok_has fl x y")
  case True
  then show ?thesis using single_step [OF pattern_single [OF assms(1-3)] True, of j r'] assms(4) by simp
next
  case False
  then show ?thesis using assms(5) pattern_single [OF assms(1-3), of fl "y # j"] by (simp add: verdict_def)
qed

lemma star_rest:
  assumes "sp \<longleftrightarrow> p \<noteq> [] \<and> hd p = C_STAR" and "q = (if sp then dropWhile (\<lambda>c. c = C_STAR) p else p)"
  shows "head_tok C_STAR p = Some (if sp then WStarStar else WStar, q)" and "q \<noteq> [] \<Longrightarrow> \<not> pattern_matches fl q []"
proof -
  show "head_tok C_STAR p = Some (if sp then WStarStar else WStar, q)"
    using assms by (auto simp: head_tok_def wild_chars)
  assume "q \<noteq> []"
  then have "hd q \<noteq> C_STAR" using assms hd_dropWhile [of "\<lambda>c. c = C_STAR" p] by auto
  then show "\<not> pattern_matches fl q []" using head_nonstar [of "hd q" fl "tl q"] \<open>q \<noteq> []\<close> by simp
qed

lemma pattern_after_star:
  assumes "head_tok C_STAR p = Some (if sp then WStarStar else WStar, q)"
  shows "pattern_matches fl (C_STAR # p) = after_star sp (pattern_matches fl q)"
  unfolding after_star_def by (rule ext) (rule pattern_star [OF assms])

text \<open>Every result of the matcher says what it should.\<close>

lemma dowild_star:
  assumes "\<And>q t b. length q < length (C_STAR # p) \<Longrightarrow> verdict (pattern_matches fl q) (t @ concat b) (dowild fl q t b)"
  shows "verdict (pattern_matches fl (C_STAR # p)) (t @ concat a) (dowild fl (C_STAR # p) t a)"
proof -
  obtain u b where n: "next_text t a = (u, b)" by (cases "next_text t a")
  have j: "t @ concat a = u @ concat b" using next_text_join [OF n] by simp
  define sp where "sp = (p \<noteq> [] \<and> hd p = C_STAR)"
  define q where "q = (if sp then dropWhile (\<lambda>c. c = C_STAR) p else p)"
  note h = star_rest [OF sp_def q_def]
  have eq: "dowild fl (C_STAR # p) t a =
      (if q = [] then (if \<not> sp \<and> \<not> no_slash u b then W_FALSE else W_TRUE) else star_loop fl sp q u b)"
    unfolding dowild.simps n prod.case Let_def sp_def [symmetric] q_def [symmetric] by (simp add: wild_chars)
  show ?thesis
  proof (cases "q = []")
    case True
    have "after_star sp (pattern_matches fl []) (u @ concat b) \<longleftrightarrow> sp \<or> no_slash u b"
      by (simp add: after_star_def pattern_Nil no_slash_join)
    then show ?thesis unfolding pattern_after_star [OF h(1)] eq j
      by (cases sp) (simp_all add: True verdict_def)
  next
    case False
    have "length q < length (C_STAR # p)" by (simp add: q_def length_dropWhile_le less_Suc_eq_le)
    then show ?thesis unfolding pattern_after_star [OF h(1)] eq j
      using star_loop_ok [of "pattern_matches fl q" fl q sp u b] h(2) [OF False, of fl] assms False by simp
  qed
qed

lemma dowild_single:
  assumes "c \<noteq> C_STAR" and "\<And>q t b. length q < length (c # p) \<Longrightarrow> verdict (pattern_matches fl q) (t @ concat b) (dowild fl q t b)"
  shows "verdict (pattern_matches fl (c # p)) (t @ concat a) (dowild fl (c # p) t a)"
proof -
  obtain u b where n: "next_text t a = (u, b)" by (cases "next_text t a")
  have j: "t @ concat a = u @ concat b" using next_text_join [OF n] by simp
  show ?thesis
  proof (cases u)
    case Nil
    then have "b = []" using next_text_join [OF n] by simp
    then show ?thesis using head_nonstar [OF assms(1)] Nil assms(1) unfolding j
      by (simp add: dowild.simps n verdict_def)
  next
    case (Cons y v)
    define t_ch where "t_ch = fold_case fl y"
    have slash: "t_ch = C_SLASH \<longleftrightarrow> y = C_SLASH" by (simp add: t_ch_def)
    have eq: "dowild fl (c # p) t a =
      (if c = C_BACKSLASH then (case p of [] \<Rightarrow> W_FALSE | d # q \<Rightarrow> if t_ch \<noteq> d then W_FALSE else dowild fl q v b)
       else if c = C_QUERY then (if t_ch = C_SLASH then W_FALSE else dowild fl p v b)
       else if c = C_LBRACKET
       then (case match_class t_ch p of None \<Rightarrow> W_ABORT_ALL
             | Some (h, q) \<Rightarrow> if \<not> h \<or> t_ch = C_SLASH then W_FALSE else dowild fl q v b)
       else if t_ch \<noteq> c then W_FALSE else dowild fl p v b)"
      unfolding dowild.simps n prod.case Let_def Cons list.sel using assms(1)
      by (simp only: list.simps simp_thms if_False if_True fold_case_test t_ch_def)
    show ?thesis
    proof (cases "head_tok c p")
      case None
      moreover have "dowild fl (c # p) t a \<noteq> W_TRUE"
        using None by (auto simp: eq head_tok_def match_class_read split: if_splits list.splits)
      ultimately show ?thesis by (intro verdict_never pattern_none)
    next
      case (Some z)
      obtain x q where z: "z = (x, q)" by (cases z)
      have sgl: "x \<noteq> WStar" "x \<noteq> WStarStar" and len: "length q < length (c # p)"
        using Some assms(1) z
        by (auto simp: head_tok_def less_Suc_eq_le read_class_shorter split: if_splits list.splits option.splits)
      have "dowild fl (c # p) t a = (if tok_has fl x y then dowild fl q v b else W_FALSE)"
        using Some assms(1) z slash unfolding eq
        by (auto simp: head_tok_def match_class_read t_ch_def [symmetric] split: if_splits list.splits)
      then show ?thesis unfolding j Cons
        using verdict_head [OF Some [unfolded z] sgl, of fl y "dowild fl (c # p) t a" "dowild fl q v b" "v @ concat b"] assms(2) [OF len]
        by simp
    qed
  qed
qed

lemma dowild_ok: "verdict (pattern_matches fl p) (t @ concat a) (dowild fl p t a)"
proof (induction p arbitrary: t a rule: length_induct)
  case (1 p)
  show ?case
  proof (cases p)
    case Nil
    then show ?thesis by (simp add: dowild.simps at_end_join pattern_Nil verdict_def)
  next
    case (Cons c q)
    then show ?thesis using 1 dowild_star [of q fl t a] dowild_single [of c q fl t a] by (cases "c = C_STAR") auto
  qed
qed

section \<open>Arrays of strings\<close>

text \<open>The part of a path behind one of its slashes, or all of it; and the part that holds a given number of path elements.\<close>

definition starts_element :: "byte list \<Rightarrow> byte list \<Rightarrow> bool" where
  "starts_element j v \<longleftrightarrow> (\<exists>u. j = u @ v \<and> (u = [] \<or> last u = C_SLASH))"

definition tried :: "int \<Rightarrow> byte list \<Rightarrow> byte list \<Rightarrow> bool" where
  "tried where_n j v \<longleftrightarrow>
     (if where_n > 0 then starts_element j v \<and> int (count_list v C_SLASH) + 1 = where_n
      else if where_n < 0 then starts_element j v
      else v = j)"

lemma doliteral_join: "doliteral s t a \<longleftrightarrow> s = t @ concat a"
proof (induction s t a rule: doliteral.induct)
  case (1 t a)
  then show ?case by (auto simp: at_end_join)
next
  case (2 c s t a)
  obtain u b where n: "next_text t a = (u, b)" by (cases "next_text t a")
  have j: "t @ concat a = u @ concat b" "u = [] \<longrightarrow> b = []" using next_text_join [OF n] by auto
  then show ?case unfolding j(1) doliteral.simps n using 2 [OF n [symmetric]] by (cases u) auto
qed

lemma slash_loop_join: "slash_loop p t a \<longleftrightarrow> (\<exists>u v. t @ concat a = u @ C_SLASH # v \<and> pattern_matches False p v)"
proof (induction p t a rule: slash_loop.induct)
  case (3 p c t a)
  define m where "m = dowild False p t a"
  have m: "verdict (pattern_matches False p) (t @ concat a) m" unfolding m_def by (rule dowild_ok)
  have split: "(\<exists>u v. (c # t) @ concat a = u @ C_SLASH # v \<and> pattern_matches False p v) \<longleftrightarrow>
      c = C_SLASH \<and> pattern_matches False p (t @ concat a) \<or> (\<exists>u v. t @ concat a = u @ C_SLASH # v \<and> pattern_matches False p v)"
    by (auto simp: Cons_eq_append_conv)
  have later: "m = W_ABORT_ALL \<Longrightarrow> t @ concat a = u @ C_SLASH # v \<Longrightarrow> \<not> pattern_matches False p v" for u v
    using verdict_abort [of _ "t @ concat a" "u @ [C_SLASH]" v] m by simp
  show ?case
  proof (cases "c = C_SLASH")
    case True
    then show ?thesis unfolding split
      using 3(1) [OF True m_def] verdict_true [OF m] later by (cases m) (auto simp flip: m_def)
  next
    case False
    then show ?thesis unfolding split using 3(2) by simp
  qed
qed auto

lemma back_string_ok:
  assumes "1 \<le> count"
  shows "case back_string s passed count of
      Inl v \<Rightarrow> \<exists>u w. rev s = u @ C_SLASH # w \<and> v = w @ passed \<and> int (count_list w C_SLASH) = count - 1
    | Inr n \<Rightarrow> n = count - int (count_list s C_SLASH) \<and> 1 \<le> n"
  using assms
proof (induction s passed count rule: back_string.induct)
  case (2 c s passed count)
  show ?case
  proof (cases "c = C_SLASH \<and> count = 1")
    case False
    define n where "n = (if c = C_SLASH then count - 1 else count)"
    have "1 \<le> n" and eq: "back_string (c # s) passed count = back_string s (c # passed) n"
      using False 2(3) by (auto simp: n_def)
    then have "case back_string s (c # passed) n of
        Inl v \<Rightarrow> \<exists>u w. rev s = u @ C_SLASH # w \<and> v = w @ c # passed \<and> int (count_list w C_SLASH) = n - 1
      | Inr k \<Rightarrow> k = n - int (count_list s C_SLASH) \<and> 1 \<le> k"
      using 2(1,2) False \<open>1 \<le> n\<close> unfolding n_def by (cases "c = C_SLASH") auto
    then show ?thesis unfolding eq n_def by (force split: sum.splits)
  qed (auto intro: exI [of _ "rev s"])
qed auto

lemma back_array_ok:
  assumes "1 \<le> count"
  shows "case back_array rs passed count of
      Some (s, a) \<Rightarrow> \<exists>u w. concat (rev rs) = u @ w \<and> s @ concat a = w @ concat passed \<and>
        int (count_list w C_SLASH) = count - 1 \<and> (u = [] \<or> last u = C_SLASH)
    | None \<Rightarrow> rs @ passed = [] \<or> int (count_list (concat (rev rs)) C_SLASH) + 1 < count"
  using assms
proof (induction rs passed count rule: back_array.induct)
  case (2 x rs passed count)
  show ?case
  proof (cases "back_string (rev x) [] count")
    case (Inl v)
    then obtain u where "x = u @ C_SLASH # v" "int (count_list v C_SLASH) = count - 1"
      using back_string_ok [OF 2(2), of "rev x" "[]"] by auto
    then have "concat (rev (x # rs)) = (concat (rev rs) @ u @ [C_SLASH]) @ v \<and> v @ concat passed = v @ concat passed \<and>
        int (count_list v C_SLASH) = count - 1 \<and> last (concat (rev rs) @ u @ [C_SLASH]) = C_SLASH" by simp
    then show ?thesis unfolding back_array.simps Inl by (simp only: sum.case option.case prod.case) blast
  next
    case (Inr n)
    then have n: "n = count - int (count_list x C_SLASH)" "1 \<le> n"
      using back_string_ok [OF 2(2), of "rev x" "[]"] by auto
    show ?thesis using 2(1) [OF Inr n(2)] n by (force simp: Inr split: option.splits)
  qed
qed (auto split: list.splits)

lemma tail_not_longer:
  assumes "j = u @ v" "u = [] \<or> last u = C_SLASH" "j = u' @ w" "length w < length v"
    and "u' = [] \<or> last u' = C_SLASH"
  shows "count_list w C_SLASH < count_list v C_SLASH"
proof -
  have e: "u @ v = u' @ w" using assms by simp
  then have "length u + length v = length u' + length w" by (metis length_append)
  then have "length u < length u'" using assms(4) by simp
  with e obtain x where x: "u' = u @ x" "v = x @ w" "x \<noteq> []" by (auto simp: append_eq_append_conv2)
  then have "C_SLASH \<in> set x" using assms(5) last_in_set [of x] by auto
  then show ?thesis using x by (simp add: count_list_0_iff neq0_conv [symmetric])
qed

lemma tail_unique:
  assumes "starts_element j v" "starts_element j w" "count_list v C_SLASH = count_list w C_SLASH"
  shows "v = w"
proof -
  obtain u u' where u: "j = u @ v" "u = [] \<or> last u = C_SLASH" and u': "j = u' @ w" "u' = [] \<or> last u' = C_SLASH"
    using assms(1,2) unfolding starts_element_def by blast
  have "length v = length w"
    using tail_not_longer [OF u u'(1) _ u'(2)] tail_not_longer [OF u' u(1) _ u(2)] assms(3) by (metis less_irrefl linorder_neqE_nat)
  then show ?thesis using u(1) u'(1) by simp
qed

lemma array_start_ok:
  assumes "texts \<noteq> []"
  shows "case array_start texts where_n of
      Some (s, a) \<Rightarrow> (\<forall>v. tried (if where_n < 0 then 0 else where_n) (concat texts) v \<longleftrightarrow> v = s @ concat a)
    | None \<Rightarrow> (\<forall>v. \<not> tried where_n (concat texts) v)"
proof (cases "where_n > 0")
  case False
  then show ?thesis using assms by (cases texts) (auto simp: array_start_def tried_def)
next
  case True
  note b = back_array_ok [of where_n "rev texts" "[]"]
  show ?thesis
  proof (cases "trailing_N_elements texts where_n")
    case None
    then have "int (count_list (concat texts) C_SLASH) + 1 < where_n"
      using b True assms by (simp add: trailing_N_elements_def)
    then have "\<not> tried where_n (concat texts) v" for v
      using True by (auto simp: tried_def starts_element_def simp del: concat_eq_append_conv)
    then show ?thesis using None True by (simp add: array_start_def)
  next
    case (Some r)
    obtain s a where r: "r = (s, a)" by (cases r)
    then obtain u where "concat texts = u @ s @ concat a" "int (count_list (s @ concat a) C_SLASH) = where_n - 1"
      "u = [] \<or> last u = C_SLASH"
      using b True Some by (fastforce simp: trailing_N_elements_def)
    then have t: "tried where_n (concat texts) (s @ concat a)"
      using True unfolding tried_def starts_element_def by simp
    moreover have "v = s @ concat a" if "tried where_n (concat texts) v" for v
      using tail_unique [of "concat texts" v "s @ concat a"] t that True by (simp add: tried_def)
    ultimately have "tried where_n (concat texts) v \<longleftrightarrow> v = s @ concat a" for v by blast
    then show ?thesis using Some r True by (simp add: array_start_def)
  qed
qed

lemma starts_element_iff: "starts_element j v \<longleftrightarrow> v = j \<or> (\<exists>u. j = u @ C_SLASH # v)"
proof
  assume "starts_element j v"
  then obtain u where u: "j = u @ v" "u = [] \<or> last u = C_SLASH" by (auto simp: starts_element_def)
  then show "v = j \<or> (\<exists>u. j = u @ C_SLASH # v)" by (cases u rule: rev_cases) auto
next
  assume "v = j \<or> (\<exists>u. j = u @ C_SLASH # v)"
  then show "starts_element j v"
  proof
    assume "\<exists>u. j = u @ C_SLASH # v"
    then obtain u where "j = (u @ [C_SLASH]) @ v" by auto
    then show ?thesis unfolding starts_element_def by (metis last_snoc)
  qed (simp add: starts_element_def)
qed

section \<open>Properties\<close>

text \<open>C6: The matcher with its early ends accepts exactly the texts that the pattern stands for, the strings of the array being read as one text.\<close>

theorem dowild_exact: "dowild force_lower_case p txt a = W_TRUE \<longleftrightarrow> pattern_matches force_lower_case p (txt @ concat a)"
  by (rule verdict_true) (rule dowild_ok)

text \<open>
  C18: Matching an array, for every sign of the position argument: the whole path for 0, its last elements for a positive number, and the path from its
  start or from behind any slash for a negative one.
\<close>

theorem wildmatch_array_exact:
  assumes "texts \<noteq> []"
  shows "wildmatch_array p texts where_n \<longleftrightarrow> (\<exists>v. tried where_n (concat texts) v \<and> pattern_matches False p v)"
proof (cases "array_start texts where_n")
  case None
  then show ?thesis using array_start_ok [OF assms, of where_n] by (simp add: wildmatch_array_def)
next
  case (Some r)
  obtain s a where r: "r = (s, a)" by (cases r)
  define m where "m = dowild False p s a"
  have m: "verdict (pattern_matches False p) (s @ concat a) m" unfolding m_def by (rule dowild_ok)
  have eq: "wildmatch_array p texts where_n =
      (if m \<noteq> W_TRUE \<and> where_n < 0 \<and> m \<noteq> W_ABORT_ALL then slash_loop p s a else m = W_TRUE)"
    by (simp add: wildmatch_array_def Some r m_def Let_def)
  have t: "tried (if where_n < 0 then 0 else where_n) (concat texts) v \<longleftrightarrow> v = s @ concat a" for v
    using array_start_ok [OF assms, of where_n] Some r by simp
  show ?thesis
  proof (cases "where_n < 0")
    case False
    then have "tried where_n (concat texts) v \<longleftrightarrow> v = s @ concat a" for v using t by simp
    moreover have "wildmatch_array p texts where_n \<longleftrightarrow> m = W_TRUE" unfolding eq using False by simp
    ultimately show ?thesis using verdict_true [OF m] by simp
  next
    case True
    then have j: "concat texts = s @ concat a" using t [of "concat texts"] unfolding tried_def by simp
    have tr: "tried where_n (concat texts) v \<longleftrightarrow> v = s @ concat a \<or> (\<exists>u. s @ concat a = u @ C_SLASH # v)" for v
      using True unfolding tried_def starts_element_iff j by simp
    have "(\<exists>v. tried where_n (concat texts) v \<and> pattern_matches False p v) \<longleftrightarrow> m = W_TRUE \<or> slash_loop p s a"
      unfolding tr slash_loop_join verdict_true [OF m] by blast
    moreover have "\<not> slash_loop p s a" if "m = W_ABORT_ALL"
    proof
      assume "slash_loop p s a"
      then obtain u v where "s @ concat a = (u @ [C_SLASH]) @ v" "pattern_matches False p v" unfolding slash_loop_join by auto
      then show False using verdict_abort [OF m [unfolded that]] by blast
    qed
    ultimately show ?thesis using True unfolding eq by (cases m) simp_all
  qed
qed

lemma ex_wildmatch: "wildmatch_array (bytes_of ''b*[!x-z]'') [bytes_of ''a/'', bytes_of ''b.c''] (- 1)"
  by code_simp

theorem wildmatch_array_exact_witness:
  "\<exists>v. tried (- 1) (concat [bytes_of ''a/'', bytes_of ''b.c'']) v \<and> pattern_matches False (bytes_of ''b*[!x-z]'') v"
  using wildmatch_array_exact [of "[bytes_of ''a/'', bytes_of ''b.c'']" "bytes_of ''b*[!x-z]''" "- 1"] ex_wildmatch by simp

text \<open>Literal rules compare with the same parts of the path, but from its start only.\<close>

lemma litmatch_array_exact:
  assumes "texts \<noteq> []" and "0 \<le> where_n"
  shows "litmatch_array s texts where_n \<longleftrightarrow> tried where_n (concat texts) s"
  using array_start_ok [OF assms(1), of where_n] assms(2)
  by (auto simp: litmatch_array_def doliteral_join split: option.splits)

end
