(* ===== verification/Paths.thy ===== *)
theory Paths
  imports Prelude
begin

text \<open>
  The handling of path names in \<^verbatim>\<open>util1.c\<close>: \<^verbatim>\<open>clean_fname\<close>, \<^verbatim>\<open>sanitize_path\<close>, \<^verbatim>\<open>unsafe_symlink\<close>, \<^verbatim>\<open>count_dir_elements\<close> and \<^verbatim>\<open>pathjoin\<close>.
  A pointer into a buffer that is being filled is the list of the bytes before it.
\<close>

section \<open>Definitions\<close>

definition MAXPATHLEN :: int where "MAXPATHLEN = 4096"

text \<open>The loop that copies one component, up to and with the next slash.\<close>

fun copy_component :: "byte list \<Rightarrow> byte list \<Rightarrow> byte list \<times> byte list" where
  "copy_component t [] = (t, [])"
| "copy_component t (c # f) = (if c = C_SLASH then (t @ [c], f) else copy_component (t @ [c]) f)"

lemma copy_component_shorter: "f \<noteq> [] \<Longrightarrow> length (snd (copy_component t f)) < length f"
proof (induction t f rule: copy_component.induct)
  case (2 t c f)
  then show ?case by (cases f) (auto simp: less_Suc_eq)
qed simp

lemma copy_shorter: "(case copy_component t (c # f) of (t', f') \<Rightarrow> length f') < Suc (length f)"
  using copy_component_shorter [of "c # f" t] by (simp add: case_prod_beta)

declare copy_component.simps [simp del]

definition DOT_IS_DOT_DOT_DIR :: "byte list \<Rightarrow> bool" where
  "DOT_IS_DOT_DOT_DIR bp \<longleftrightarrow> str_at bp 1 = C_DOT \<and> (str_at bp 2 = C_SLASH \<or> str_at bp 2 = 0)"

subsection \<open>Cleaning a name\<close>

record cfn_flags =
  CFN_KEEP_DOT_DIRS :: bool
  CFN_KEEP_TRAILING_SLASH :: bool
  CFN_DROP_TRAILING_DOT_DIR :: bool
  CFN_COLLAPSE_DOT_DOT_DIRS :: bool
  CFN_REFUSE_DOT_DOT_DIRS :: bool

text \<open>The scan back for the component in front of a \<^verbatim>\<open>..\<close>.\<close>

function back_comp :: "nat \<Rightarrow> byte list \<Rightarrow> int \<Rightarrow> int" where
  "back_comp limit t s = (if s > int limit \<and> t ! nat (s - 1) \<noteq> C_SLASH then back_comp limit t (s - 1) else s)"
  by pat_completeness auto
termination
  by (relation "measure (\<lambda>(limit, t, s). nat (s - int limit))") auto

declare back_comp.simps [simp del]

text \<open>The loop of \<^verbatim>\<open>clean_fname\<close>: \<open>t\<close> is what has been written, \<open>f\<close> what is left to read; none is the result -1.\<close>

function (sequential) clean_loop :: "cfn_flags \<Rightarrow> bool \<Rightarrow> nat \<Rightarrow> byte list \<Rightarrow> byte list \<Rightarrow> byte list option" where
  "clean_loop flags anchored limit t [] = Some t"
| "clean_loop flags anchored limit t (c # f) =
     (if c = C_SLASH then clean_loop flags anchored limit t f
      else if c = C_DOT \<and> str_at (c # f) 1 = C_SLASH \<and> \<not> CFN_KEEP_DOT_DIRS flags
      then clean_loop flags anchored limit t (drop 2 (c # f))
      else if c = C_DOT \<and> str_at (c # f) 1 = 0 \<and> CFN_DROP_TRAILING_DOT_DIR flags
      then Some t
      else if c = C_DOT \<and> (CFN_COLLAPSE_DOT_DOT_DIRS flags \<or> CFN_REFUSE_DOT_DOT_DIRS flags) \<and> DOT_IS_DOT_DOT_DIR (c # f)
      then (if CFN_REFUSE_DOT_DOT_DIRS flags then None
            else if int (length t) - 1 = 0 \<and> anchored then clean_loop flags anchored limit t (drop 2 (c # f))
            else (let s = back_comp limit t (int (length t) - 1)
                  in if s \<noteq> int (length t) - 1 \<and> (s \<le> 0 \<or> t ! nat s = C_SLASH)
                     then clean_loop flags anchored limit (take (if s = 0 then 0 else nat s + 1) t) (drop 2 (c # f))
                     else (case copy_component t (c # f) of (t', f') \<Rightarrow> clean_loop flags anchored (length t + 2) t' f')))
      else (case copy_component t (c # f) of (t', f') \<Rightarrow> clean_loop flags anchored limit t' f'))"
  by pat_completeness auto
termination
  by (relation "measure (\<lambda>(flags, anchored, limit, t, f). length f)") (auto simp: copy_shorter)

declare clean_loop.simps [simp del]

definition clean_end :: "cfn_flags \<Rightarrow> bool \<Rightarrow> byte list \<Rightarrow> byte list" where
  "clean_end flags anchored t =
     (let t' = (if length t > (if anchored then 1 else 0) \<and> last t = C_SLASH \<and> \<not> CFN_KEEP_TRAILING_SLASH flags
                then butlast t else t)
      in if t' = [] then [C_DOT] else t')"

definition clean_fname :: "cfn_flags \<Rightarrow> byte list \<Rightarrow> byte list option" where
  "clean_fname flags name =
     (let anchored = (str_at name 0 = C_SLASH);
          start = (if anchored then Some (take 1 name, drop 1 name)
                   else if CFN_KEEP_DOT_DIRS flags \<and> str_at name 0 = C_DOT \<and> str_at name 1 = C_SLASH then Some (take 2 name, drop 2 name)
                   else if CFN_REFUSE_DOT_DOT_DIRS flags \<and> str_at name 0 = C_DOT \<and> DOT_IS_DOT_DOT_DIR name then None
                   else Some ([], name))
      in case start of
           None \<Rightarrow> None
         | Some (t, f) \<Rightarrow> map_option (clean_end flags anchored) (clean_loop flags anchored 0 t f))"

subsection \<open>Confining a path\<close>

datatype san_dest = San_alloc | San_buffer | San_in_place

text \<open>\<open>back_up\<close> steps back over one component of what has been written, never in front of \<open>start\<close>.\<close>

function back_up :: "nat \<Rightarrow> byte list \<Rightarrow> byte list" where
  "back_up start sanp = (if length sanp > start \<and> last sanp \<noteq> C_SLASH then back_up start (butlast sanp) else sanp)"
  by pat_completeness auto
termination
  by (relation "measure (\<lambda>(start, sanp). length sanp)") auto

declare back_up.simps [simp del]

function (sequential) sanitize_loop :: "bool \<Rightarrow> int \<Rightarrow> nat \<Rightarrow> byte list \<Rightarrow> byte list \<Rightarrow> byte list" where
  "sanitize_loop drop_dot_dirs depth start sanp [] = sanp"
| "sanitize_loop drop_dot_dirs depth start sanp (c # p) =
     (if c = C_SLASH then sanitize_loop drop_dot_dirs depth start sanp p
      else if drop_dot_dirs \<and> c = C_DOT \<and> (str_at (c # p) 1 = C_SLASH \<or> str_at (c # p) 1 = 0)
      then sanitize_loop drop_dot_dirs depth start sanp p
      else if c = C_DOT \<and> DOT_IS_DOT_DOT_DIR (c # p)
      then (if depth \<le> 0 \<or> length sanp \<noteq> start
            then sanitize_loop drop_dot_dirs depth start
                   (if length sanp \<noteq> start then back_up start (butlast sanp) else sanp) (drop 2 (c # p))
            else (case copy_component sanp (c # p) of (sanp', p') \<Rightarrow> sanitize_loop drop_dot_dirs (depth - 1) (length sanp + 3) sanp' p'))
      else (case copy_component sanp (c # p) of (sanp', p') \<Rightarrow> sanitize_loop drop_dot_dirs depth start sanp' p'))"
  by pat_completeness auto
termination
  by (relation "measure (\<lambda>(drop_dot_dirs, depth, start, sanp, p). length p)") (auto simp: copy_shorter)

declare sanitize_loop.simps [simp del]

fun skip_dot_dirs :: "byte list \<Rightarrow> byte list" where
  "skip_dot_dirs (c # d # p) = (if c = C_DOT \<and> d = C_SLASH then skip_dot_dirs p else c # d # p)"
| "skip_dot_dirs p = p"

text \<open>
  \<^verbatim>\<open>sanitize_path\<close>: \<open>relative_paths\<close> and \<open>module_dir\<close> are the globals, \<open>rootdir\<close> is none for a null pointer, \<open>keep\<close> is the flag
  \<^verbatim>\<open>SP_KEEP_DOT_DIRS\<close>, and none is a null result. \<open>sanitize_root\<close> is what a leading slash is replaced with.
\<close>

definition sanitize_root :: "byte list \<Rightarrow> byte list option \<Rightarrow> byte list" where
  "sanitize_root module_dir rootdir =
     (let r = (case rootdir of None \<Rightarrow> module_dir | Some r \<Rightarrow> r) in if length r > 1 then r @ [C_SLASH] else r)"

definition sanitize_path :: "bool \<Rightarrow> byte list \<Rightarrow> san_dest \<Rightarrow> byte list \<Rightarrow> byte list option \<Rightarrow> int \<Rightarrow> bool \<Rightarrow> byte list option" where
  "sanitize_path relative_paths module_dir dest p0 rootdir depth0 keep =
     (let drop_dot_dirs = (\<not> relative_paths \<or> \<not> keep);
          plen = length p0;
          rooted = (dest \<noteq> San_in_place \<and> str_at p0 0 = C_SLASH);
          rlen = (if rooted then length (case rootdir of None \<Rightarrow> module_dir | Some r \<Rightarrow> r) else 0);
          depth = (if rooted then 0 else depth0);
          p1 = (if rooted then tl p0 else p0)
      in if dest = San_buffer \<and> int rlen + int plen + 1 \<ge> MAXPATHLEN then None
         else (let sanp = (if rooted then sanitize_root module_dir rootdir else []);
                   p2 = (if drop_dot_dirs then skip_dot_dirs p1 else p1);
                   r = sanitize_loop drop_dot_dirs depth (length sanp) sanp p2
               in Some (if r = [] then [C_DOT] else r)))"

text \<open>\<^verbatim>\<open>pathjoin\<close> gives the string in the buffer and the length that the whole path has; the buffer has room for at least one byte.\<close>

definition pathjoin :: "nat \<Rightarrow> byte list \<Rightarrow> byte list \<Rightarrow> byte list \<times> nat" where
  "pathjoin destsize p1 p2 =
     (if length p1 < destsize - 1
      then (let dest = (if p1 = [] \<or> last p1 \<noteq> C_SLASH then p1 @ [C_SLASH] else p1);
                len = length dest
            in if len < destsize - 1 then (dest @ take (destsize - len - 1) p2, len + length p2)
               else (dest, len + length p2))
      else (take (destsize - 1) p1, length p1 + length p2 + 1))"

fun count_elements :: "byte list \<Rightarrow> bool \<Rightarrow> nat" where
  "count_elements [] new_component = 0"
| "count_elements (c # p) new_component =
     (if c = C_SLASH then count_elements p (str_at p 0 \<noteq> C_DOT \<or> str_at p 1 \<noteq> C_SLASH \<and> str_at p 1 \<noteq> 0)
      else if new_component then 1 + count_elements p False
      else count_elements p False)"

definition count_dir_elements :: "byte list \<Rightarrow> nat" where
  "count_dir_elements p = count_elements p True"

subsection \<open>Symbolic links\<close>

text \<open>\<open>skip_ups\<close> is the loop over the leading \<^verbatim>\<open>../\<close> elements, \<open>contains\<close> is \<^verbatim>\<open>strstr\<close>.\<close>

function skip_ups :: "byte list \<Rightarrow> byte list" where
  "skip_ups d = (if take 3 d = [C_DOT, C_DOT, C_SLASH] then skip_ups (dropWhile (\<lambda>c. c = C_SLASH) (drop 3 d)) else d)"
  by pat_completeness auto
termination
proof (relation "measure length", goal_cases)
  case (2 d)
  have "length (dropWhile (\<lambda>c. c = C_SLASH) (drop 3 d)) \<le> length (drop 3 d)" by (rule length_dropWhile_le)
  moreover have "3 \<le> length d" using arg_cong [OF 2, of length] by simp
  ultimately show ?case by simp
qed simp

declare skip_ups.simps [simp del]

fun contains :: "byte list \<Rightarrow> byte list \<Rightarrow> bool" where
  "contains needle [] \<longleftrightarrow> needle = []"
| "contains needle (c # s) \<longleftrightarrow> take (length needle) (c # s) = needle \<or> contains needle s"

text \<open>The elements of a path that a slash follows, as both depth loops walk them: the element, and the rest behind its slashes.\<close>

definition next_name :: "byte list \<Rightarrow> byte list" where
  "next_name name = dropWhile (\<lambda>c. c = C_SLASH) (dropWhile (\<lambda>c. c \<noteq> C_SLASH) name)"

lemma next_name_shorter: "C_SLASH \<in> set name \<Longrightarrow> length (next_name name) < length name"
proof -
  assume "C_SLASH \<in> set name"
  then obtain a b where "name = a @ C_SLASH # b" "C_SLASH \<notin> set a" by (meson split_list_first)
  then have "dropWhile (\<lambda>c. c \<noteq> C_SLASH) name = C_SLASH # b" by (simp add: dropWhile_append3 dropWhile_append)
  then show ?thesis using \<open>name = a @ C_SLASH # b\<close> length_dropWhile_le [of "\<lambda>c. c = C_SLASH" b] by (simp add: next_name_def)
qed

definition is_dots :: "byte list \<Rightarrow> bool" where
  "is_dots name \<longleftrightarrow> str_at name 0 = C_DOT \<and> (str_at name 1 = C_SLASH \<or> str_at name 1 = C_DOT \<and> str_at name 2 = C_SLASH)"

definition ends_up :: "byte list \<Rightarrow> bool" where
  "ends_up name \<longleftrightarrow> str_at name 0 = C_DOT \<and> str_at name 1 = C_DOT \<and> str_at name 2 = 0"

function margin_loop :: "byte list \<Rightarrow> int \<Rightarrow> int" where
  "margin_loop name depth =
     (if C_SLASH \<notin> set name then (if ends_up name then 0 else depth)
      else margin_loop (next_name name)
             (if is_dots name then (if str_at name 1 = C_DOT then 0 else depth) else depth + 1))"
  by pat_completeness auto
termination
  by (relation "measure (\<lambda>(name, depth). length name)") (auto simp: next_name_shorter)

function climb_loop :: "byte list \<Rightarrow> int \<Rightarrow> bool" where
  "climb_loop name depth =
     (if C_SLASH \<notin> set name then (if ends_up name then depth - 1 < 0 else depth < 0)
      else if is_dots name \<and> str_at name 1 = C_DOT
      then (if depth - 1 < 0 then True else climb_loop (next_name name) (depth - 1))
      else climb_loop (next_name name) (if is_dots name then depth else depth + 1))"
  by pat_completeness auto
termination
  by (relation "measure (\<lambda>(name, depth). length name)") (auto simp: next_name_shorter)

declare margin_loop.simps [simp del] climb_loop.simps [simp del]

definition unsafe_symlink :: "byte list option \<Rightarrow> byte list \<Rightarrow> bool" where
  "unsafe_symlink dest src =
     (case dest of
        None \<Rightarrow> True
      | Some d \<Rightarrow>
          if d = [] \<or> str_at d 0 = C_SLASH then True
          else if contains [C_SLASH, C_DOT, C_DOT, C_SLASH] (skip_ups d) then True
          else if length d > 3 \<and> drop (length d - 3) d = [C_SLASH, C_DOT, C_DOT] then True
          else climb_loop d (margin_loop src 0))"

section \<open>What a path means\<close>

abbreviation dot :: "byte list" where "dot \<equiv> [C_DOT]"
abbreviation dotdot :: "byte list" where "dotdot \<equiv> [C_DOT, C_DOT]"

text \<open>The elements between the slashes, empty ones left out.\<close>

fun splits :: "byte list \<Rightarrow> byte list list" where
  "splits [] = [[]]"
| "splits (c # p) = (if c = C_SLASH then [] # splits p else (c # hd (splits p)) # tl (splits p))"

definition comps :: "byte list \<Rightarrow> byte list list" where
  "comps p = filter (\<lambda>c. c \<noteq> []) (splits p)"

abbreviation nodots :: "byte list list \<Rightarrow> byte list list" where
  "nodots cs \<equiv> filter (\<lambda>c. c \<noteq> dot) cs"

text \<open>A name is a proper element when a path can be made of it and slashes.\<close>

definition elem :: "byte list \<Rightarrow> bool" where
  "elem c \<longleftrightarrow> c \<noteq> [] \<and> C_SLASH \<notin> set c"

definition flat :: "byte list list \<Rightarrow> byte list" where
  "flat cs = concat (map (\<lambda>c. c @ [C_SLASH]) cs)"

lemma splits_nonempty [simp]: "splits p \<noteq> []"
  by (induction p) auto

lemma splits_slash: "splits (x @ C_SLASH # y) = splits x @ splits y"
  by (induction x) auto

lemma splits_single: "C_SLASH \<notin> set c \<Longrightarrow> splits c = [c]"
  by (induction c) auto

lemma comps_Nil [simp]: "comps [] = []"
  by (simp add: comps_def)

lemma comps_slash: "comps (x @ C_SLASH # y) = comps x @ comps y"
  by (simp add: comps_def splits_slash)

lemma comps_lead [simp]: "comps (C_SLASH # y) = comps y"
  using comps_slash [of "[]" y] by simp

lemma comps_trail [simp]: "comps (x @ [C_SLASH]) = comps x"
  using comps_slash [of x "[]"] by simp

lemma comps_elem: "elem c \<Longrightarrow> comps c = [c]"
  by (simp add: elem_def comps_def splits_single)

lemma elem_dots [simp]: "elem dot" "elem dotdot"
  by (simp_all add: elem_def C_SLASH_def C_DOT_def)

lemma flat_simps [simp]: "flat [] = []" "flat (c # cs) = c @ C_SLASH # flat cs" "flat (xs @ ys) = flat xs @ flat ys"
  by (simp_all add: flat_def)

lemma comps_flat: "list_all elem cs \<Longrightarrow> comps (flat cs @ r) = cs @ comps r"
  by (induction cs) (simp_all add: comps_slash comps_elem)

lemma splits_elems: "c \<in> set (splits p) \<Longrightarrow> C_SLASH \<notin> set c"
proof (induction p arbitrary: c)
  case (Cons a p)
  then show ?case by (cases "splits p") (auto split: if_splits)
qed simp

lemma comps_elems: "list_all elem (comps p)"
  using splits_elems by (auto simp: list_all_iff comps_def elem_def)

text \<open>
  The first element of a path: \<open>q\<close> is what follows it, nothing or a slash and the rest.
\<close>

definition follows :: "byte list \<Rightarrow> bool" where
  "follows q \<longleftrightarrow> q = [] \<or> hd q = C_SLASH"

lemma follows_cases: "follows q \<Longrightarrow> (q = [] \<Longrightarrow> P) \<Longrightarrow> (\<And>r. q = C_SLASH # r \<Longrightarrow> P) \<Longrightarrow> P"
  by (cases q) (auto simp: follows_def)

lemma path_cases:
  obtains (Nil) "p = []" | (Slash) r where "p = C_SLASH # r"
  | (Elem) c q where "p = c @ q" "elem c" "follows q"
proof (cases p)
  case (Cons a r)
  show thesis
  proof (cases "a = C_SLASH")
    case False
    have "follows (dropWhile (\<lambda>c. c \<noteq> C_SLASH) p)"
      using hd_dropWhile [of "\<lambda>c. c \<noteq> C_SLASH" p] by (auto simp: follows_def)
    moreover have "elem (takeWhile (\<lambda>c. c \<noteq> C_SLASH) p)"
      using False Cons set_takeWhileD [of C_SLASH "\<lambda>c. c \<noteq> C_SLASH" p] by (auto simp: elem_def)
    ultimately show ?thesis using that(3) by (metis takeWhile_dropWhile_id)
  qed (use Cons that in blast)
qed (use that in blast)

lemma comps_head: "elem c \<Longrightarrow> follows q \<Longrightarrow> comps (c @ q) = c # comps (tl q)"
  by (erule follows_cases) (simp_all add: comps_elem comps_slash)

lemma copy_head: "C_SLASH \<notin> set c \<Longrightarrow> follows q \<Longrightarrow> copy_component t (c @ q) = (t @ c @ take 1 q, tl q)"
proof (induction c arbitrary: t)
  case Nil
  then show ?case by (auto elim!: follows_cases simp: copy_component.simps)
qed (auto simp: copy_component.simps)

lemma str_at_simps [simp]: "str_at [] i = 0" "str_at (c # s) 0 = c" "str_at (c # s) (Suc i) = str_at s i"
  by (simp_all add: str_at_def)

lemma dot_chars [simp]: "C_DOT \<noteq> 0" "C_SLASH \<noteq> 0" "C_DOT \<noteq> C_SLASH" "C_SLASH \<noteq> C_DOT"
  by (simp_all add: C_DOT_def C_SLASH_def)

lemma head_char: "elem c \<Longrightarrow> follows q \<Longrightarrow> str_at (c @ q) 0 = hd c"
  by (cases c) (auto simp: elem_def)

lemma dot_head:
  assumes "elem c" "follows q" "0 \<notin> set (c @ q)"
  shows "hd c = C_DOT \<and> str_at (c @ q) 1 = C_SLASH \<longleftrightarrow> c = dot \<and> q \<noteq> []"
    and "hd c = C_DOT \<and> str_at (c @ q) 1 = 0 \<longleftrightarrow> c = dot \<and> q = []"
    and "hd c = C_DOT \<and> DOT_IS_DOT_DOT_DIR (c @ q) \<longleftrightarrow> c = dotdot"
proof -
  obtain a b where c: "c = a # b" using assms(1) by (cases c) (auto simp: elem_def)
  have "(b = [] \<and> q = []) \<or> (\<exists>r. b = [] \<and> q = C_SLASH # r) \<or> (\<exists>x d. b = x # d)"
    using assms(2) by (cases b) (auto elim: follows_cases)
  then show "hd c = C_DOT \<and> str_at (c @ q) 1 = C_SLASH \<longleftrightarrow> c = dot \<and> q \<noteq> []"
    and "hd c = C_DOT \<and> str_at (c @ q) 1 = 0 \<longleftrightarrow> c = dot \<and> q = []"
    using assms(1,3) c by (auto simp: elem_def)
  have "b = [] \<or> (\<exists>x. b = [x]) \<or> (\<exists>x y d. b = x # y # d)" by (cases b; cases "tl b") auto
  then show "hd c = C_DOT \<and> DOT_IS_DOT_DOT_DIR (c @ q) \<longleftrightarrow> c = dotdot"
    using assms(1,3) c
    by (elim disjE exE; use assms(2) in \<open>elim follows_cases\<close>) (auto simp: elem_def DOT_IS_DOT_DOT_DIR_def numeral_2_eq_2)
qed

section \<open>Sanitized paths\<close>

text \<open>
  The reference for \<^verbatim>\<open>sanitize_path\<close> works on elements: a \<^verbatim>\<open>..\<close> removes the element before it; where there is none it is kept while the
  depth allows and dropped otherwise. \<open>k\<close> counts the elements kept so, \<open>st\<close> has the others.
\<close>

fun confine :: "int \<Rightarrow> nat \<Rightarrow> byte list list \<Rightarrow> byte list list \<Rightarrow> byte list list" where
  "confine depth k st [] = replicate k dotdot @ st"
| "confine depth k st (c # cs) =
     (if c = dotdot
      then (if st \<noteq> [] then confine depth k (butlast st) cs
            else if depth \<le> 0 then confine depth k [] cs
            else confine (depth - 1) (k + 1) [] cs)
      else confine depth k (st @ [c]) cs)"

lemma confine_ups:
  "dotdot \<notin> set st \<Longrightarrow> \<exists>j rest. confine depth k st cs = replicate j dotdot @ rest \<and> dotdot \<notin> set rest \<and> int j \<le> int k + max 0 depth"
proof (induction depth k st cs rule: confine.induct)
  case (2 depth k st c cs)
  show ?case
  proof (cases "c = dotdot")
    case False
    then show ?thesis using 2 by simp
  next
    case True
    consider "st \<noteq> []" | "st = []" "depth \<le> 0" | "st = []" "depth > 0" by linarith
    then show ?thesis
    proof cases
      case 1
      then show ?thesis using 2(1) [OF True 1] 2(5) True by (auto dest: in_set_butlastD)
    next
      case 2
      then show ?thesis using "2.IH"(2) True by simp
    next
      case 3
      then have "\<exists>j rest. confine (depth - 1) (k + 1) [] cs = replicate j dotdot @ rest \<and> dotdot \<notin> set rest \<and>
          int j \<le> int (k + 1) + max 0 (depth - 1)"
        using "2.IH"(3) True by simp
      then show ?thesis using 3 True by (auto simp: max_def)
    qed
  qed
next
  case (1 depth k st)
  then have "confine depth k st [] = replicate k dotdot @ st \<and> dotdot \<notin> set st \<and> int k \<le> int k + max 0 depth" by simp
  then show ?case by blast
qed

lemma back_up_elem: "C_SLASH \<notin> set c \<Longrightarrow> start \<le> length y \<Longrightarrow> length y = start \<or> last y = C_SLASH \<Longrightarrow> back_up start (y @ c) = y"
proof (induction c rule: rev_induct)
  case Nil
  then show ?case by (subst back_up.simps) auto
next
  case (snoc a c)
  then show ?case by (subst back_up.simps) (auto simp flip: append_assoc)
qed

lemma flat_last: "cs \<noteq> [] \<Longrightarrow> last (flat cs) = C_SLASH" "cs \<noteq> [] \<Longrightarrow> flat cs \<noteq> []"
  by (cases cs rule: rev_cases; simp)+

lemma back_up_flat:
  assumes "list_all elem st" "st \<noteq> []" "start = length x"
  shows "back_up start (butlast (x @ flat st)) = x @ flat (butlast st)"
proof -
  obtain st' c where st: "st = st' @ [c]" using assms(2) by (cases st rule: rev_cases) auto
  have "butlast (x @ flat st) = (x @ flat st') @ c" by (simp add: st butlast_append)
  moreover have "C_SLASH \<notin> set c" using assms(1) st by (simp add: elem_def)
  moreover have "length (x @ flat st') = start \<or> last (x @ flat st') = C_SLASH"
    using assms(3) flat_last [of st'] by (cases "st' = []") auto
  ultimately show ?thesis using back_up_elem [of c start "x @ flat st'"] assms(3) st by simp
qed

lemma flat_length: "length (flat (replicate k dotdot)) = 3 * k" "list_all elem st \<Longrightarrow> flat st = [] \<longleftrightarrow> st = []"
  by (induction k) (auto, cases st, auto)

text \<open>One element of the path in the loop.\<close>

lemma sanitize_elem:
  assumes "elem c" "follows q" "0 \<notin> set (c @ q)"
  shows "sanitize_loop dr depth start t (c @ q) =
    (if dr \<and> c = dot then sanitize_loop dr depth start t q
     else if c = dotdot
     then (if depth \<le> 0 \<or> length t \<noteq> start
           then sanitize_loop dr depth start (if length t \<noteq> start then back_up start (butlast t) else t) q
           else sanitize_loop dr (depth - 1) (length t + 3) (t @ c @ take 1 q) (tl q))
     else sanitize_loop dr depth start (t @ c @ take 1 q) (tl q))"
proof -
  obtain a b where c: "c = a # b" using assms(1) by (cases c) (auto simp: elem_def)
  have a: "(a = C_SLASH) = False" "C_SLASH \<notin> set b" using assms(1) c by (auto simp: elem_def)
  have cp: "copy_component t (a # b @ q) = (t @ c @ take 1 q, tl q)"
    using copy_head [of c q t] assms(1,2) c by (simp add: elem_def)
  have t1: "(dr \<and> a = C_DOT \<and> (str_at (a # b @ q) 1 = C_SLASH \<or> str_at (a # b @ q) 1 = 0)) = (dr \<and> c = dot)"
    using dot_head(1,2) [OF assms] unfolding c list.sel append_Cons by blast
  have t2: "(a = C_DOT \<and> DOT_IS_DOT_DOT_DIR (a # b @ q)) = (c = dotdot)"
    using dot_head(3) [OF assms] unfolding c list.sel append_Cons .
  have "sanitize_loop dr depth start t (a # b @ q) =
    (if dr \<and> c = dot then sanitize_loop dr depth start t (b @ q)
     else if c = dotdot
     then (if depth \<le> 0 \<or> length t \<noteq> start
           then sanitize_loop dr depth start (if length t \<noteq> start then back_up start (butlast t) else t) (drop 2 (a # b @ q))
           else sanitize_loop dr (depth - 1) (length t + 3) (t @ c @ take 1 q) (tl q))
     else sanitize_loop dr depth start (t @ c @ take 1 q) (tl q))"
    by (simp only: sanitize_loop.simps cp prod.case t1 t2 a if_False)
  moreover have "c = dot \<Longrightarrow> b @ q = q" "c = dotdot \<Longrightarrow> drop 2 (a # b @ q) = q" using c by auto
  ultimately show ?thesis unfolding c append_Cons by simp
qed

lemma follows_tl: "follows q \<Longrightarrow> sanitize_loop dr depth start t q = sanitize_loop dr depth start t (tl q)"
  by (erule follows_cases) (simp_all add: sanitize_loop.simps)

lemma flat_rel: "list_all elem cs \<Longrightarrow> c = [] \<or> elem c \<Longrightarrow> str_at (flat cs @ c) 0 \<noteq> C_SLASH"
  by (cases cs; cases "hd cs"; cases c) (auto simp: elem_def)

lemma flat_comps: "list_all elem cs \<Longrightarrow> c = [] \<or> elem c \<Longrightarrow> comps (flat cs @ c) = cs @ (if c = [] then [] else [c])"
  by (auto simp: comps_flat comps_elem)

lemma flat_ups: "flat (replicate k dotdot) @ [C_DOT, C_DOT, C_SLASH] = flat (replicate (Suc k) dotdot)"
  by (induction k) simp_all

lemma ups_elem: "list_all elem (replicate k dotdot)"
  by (simp add: list_all_length)

definition san_result :: "byte list \<Rightarrow> byte list list \<Rightarrow> byte list \<Rightarrow> bool" where
  "san_result pre cs t \<longleftrightarrow> (\<exists>r. t = pre @ r \<and> comps r = cs \<and> str_at r 0 \<noteq> C_SLASH)"

lemma san_resultI:
  "list_all elem cs \<Longrightarrow> c = [] \<or> elem c \<Longrightarrow> san_result pre (cs @ (if c = [] then [] else [c])) (pre @ flat cs @ c)"
  unfolding san_result_def using flat_comps flat_rel by blast

lemma sanitize_loop_ok:
  assumes "0 \<notin> set p" "list_all elem st"
  shows "san_result pre (confine depth k st (filter (\<lambda>c. dr \<longrightarrow> c \<noteq> dot) (comps p)))
    (sanitize_loop dr depth (length pre + 3 * k) (pre @ flat (replicate k dotdot @ st)) p)"
  using assms
proof (induction p arbitrary: depth k st rule: length_induct)
  case (1 p)
  define start where "start = length pre + 3 * k"
  define t where "t = pre @ flat (replicate k dotdot @ st)"
  define F where "F p = filter (\<lambda>c. dr \<longrightarrow> c \<noteq> dot) (comps p)" for p
  have len: "length t = start \<longleftrightarrow> st = []" using 1(3) by (auto simp: t_def start_def flat_length)
  have st: "list_all elem (replicate k dotdot @ st)" using ups_elem 1(3) by simp
  show ?case unfolding t_def [symmetric] start_def [symmetric] F_def [symmetric]
  proof (cases p rule: path_cases)
    case Nil
    then show "san_result pre (confine depth k st (F p)) (sanitize_loop dr depth start t p)"
      using san_resultI [OF st, of "[]" pre] by (simp add: sanitize_loop.simps F_def t_def)
  next
    case (Slash r)
    then show "san_result pre (confine depth k st (F p)) (sanitize_loop dr depth start t p)"
      using 1(1) [rule_format, of r st depth k] 1(2,3) by (simp add: sanitize_loop.simps F_def t_def start_def)
  next
    case (Elem c q)
    have z: "0 \<notin> set (c @ q)" "0 \<notin> set (tl q)" "length (tl q) < length p"
      using 1(2) Elem by (cases q; cases c; auto simp: elem_def)+
    note step = sanitize_elem [OF Elem(2,3) z(1), of dr depth start t]
    have IH: "san_result pre (confine d j xs (F (tl q))) (sanitize_loop dr d (length pre + 3 * j) (pre @ flat (replicate j dotdot @ xs)) (tl q))"
      if "list_all elem xs" for d j xs
      using 1(1) [rule_format, OF z(3) z(2) that] unfolding F_def .
    have Fp: "F p = (if dr \<and> c = dot then F (tl q) else c # F (tl q))" using comps_head [OF Elem(2,3)] Elem(1) by (auto simp: F_def)
    have F0: "F [] = []" by (simp add: F_def)
    have last: "san_result pre (replicate k dotdot @ st @ [c]) (t @ c)"
      using san_resultI [OF st, of c pre] Elem(2) by (auto simp: t_def elem_def)
    have bl: "list_all elem (butlast st)" using 1(3) by (auto simp: list_all_iff dest: in_set_butlastD)
    consider (skip) "dr" "c = dot" | (pop) "c = dotdot" "st \<noteq> []" | (stay) "c = dotdot" "st = []" "depth \<le> 0"
      | (up) "c = dotdot" "st = []" "depth > 0" | (push) "c \<noteq> dotdot" "\<not> (dr \<and> c = dot)" by force
    then show "san_result pre (confine depth k st (F p)) (sanitize_loop dr depth start t p)"
    proof cases
      case skip
      then show ?thesis using IH [OF 1(3)] step follows_tl [OF Elem(3)] Fp Elem(1) by (simp add: t_def start_def)
    next
      case pop
      have "back_up start (butlast t) = pre @ flat (replicate k dotdot @ butlast st)"
        using back_up_flat [of st start "pre @ flat (replicate k dotdot)"] 1(3) pop by (simp add: t_def start_def flat_length)
      then show ?thesis using IH [OF bl, of depth k] step follows_tl [OF Elem(3)] Fp Elem(1) pop len by (simp add: start_def)
    next
      case stay
      then show ?thesis using IH [of "[]" depth k] step follows_tl [OF Elem(3)] Fp Elem(1) len by (simp add: t_def start_def)
    next
      case up
      show ?thesis
      proof (cases "q = []")
        case True
        then show ?thesis using step up last Fp Elem(1) len F0
          by (simp add: sanitize_loop.simps replicate_append_same)
      next
        case False
        then have "t @ c @ take 1 q = pre @ flat (replicate (k + 1) dotdot @ [])" and "length t + 3 = length pre + 3 * (k + 1)"
          using Elem(3) up flat_ups [of k] by (auto simp: t_def follows_def flat_length take_Suc simp del: replicate_Suc)
        then show ?thesis using IH [of "[]" "depth - 1" "k + 1"] step up Fp Elem(1) len by (simp add: start_def ac_simps)
      qed
    next
      case push
      then have Fc: "F p = c # F (tl q)" and stc: "sanitize_loop dr depth start t p = sanitize_loop dr depth start (t @ c @ take 1 q) (tl q)"
        using Fp step Elem(1) by auto
      show ?thesis
      proof (cases "q = []")
        case True
        then show ?thesis using last push F0 by (simp add: Fc stc sanitize_loop.simps)
      next
        case False
        then have "t @ c @ take 1 q = pre @ flat (replicate k dotdot @ st @ [c])"
          using Elem(3) by (auto simp: t_def follows_def take_Suc)
        then show ?thesis using IH [of "st @ [c]" depth k] 1(3) Elem(2) push unfolding Fc stc by (simp add: start_def)
      qed
    qed
  qed
qed

lemma skip_dot_dirs_comps: "filter (\<lambda>c. c \<noteq> dot) (comps (skip_dot_dirs p)) = filter (\<lambda>c. c \<noteq> dot) (comps p)"
proof (induction p rule: skip_dot_dirs.induct)
  case (1 c d p)
  have "comps (C_DOT # C_SLASH # p) = dot # comps p" using comps_slash [of dot p] by (simp add: comps_elem)
  then show ?case using 1 by simp
qed simp_all

lemma skip_dot_dirs_set: "set (skip_dot_dirs p) \<subseteq> set p"
  by (induction p rule: skip_dot_dirs.induct) auto

text \<open>What \<^verbatim>\<open>sanitize_path\<close> puts in front, and how many leading \<^verbatim>\<open>..\<close> it may keep.\<close>

definition san_rooted :: "san_dest \<Rightarrow> byte list \<Rightarrow> bool" where
  "san_rooted dest p \<longleftrightarrow> dest \<noteq> San_in_place \<and> str_at p 0 = C_SLASH"

definition san_prefix :: "byte list \<Rightarrow> san_dest \<Rightarrow> byte list \<Rightarrow> byte list option \<Rightarrow> byte list" where
  "san_prefix module_dir dest p rootdir = (if san_rooted dest p then sanitize_root module_dir rootdir else [])"

definition san_elements :: "bool \<Rightarrow> san_dest \<Rightarrow> byte list \<Rightarrow> int \<Rightarrow> bool \<Rightarrow> byte list list" where
  "san_elements relative_paths dest p depth keep =
     confine (if san_rooted dest p then 0 else depth) 0 [] (filter (\<lambda>c. relative_paths \<and> keep \<or> c \<noteq> dot) (comps p))"

lemma sanitize_path_ok:
  assumes "0 \<notin> set p" "sanitize_path relative_paths module_dir dest p rootdir depth keep = Some r"
  shows "\<exists>s. r = san_prefix module_dir dest p rootdir @ s \<and> str_at s 0 \<noteq> C_SLASH
    \<and> (comps s = san_elements relative_paths dest p depth keep \<or> s = dot \<and> san_elements relative_paths dest p depth keep = [])"
proof -
  define dr where "dr = (\<not> relative_paths \<or> \<not> keep)"
  define pre where "pre = san_prefix module_dir dest p rootdir"
  define d where "d = (if san_rooted dest p then 0 else depth)"
  define p1 where "p1 = (if san_rooted dest p then tl p else p)"
  define p2 where "p2 = (if dr then skip_dot_dirs p1 else p1)"
  have p1: "comps p1 = comps p" "set p1 \<subseteq> set p"
    by (cases p; auto simp: p1_def san_rooted_def)+
  have p2: "0 \<notin> set p2" using assms(1) p1(2) skip_dot_dirs_set [of p1] by (auto simp: p2_def)
  have F: "filter (\<lambda>c. dr \<longrightarrow> c \<noteq> dot) (comps p2) = filter (\<lambda>c. relative_paths \<and> keep \<or> c \<noteq> dot) (comps p)"
    using skip_dot_dirs_comps [of p1] p1(1) by (auto simp: p2_def dr_def intro!: filter_cong)
  have "san_result pre (san_elements relative_paths dest p depth keep) (sanitize_loop dr d (length pre) pre p2)"
    using sanitize_loop_ok [OF p2, of "[]" pre d 0 dr] by (simp add: F san_elements_def d_def)
  then obtain s where s: "sanitize_loop dr d (length pre) pre p2 = pre @ s" "str_at s 0 \<noteq> C_SLASH"
    "comps s = san_elements relative_paths dest p depth keep" by (auto simp: san_result_def)
  have "r = (if pre @ s = [] then dot else pre @ s)"
    using assms(2) s(1)
    by (auto simp: sanitize_path_def Let_def san_rooted_def [symmetric] san_prefix_def pre_def dr_def d_def p1_def p2_def split: if_splits)
  then show ?thesis using s unfolding pre_def [symmetric] by (cases "pre @ s = []") auto
qed

section \<open>Properties of sanitized paths\<close>

text \<open>
  C7: Whatever path comes in, the result of \<^verbatim>\<open>sanitize_path\<close> is the root directory put in for a leading slash, followed by a relative path whose
  \<^verbatim>\<open>..\<close> elements all stand at its start and are at most as many as the depth allows, none at all behind a root directory. Its elements are those of the
  reference.
\<close>

theorem sanitize_path_confined:
  assumes "0 \<notin> set p" and "sanitize_path relative_paths module_dir dest p rootdir depth keep = Some r"
  shows "\<exists>s k rest. r = san_prefix module_dir dest p rootdir @ s \<and> str_at s 0 \<noteq> C_SLASH \<and> comps s = replicate k dotdot @ rest
    \<and> dotdot \<notin> set rest \<and> int k \<le> (if san_rooted dest p then 0 else max 0 depth)
    \<and> nodots (comps s) = nodots (san_elements relative_paths dest p depth keep)"
proof -
  obtain s where s: "r = san_prefix module_dir dest p rootdir @ s" "str_at s 0 \<noteq> C_SLASH"
    "comps s = san_elements relative_paths dest p depth keep \<or> s = dot \<and> san_elements relative_paths dest p depth keep = []"
    using sanitize_path_ok [OF assms] by blast
  have "max 0 (if san_rooted dest p then 0 else depth) = (if san_rooted dest p then 0 else max 0 depth)" by simp
  then obtain k rest where k: "san_elements relative_paths dest p depth keep = replicate k dotdot @ rest" "dotdot \<notin> set rest"
    "int k \<le> (if san_rooted dest p then 0 else max 0 depth)"
    using confine_ups [of "[]" "if san_rooted dest p then 0 else depth" 0
        "filter (\<lambda>c. relative_paths \<and> keep \<or> c \<noteq> dot) (comps p)"] unfolding san_elements_def by auto
  show ?thesis
  proof (cases "comps s = san_elements relative_paths dest p depth keep")
    case True
    then show ?thesis using s k by metis
  next
    case False
    then have "comps s = replicate 0 dotdot @ [dot] \<and> dotdot \<notin> set [dot]" using s(3) by (simp add: comps_elem)
    moreover have "int 0 \<le> (if san_rooted dest p then 0 else max 0 depth)" by simp
    moreover have "nodots (comps s) = nodots (san_elements relative_paths dest p depth keep)" using False s(3) calculation(1) by simp
    ultimately show ?thesis using s(1,2) by blast
  qed
qed

lemma ex_sanitize:
  "sanitize_path False (bytes_of ''/mod'') San_alloc (bytes_of ''/a/../../b/./c'') None 3 False = Some (bytes_of ''/mod/b/c'')"
  "0 \<notin> set (bytes_of ''/a/../../b/./c'')"
  by code_simp+

theorem sanitize_path_confined_witness:
  "\<exists>s k rest. bytes_of ''/mod/b/c'' = san_prefix (bytes_of ''/mod'') San_alloc (bytes_of ''/a/../../b/./c'') None @ s \<and> str_at s 0 \<noteq> C_SLASH
    \<and> comps s = replicate k dotdot @ rest \<and> dotdot \<notin> set rest
    \<and> int k \<le> (if san_rooted San_alloc (bytes_of ''/a/../../b/./c'') then 0 else max 0 3)
    \<and> nodots (comps s) = nodots (san_elements False San_alloc (bytes_of ''/a/../../b/./c'') 3 False)"
  by (rule sanitize_path_confined [OF ex_sanitize(2,1)])

section \<open>Symbolic links\<close>

text \<open>
  Following a path element by element from a directory inside a tree, which is given by its elements below the root of the tree; none is leaving the
  tree. \<open>dirs\<close> are the directories on the way to a file.
\<close>

fun resolve :: "byte list list \<Rightarrow> byte list list \<Rightarrow> byte list list option" where
  "resolve st [] = Some st"
| "resolve st (c # cs) =
     (if c = dot then resolve st cs
      else if c = dotdot then (if st = [] then None else resolve (butlast st) cs)
      else resolve (st @ [c]) cs)"

definition dirs :: "byte list \<Rightarrow> byte list list" where
  "dirs p = comps (rev (dropWhile (\<lambda>c. c \<noteq> C_SLASH) (rev p)))"

lemma dirs_single: "C_SLASH \<notin> set p \<Longrightarrow> dirs p = []"
proof -
  assume "C_SLASH \<notin> set p"
  then have "\<forall>x\<in>set (rev p). x \<noteq> C_SLASH" by auto
  then have "dropWhile (\<lambda>c. c \<noteq> C_SLASH) (rev p) = []" by (simp only: dropWhile_eq_Nil_conv)
  then show ?thesis unfolding dirs_def by (simp only: rev.simps comps_Nil)
qed

lemma dirs_slash: "elem c \<Longrightarrow> dirs (c @ C_SLASH # r) = c # dirs r"
proof (cases "C_SLASH \<in> set r")
  case True
  assume "elem c"
  have "dropWhile (\<lambda>c. c \<noteq> C_SLASH) (rev r @ C_SLASH # rev c) = dropWhile (\<lambda>c. c \<noteq> C_SLASH) (rev r) @ C_SLASH # rev c"
    using True by (intro dropWhile_append1) auto
  then show ?thesis using \<open>elem c\<close> by (simp add: dirs_def comps_slash comps_elem)
next
  case False
  assume "elem c"
  moreover have "dropWhile (\<lambda>c. c \<noteq> C_SLASH) (rev r @ C_SLASH # rev c) = C_SLASH # rev c"
    using False by (auto simp: dropWhile_append)
  ultimately show ?thesis using dirs_single [OF False] by (simp add: dirs_def comps_elem)
qed

lemma dirs_lead: "dirs (C_SLASH # r) = dirs r"
proof (cases "C_SLASH \<in> set r")
  case False
  then have "dropWhile (\<lambda>c. c \<noteq> C_SLASH) (rev r @ [C_SLASH]) = [C_SLASH]" by (auto simp: dropWhile_append)
  then have "dirs (C_SLASH # r) = []" by (simp add: dirs_def)
  then show ?thesis using dirs_single [OF False] by simp
qed (auto simp: dirs_def dropWhile_append)

lemma lead_slashes: "comps (dropWhile (\<lambda>c. c = C_SLASH) r) = comps r" "dirs (dropWhile (\<lambda>c. c = C_SLASH) r) = dirs r"
  "str_at (dropWhile (\<lambda>c. c = C_SLASH) r) 0 \<noteq> C_SLASH"
  by (induction r) (simp_all add: dirs_lead)

text \<open>The elements that the depth loops see.\<close>

lemma name_cases:
  assumes "str_at p 0 \<noteq> C_SLASH" "0 \<notin> set p"
  obtains (End) "C_SLASH \<notin> set p" "ends_up p \<longleftrightarrow> p = dotdot" "comps p = (if p = [] then [] else [p])"
  | (Dir) c r where "elem c" "p = c @ C_SLASH # r" "C_SLASH \<in> set p" "is_dots p \<longleftrightarrow> c = dot \<or> c = dotdot"
      "is_dots p \<longrightarrow> (str_at p 1 = C_DOT \<longleftrightarrow> c = dotdot)" "next_name p = dropWhile (\<lambda>c. c = C_SLASH) r"
proof (cases p rule: path_cases)
  case Nil
  then show thesis using End by (simp add: ends_up_def)
next
  case (Slash r)
  then show thesis using assms(1) by simp
next
  case (Elem c q)
  obtain a b where c: "c = a # b" using Elem(2) by (cases c) (auto simp: elem_def)
  show thesis
  proof (cases "q = []")
    case True
    have "b = [] \<or> (\<exists>x. b = [x]) \<or> (\<exists>x y d. b = x # y # d)" by (cases b; cases "tl b") auto
    then have "ends_up p \<longleftrightarrow> p = dotdot"
      using Elem(1,2) True c assms(2) by (auto simp: ends_up_def elem_def numeral_2_eq_2)
    then show thesis using End Elem True by (simp add: elem_def comps_elem)
  next
    case False
    then obtain r where q: "q = C_SLASH # r" using Elem(3) by (auto elim: follows_cases)
    have "b = [] \<or> (\<exists>x. b = [x]) \<or> (\<exists>x y d. b = x # y # d)" by (cases b; cases "tl b") auto
    then have "is_dots p \<longleftrightarrow> c = dot \<or> c = dotdot" "is_dots p \<longrightarrow> (str_at p 1 = C_DOT \<longleftrightarrow> c = dotdot)"
      using Elem(1,2) c q by (auto simp: is_dots_def elem_def numeral_2_eq_2)
    moreover have "next_name p = dropWhile (\<lambda>c. c = C_SLASH) r"
      using Elem(1,2) q by (simp add: next_name_def elem_def dropWhile_append3 dropWhile_append)
    ultimately show thesis using Dir [of c r] Elem(1,2) q by simp
  qed
qed

lemma next_ok: "p = c @ C_SLASH # r \<Longrightarrow> 0 \<notin> set p \<Longrightarrow> 0 \<notin> set (dropWhile (\<lambda>c. c = C_SLASH) r)"
  by (auto dest: set_dropWhileD)

lemma margin_loop_ok:
  assumes "str_at p 0 \<noteq> C_SLASH" "0 \<notin> set p" "depth \<le> int (length st)" "resolve st (dirs p) = Some st'"
  shows "margin_loop p depth \<le> int (length st')"
  using assms
proof (induction p arbitrary: depth st rule: length_induct)
  case (1 p)
  from 1(2,3) show ?case
  proof (cases p rule: name_cases)
    case End
    then show ?thesis using 1(4,5) by (simp add: margin_loop.simps dirs_single)
  next
    case (Dir c r)
    define n where "n = dropWhile (\<lambda>c. c = C_SLASH) r"
    have n: "length n < length p" "str_at n 0 \<noteq> C_SLASH" "0 \<notin> set n" "dirs p = c # dirs n"
      using next_name_shorter [of p] Dir lead_slashes [of r] next_ok [OF Dir(2) 1(3)] dirs_slash [OF Dir(1), of r] by (simp_all add: n_def)
    define d where "d = (if is_dots p then (if str_at p 1 = C_DOT then 0 else depth) else depth + 1)"
    have eq: "margin_loop p depth = margin_loop n d"
      using Dir(3,6) by (subst margin_loop.simps) (simp add: n_def d_def)
    have IH: "d \<le> int (length xs) \<Longrightarrow> resolve xs (dirs n) = Some st' \<Longrightarrow> margin_loop n d \<le> int (length st')" for xs
      using 1(1) n by blast
    consider "c = dot" | "c = dotdot" | "c \<noteq> dot" "c \<noteq> dotdot" by blast
    then show ?thesis
    proof cases
      case 1
      then show ?thesis using IH [of st] Dir(4,5) "1.prems"(3,4) n(4) unfolding eq by (simp add: d_def)
    next
      case 2
      then show ?thesis using IH [of "butlast st"] Dir(4,5) "1.prems"(3,4) n(4) unfolding eq by (simp add: d_def split: if_splits)
    next
      case 3
      then show ?thesis using IH [of "st @ [c]"] Dir(4,5) "1.prems"(3,4) n(4) unfolding eq by (simp add: d_def)
    qed
  qed
qed

lemma climb_loop_ok:
  assumes "str_at p 0 \<noteq> C_SLASH" "0 \<notin> set p" "depth \<le> int (length st)" "\<not> climb_loop p depth"
  shows "resolve st (comps p) \<noteq> None"
  using assms
proof (induction p arbitrary: depth st rule: length_induct)
  case (1 p)
  from 1(2,3) show ?case
  proof (cases p rule: name_cases)
    case End
    then show ?thesis using 1(4,5) by (auto simp: climb_loop.simps split: if_splits)
  next
    case (Dir c r)
    define n where "n = dropWhile (\<lambda>c. c = C_SLASH) r"
    have n: "length n < length p" "str_at n 0 \<noteq> C_SLASH" "0 \<notin> set n" "comps p = c # comps n"
      using next_name_shorter [of p] Dir lead_slashes [of r] next_ok [OF Dir(2) 1(3)] comps_slash [of c r] comps_elem [OF Dir(1)]
      by (simp_all add: n_def)
    have eq: "climb_loop p depth = (if is_dots p \<and> str_at p 1 = C_DOT then (if depth - 1 < 0 then True else climb_loop n (depth - 1))
        else climb_loop n (if is_dots p then depth else depth + 1))"
      using Dir(3,6) by (subst climb_loop.simps) (simp add: n_def)
    have IH: "d \<le> int (length xs) \<Longrightarrow> \<not> climb_loop n d \<Longrightarrow> resolve xs (comps n) \<noteq> None" for d xs
      using 1(1) n by blast
    consider "c = dot" | "c = dotdot" | "c \<noteq> dot" "c \<noteq> dotdot" by blast
    then show ?thesis
    proof cases
      case 1
      then show ?thesis using IH [of depth st] Dir(4,5) "1.prems"(3,4) n(4) unfolding eq by simp
    next
      case 2
      then show ?thesis using IH [of "depth - 1" "butlast st"] Dir(4,5) "1.prems"(3,4) n(4) unfolding eq by (auto split: if_splits)
    next
      case 3
      then show ?thesis using IH [of "depth + 1" "st @ [c]"] Dir(4,5) "1.prems"(3,4) n(4) unfolding eq by simp
    qed
  qed
qed

text \<open>Where an element stands in a path.\<close>

lemma comps_occurs:
  assumes "c \<in> set (comps p)"
  shows "\<exists>x y. p = x @ c @ y \<and> (x = [] \<or> last x = C_SLASH) \<and> follows y"
  using assms
proof (induction p rule: length_induct)
  case (1 p)
  show ?case
  proof (cases p rule: path_cases)
    case Nil
    then show ?thesis using 1(2) by simp
  next
    case (Slash r)
    then have "length r < length p" "c \<in> set (comps r)" using 1(2) by simp_all
    then obtain x y where "r = x @ c @ y" "x = [] \<or> last x = C_SLASH" "follows y" using 1(1) by blast
    then have "p = (C_SLASH # x) @ c @ y \<and> last (C_SLASH # x) = C_SLASH \<and> follows y" using Slash by auto
    then show ?thesis by blast
  next
    case (Elem e q)
    show ?thesis
    proof (cases "c = e")
      case True
      then have "p = [] @ c @ q \<and> follows q" using Elem by simp
      then show ?thesis by blast
    next
      case False
      then have q: "c \<in> set (comps (tl q))" using 1(2) Elem comps_head [OF Elem(2,3)] by auto
      then obtain r where r: "q = C_SLASH # r" using Elem(3) by (cases rule: follows_cases) auto
      then have "length r < length p" "c \<in> set (comps r)" using q Elem(1) by simp_all
      then obtain x y where x: "r = x @ c @ y" "x = [] \<or> last x = C_SLASH" "follows y" using 1(1) by blast
      then have "p = (e @ C_SLASH # x) @ c @ y \<and> last (e @ C_SLASH # x) = C_SLASH" using Elem(1) r by auto
      then show ?thesis using x(3) by blast
    qed
  qed
qed

lemma contains_mid: "contains n (x @ n @ y)"
proof (induction x)
  case Nil
  show ?case
  proof (cases "n @ y")
    case (Cons c s)
    then have "take (length n) (c # s) = n" by (metis append_eq_conv_conj)
    then show ?thesis by (simp add: Cons)
  qed simp
qed simp

lemma skip_ups_ok:
  "str_at d 0 \<noteq> C_SLASH \<Longrightarrow> \<exists>k x. d = x @ skip_ups d \<and> (x = [] \<or> last x = C_SLASH) \<and> comps d = replicate k dotdot @ comps (skip_ups d) \<and>
     str_at (skip_ups d) 0 \<noteq> C_SLASH \<and> take 3 (skip_ups d) \<noteq> [C_DOT, C_DOT, C_SLASH]"
proof (induction d rule: skip_ups.induct)
  case (1 d)
  show ?case
  proof (cases "take 3 d = [C_DOT, C_DOT, C_SLASH]")
    case False
    then have "skip_ups d = d" by (subst skip_ups.simps) simp
    then have "d = [] @ skip_ups d \<and> comps d = replicate 0 dotdot @ comps (skip_ups d)" by simp
    then show ?thesis using False 1(2) \<open>skip_ups d = d\<close> by metis
  next
    case True
    define e where "e = dropWhile (\<lambda>c. c = C_SLASH) (drop 3 d)"
    have d: "d = dotdot @ C_SLASH # drop 3 d" using True append_take_drop_id [of 3 d] by simp
    have c: "comps d = dotdot # comps e"
      using comps_slash [of dotdot "drop 3 d"] lead_slashes(1) [of "drop 3 d"] comps_elem [OF elem_dots(2)] d by (simp add: e_def)
    have su: "skip_ups d = skip_ups e" using True by (subst skip_ups.simps) (simp add: e_def)
    obtain k x where kx: "e = x @ skip_ups e" "x = [] \<or> last x = C_SLASH" "comps e = replicate k dotdot @ comps (skip_ups e)"
      "str_at (skip_ups e) 0 \<noteq> C_SLASH" "take 3 (skip_ups e) \<noteq> [C_DOT, C_DOT, C_SLASH]"
      using 1(1) [OF True] lead_slashes(3) [of "drop 3 d"] unfolding e_def by blast
    define w where "w = takeWhile (\<lambda>c. c = C_SLASH) (drop 3 d)"
    have "drop 3 d = w @ e" by (simp add: w_def e_def)
    then have "d = (dotdot @ C_SLASH # w @ x) @ skip_ups d" using d kx(1) su by simp
    moreover have "last (dotdot @ C_SLASH # w @ x) = C_SLASH"
      using kx(2) set_takeWhileD [of "last w" "\<lambda>c. c = C_SLASH" "drop 3 d"] by (cases "x = []"; cases "w = []") (auto simp: w_def)
    moreover have "comps d = replicate (Suc k) dotdot @ comps (skip_ups d)" using c kx(3) su by simp
    ultimately show ?thesis using kx(4,5) su by metis
  qed
qed

lemma leading_ups:
  assumes "d \<noteq> []" "str_at d 0 \<noteq> C_SLASH" "\<not> contains [C_SLASH, C_DOT, C_DOT, C_SLASH] (skip_ups d)"
    and "\<not> (length d > 3 \<and> drop (length d - 3) d = [C_SLASH, C_DOT, C_DOT])"
  shows "\<exists>k rest. comps d = replicate k dotdot @ rest \<and> dotdot \<notin> set rest"
proof -
  define e where "e = skip_ups d"
  obtain k x where k: "d = x @ e" "x = [] \<or> last x = C_SLASH" "comps d = replicate k dotdot @ comps e"
    "str_at e 0 \<noteq> C_SLASH" "take 3 e \<noteq> [C_DOT, C_DOT, C_SLASH]"
    using skip_ups_ok [OF assms(2)] unfolding e_def by blast
  have no_end: False if "d = z @ [C_SLASH, C_DOT, C_DOT]" for z
  proof -
    have "z \<noteq> []" using that assms(2) by auto
    then show False using that assms(4) by simp
  qed
  show ?thesis
  proof (cases "dotdot \<in> set (comps e)")
    case False
    then show ?thesis using k(3) by blast
  next
    case True
    then obtain u v where e: "e = u @ dotdot @ v" "u = [] \<or> last u = C_SLASH" "follows v" using comps_occurs by blast
    show ?thesis
    proof (cases u rule: rev_cases)
      case Nil
      then have v: "v = []" using e k(5) by (cases v) (auto simp: follows_def)
      show ?thesis
      proof (cases x rule: rev_cases)
        case Nil
        then have "comps d = replicate 1 dotdot @ []" using k(1) e(1) \<open>u = []\<close> v comps_elem [OF elem_dots(2)] by simp
        then show ?thesis by (metis empty_iff list.set(1))
      next
        case (snoc z a)
        then show ?thesis using no_end [of z] k(1,2) e(1) \<open>u = []\<close> v by simp
      qed
    next
      case (snoc z a)
      show ?thesis
      proof (cases "v = []")
        case True
        then show ?thesis using no_end [of "x @ z"] snoc e k(1) by simp
      next
        case False
        then obtain w where "v = C_SLASH # w" using e(3) by (auto elim: follows_cases)
        then have "e = z @ [C_SLASH, C_DOT, C_DOT, C_SLASH] @ w" using snoc e by simp
        then show ?thesis using contains_mid [of "[C_SLASH, C_DOT, C_DOT, C_SLASH]" z w] assms(3) by (simp add: e_def)
      qed
    qed
  qed
qed

text \<open>
  C8: A symbolic link that \<^verbatim>\<open>unsafe_symlink\<close> lets pass is relative, has its \<^verbatim>\<open>..\<close> elements at the start only, and followed from the directory of the
  link never leaves the tree of the transfer.
\<close>

theorem safe_symlink_stays_inside:
  assumes "0 \<notin> set d" "0 \<notin> set src" "str_at src 0 \<noteq> C_SLASH"
    and "\<not> unsafe_symlink (Some d) src" and "resolve [] (dirs src) = Some st"
  shows "str_at d 0 \<noteq> C_SLASH \<and> resolve st (comps d) \<noteq> None \<and> (\<exists>k rest. comps d = replicate k dotdot @ rest \<and> dotdot \<notin> set rest)"
proof -
  have u: "d \<noteq> []" "str_at d 0 \<noteq> C_SLASH" "\<not> contains [C_SLASH, C_DOT, C_DOT, C_SLASH] (skip_ups d)"
    "\<not> (length d > 3 \<and> drop (length d - 3) d = [C_SLASH, C_DOT, C_DOT])" "\<not> climb_loop d (margin_loop src 0)"
    using assms(4) unfolding unsafe_symlink_def by (auto split: if_splits)
  have "margin_loop src 0 \<le> int (length st)" using margin_loop_ok [OF assms(3,2), of 0 "[]" st] assms(5) by simp
  then show ?thesis using climb_loop_ok [OF u(2) assms(1) _ u(5)] leading_ups [OF u(1-4)] u(2) by blast
qed

lemma ex_symlink:
  "0 \<notin> set (bytes_of ''../c/d'')" "0 \<notin> set (bytes_of ''a/link'')" "str_at (bytes_of ''a/link'') 0 \<noteq> C_SLASH"
  "\<not> unsafe_symlink (Some (bytes_of ''../c/d'')) (bytes_of ''a/link'')" "resolve [] (dirs (bytes_of ''a/link'')) = Some [bytes_of ''a'']"
  by code_simp+

theorem safe_symlink_stays_inside_witness:
  "\<not> unsafe_symlink (Some (bytes_of ''../c/d'')) (bytes_of ''a/link'') \<and> resolve [bytes_of ''a''] (comps (bytes_of ''../c/d'')) \<noteq> None"
  using safe_symlink_stays_inside [OF ex_symlink] ex_symlink(4) by blast

section \<open>Cleaned names\<close>

definition closed :: "byte list \<Rightarrow> bool" where
  "closed t \<longleftrightarrow> t = [] \<or> last t = C_SLASH"

lemma comps_closed: "closed t \<Longrightarrow> comps (t @ x) = comps t @ comps x"
  by (cases t rule: rev_cases) (auto simp: closed_def comps_slash)

lemma closed_copy: "follows q \<Longrightarrow> q \<noteq> [] \<Longrightarrow> closed (t @ c @ take 1 q)"
  by (erule follows_cases) (simp_all add: closed_def)

text \<open>One element of the name in the loop. \<open>collapse_here\<close> is the test whether the element before a \<^verbatim>\<open>..\<close> can be removed.\<close>

definition back_pos :: "nat \<Rightarrow> byte list \<Rightarrow> int" where
  "back_pos limit t = back_comp limit t (int (length t) - 1)"

definition collapse_here :: "nat \<Rightarrow> byte list \<Rightarrow> bool" where
  "collapse_here limit t \<longleftrightarrow> back_pos limit t \<noteq> int (length t) - 1 \<and> (back_pos limit t \<le> 0 \<or> t ! nat (back_pos limit t) = C_SLASH)"

lemma clean_elem:
  assumes "elem c" "follows q" "0 \<notin> set (c @ q)"
  shows "clean_loop fl a limit t (c @ q) =
    (if c = dot \<and> q \<noteq> [] \<and> \<not> CFN_KEEP_DOT_DIRS fl then clean_loop fl a limit t (tl q)
     else if c = dot \<and> q = [] \<and> CFN_DROP_TRAILING_DOT_DIR fl then Some t
     else if c = dotdot \<and> (CFN_COLLAPSE_DOT_DOT_DIRS fl \<or> CFN_REFUSE_DOT_DOT_DIRS fl)
     then (if CFN_REFUSE_DOT_DOT_DIRS fl then None
           else if length t = 1 \<and> a then clean_loop fl a limit t q
           else if collapse_here limit t
           then clean_loop fl a limit (take (if back_pos limit t = 0 then 0 else nat (back_pos limit t) + 1) t) q
           else clean_loop fl a (length t + 2) (t @ c @ take 1 q) (tl q))
     else clean_loop fl a limit (t @ c @ take 1 q) (tl q))"
proof -
  obtain x b where c: "c = x # b" using assms(1) by (cases c) (auto simp: elem_def)
  have a: "(x = C_SLASH) = False" "C_SLASH \<notin> set b" using assms(1) c by (auto simp: elem_def)
  have cp: "copy_component t (x # b @ q) = (t @ c @ take 1 q, tl q)"
    using copy_head [of c q t] assms(1,2) c by (simp add: elem_def)
  note d = dot_head [OF assms]
  have t1: "(x = C_DOT \<and> str_at (x # b @ q) 1 = C_SLASH \<and> k) = (c = dot \<and> q \<noteq> [] \<and> k)" for k
    using d(1) unfolding c list.sel append_Cons by blast
  have t2: "(x = C_DOT \<and> str_at (x # b @ q) 1 = 0 \<and> k) = (c = dot \<and> q = [] \<and> k)" for k
    using d(2) unfolding c list.sel append_Cons by blast
  have t3: "(x = C_DOT \<and> k \<and> DOT_IS_DOT_DOT_DIR (x # b @ q)) = (c = dotdot \<and> k)" for k
    using d(3) unfolding c list.sel append_Cons by blast
  have t4: "(int (length t) - 1 = 0 \<and> a) = (length t = 1 \<and> a)" by auto
  have "clean_loop fl a limit t (x # b @ q) =
    (if c = dot \<and> q \<noteq> [] \<and> \<not> CFN_KEEP_DOT_DIRS fl then clean_loop fl a limit t (drop 2 (x # b @ q))
     else if c = dot \<and> q = [] \<and> CFN_DROP_TRAILING_DOT_DIR fl then Some t
     else if c = dotdot \<and> (CFN_COLLAPSE_DOT_DOT_DIRS fl \<or> CFN_REFUSE_DOT_DOT_DIRS fl)
     then (if CFN_REFUSE_DOT_DOT_DIRS fl then None
           else if length t = 1 \<and> a then clean_loop fl a limit t (drop 2 (x # b @ q))
           else if collapse_here limit t
           then clean_loop fl a limit (take (if back_pos limit t = 0 then 0 else nat (back_pos limit t) + 1) t) (drop 2 (x # b @ q))
           else clean_loop fl a (length t + 2) (t @ c @ take 1 q) (tl q))
     else clean_loop fl a limit (t @ c @ take 1 q) (tl q))"
    by (simp only: clean_loop.simps cp prod.case t1 t2 t3 t4 a if_False Let_def collapse_here_def back_pos_def)
  moreover have "c = dot \<Longrightarrow> q \<noteq> [] \<Longrightarrow> drop 2 (x # b @ q) = tl q" "c = dotdot \<Longrightarrow> drop 2 (x # b @ q) = q"
    using c by (auto simp: numeral_2_eq_2 drop_Suc)
  ultimately show ?thesis unfolding c append_Cons by simp
qed

lemma clean_slash: "clean_loop fl a limit t (C_SLASH # f) = clean_loop fl a limit t f"
  by (simp add: clean_loop.simps)

lemma clean_follows: "follows q \<Longrightarrow> clean_loop fl a limit t q = clean_loop fl a limit t (tl q)"
  by (erule follows_cases) (simp_all add: clean_slash clean_loop.simps)

text \<open>Without collapsing, the loop keeps every element but the dots.\<close>

definition kept :: "cfn_flags \<Rightarrow> byte list \<Rightarrow> byte list \<Rightarrow> byte list option \<Rightarrow> bool" where
  "kept fl t f z \<longleftrightarrow>
     (case z of
        None \<Rightarrow> CFN_REFUSE_DOT_DOT_DIRS fl \<and> dotdot \<in> set (comps f)
      | Some r \<Rightarrow> (CFN_REFUSE_DOT_DOT_DIRS fl \<longrightarrow> dotdot \<notin> set (comps f)) \<and> nodots (comps r) = nodots (comps t @ comps f)
          \<and> (\<exists>x. r = t @ x \<and> str_at x 0 \<noteq> C_SLASH))"

lemma clean_loop_kept:
  assumes "\<not> CFN_COLLAPSE_DOT_DOT_DIRS fl \<or> CFN_REFUSE_DOT_DOT_DIRS fl" "0 \<notin> set f" "closed t"
  shows "kept fl t f (clean_loop fl a limit t f)"
  using assms(2,3)
proof (induction f arbitrary: t rule: length_induct)
  case (1 f)
  show ?case
  proof (cases f rule: path_cases)
    case Nil
    then show ?thesis by (auto simp: clean_loop.simps kept_def)
  next
    case (Slash r)
    then show ?thesis using 1(1) [rule_format, of r t] 1(2,3) by (auto simp: clean_slash kept_def split: option.splits)
  next
    case (Elem c q)
    have z: "0 \<notin> set (c @ q)" "0 \<notin> set (tl q)" "length (tl q) < length f"
      using 1(2) Elem by (cases q; cases c; auto simp: elem_def)+
    have cf: "comps f = c # comps (tl q)" using comps_head [OF Elem(2,3)] Elem(1) by simp
    note step = clean_elem [OF Elem(2,3) z(1), of fl a limit t]
    have IH: "closed u \<Longrightarrow> kept fl u (tl q) (clean_loop fl a limit u (tl q))" for u
      using 1(1) z by blast
    consider (skip) "c = dot" "q \<noteq> []" "\<not> CFN_KEEP_DOT_DIRS fl" | (stop) "c = dot" "q = []" "CFN_DROP_TRAILING_DOT_DIR fl"
      | (refuse) "c = dotdot" "CFN_REFUSE_DOT_DOT_DIRS fl"
      | (copy) "clean_loop fl a limit t f = clean_loop fl a limit (t @ c @ take 1 q) (tl q)" "c = dotdot \<longrightarrow> \<not> CFN_REFUSE_DOT_DOT_DIRS fl"
      using step assms(1) Elem(1) by (simp split: if_splits)
    then show ?thesis
    proof cases
      case skip
      then show ?thesis using IH [OF 1(3)] step cf Elem(1) by (auto simp: kept_def split: option.splits)
    next
      case stop
      then show ?thesis using step cf Elem(1) by (auto simp: kept_def)
    next
      case refuse
      then show ?thesis using step cf Elem(1) by (simp add: kept_def)
    next
      case copy
      have hc: "c \<noteq> []" "hd c \<noteq> C_SLASH" using Elem(2) by (cases c; auto simp: elem_def)+
      have app: "nodots (comps (t @ c)) = nodots (comps t @ [c])" using comps_closed [OF 1(3), of c] comps_elem [OF Elem(2)] by simp
      have rel: "str_at (c @ y) 0 \<noteq> C_SLASH" for y using hc by (cases c) auto
      show ?thesis
      proof (cases "q = []")
        case True
        then have "clean_loop fl a limit t f = Some (t @ c)" using copy by (simp add: clean_loop.simps)
        then show ?thesis using True app cf copy(2) rel [of "[]"] by (auto simp: kept_def)
      next
        case False
        then obtain r where r: "q = C_SLASH # r" using Elem(3) by (auto elim: follows_cases)
        have "nodots (comps (t @ c @ [C_SLASH])) = nodots (comps t @ [c])" using app comps_trail [of "t @ c"] by simp
        then show ?thesis
          using IH [OF closed_copy [OF Elem(3) False, of t c]] copy cf rel r
          by (auto simp: kept_def split: option.splits)
      qed
    qed
  qed
qed

text \<open>Collapsing: what a path means with every \<^verbatim>\<open>..\<close> worked out, as far as the elements allow; at the root it stays there.\<close>

definition lex_step :: "bool \<Rightarrow> byte list list \<Rightarrow> byte list \<Rightarrow> byte list list" where
  "lex_step anchored st c =
     (if c = dot then st
      else if c = dotdot then (if st \<noteq> [] \<and> last st \<noteq> dotdot then butlast st else if anchored then st else st @ [dotdot])
      else st @ [c])"

definition lexnorm :: "bool \<Rightarrow> byte list list \<Rightarrow> byte list list" where
  "lexnorm anchored cs = foldl (lex_step anchored) [] cs"

lemma lexnorm_simps [simp]: "lexnorm a [] = []" "lexnorm a (cs @ [c]) = lex_step a (lexnorm a cs) c"
  "lexnorm a (cs @ ds) = foldl (lex_step a) (lexnorm a cs) ds"
  by (simp_all add: lexnorm_def)

lemma foldl_nodots: "foldl (lex_step a) st (nodots cs) = foldl (lex_step a) st cs"
  by (induction cs arbitrary: st) (simp_all add: lex_step_def)

lemma lexnorm_nodots: "nodots xs = nodots ys \<Longrightarrow> lexnorm a xs = lexnorm a ys"
  by (metis foldl_nodots lexnorm_def)

lemma back_comp_ok:
  "back_comp limit t s \<le> s \<and> (back_comp limit t s \<noteq> s \<longrightarrow> int limit \<le> back_comp limit t s \<and> t ! nat (back_comp limit t s) \<noteq> C_SLASH) \<and>
   (\<forall>i. back_comp limit t s \<le> i \<and> i < s \<longrightarrow> t ! nat i \<noteq> C_SLASH)"
proof (induction limit t s rule: back_comp.induct)
  case (1 limit t s)
  show ?case
  proof (cases "s > int limit \<and> t ! nat (s - 1) \<noteq> C_SLASH")
    case False
    then have "back_comp limit t s = s" by (subst back_comp.simps) auto
    then show ?thesis by auto
  next
    case True
    then have eq: "back_comp limit t s = back_comp limit t (s - 1)" by (subst back_comp.simps) simp
    note IH = 1 [OF True]
    have "t ! nat i \<noteq> C_SLASH" if "back_comp limit t (s - 1) \<le> i" "i < s" for i
      using IH True that by (cases "i = s - 1") auto
    then show ?thesis unfolding eq using IH True by (cases "back_comp limit t (s - 1) = s - 1") auto
  qed
qed

lemma collapse_only_first:
  assumes "collapse_here limit t" "closed t"
  obtains c where "t = c @ [C_SLASH]" "elem c" "limit = 0" "back_pos limit t = 0"
proof -
  define s where "s = back_pos limit t"
  have s: "s \<noteq> int (length t) - 1" "s \<le> 0 \<or> t ! nat s = C_SLASH" using assms(1) by (auto simp: collapse_here_def s_def)
  note b = back_comp_ok [of limit t "int (length t) - 1", folded back_pos_def, folded s_def]
  have s0: "s = 0" "limit = 0" using b s by auto
  have len: "length t \<ge> 2" using s(1) b s0 by linarith
  have "last t = C_SLASH" using assms(2) len by (auto simp: closed_def)
  then have t: "t = butlast t @ [C_SLASH]" using len append_butlast_last_id [of t] by force
  have "C_SLASH \<notin> set (butlast t)"
  proof
    assume "C_SLASH \<in> set (butlast t)"
    then obtain i where "i < length (butlast t)" "butlast t ! i = C_SLASH" by (auto simp: in_set_conv_nth)
    moreover from this have "0 \<le> int i \<and> int i < int (length t) - 1" by auto
    ultimately show False using b s0 by (metis nat_int nth_butlast)
  qed
  then have "elem (butlast t)" using len by (auto simp: elem_def simp flip: length_0_conv)
  then show thesis using that t s0 s_def by metis
qed

lemma clean_loop_collapses:
  assumes "\<not> CFN_REFUSE_DOT_DOT_DIRS fl" "\<not> CFN_KEEP_DOT_DIRS fl" "CFN_COLLAPSE_DOT_DOT_DIRS fl"
    and "0 \<notin> set f" "closed t" "(str_at t 0 = C_SLASH) = a"
    and "limit = 0 \<longrightarrow> dotdot \<notin> set (comps t) \<and> dot \<notin> set (comps t)"
  shows "\<exists>r. clean_loop fl a limit t f = Some r \<and> lexnorm a (comps r) = lexnorm a (comps t @ comps f) \<and> (str_at r 0 = C_SLASH) = a"
  using assms(4-7)
proof (induction f arbitrary: t limit rule: length_induct)
  case (1 f)
  show ?case
  proof (cases f rule: path_cases)
    case Nil
    then show ?thesis using 1(4) by (simp add: clean_loop.simps)
  next
    case (Slash r)
    then show ?thesis using 1(1) [rule_format, of r t limit] 1(2-5) by (simp add: clean_slash)
  next
    case (Elem c q)
    have z: "0 \<notin> set (c @ q)" "0 \<notin> set (tl q)" "length (tl q) < length f"
      using 1(2) Elem by (cases q; cases c; auto simp: elem_def)+
    have cf: "comps f = c # comps (tl q)" using comps_head [OF Elem(2,3)] Elem(1) by simp
    note step = clean_elem [OF Elem(2,3) z(1), of fl a limit t]
    have IH: "closed u \<Longrightarrow> (str_at u 0 = C_SLASH) = a \<Longrightarrow> l = 0 \<longrightarrow> dotdot \<notin> set (comps u) \<and> dot \<notin> set (comps u) \<Longrightarrow>
        \<exists>r. clean_loop fl a l u (tl q) = Some r \<and> lexnorm a (comps r) = foldl (lex_step a) (lexnorm a (comps u)) (comps (tl q)) \<and> (str_at r 0 = C_SLASH) = a"
      for l u using 1(1) [rule_format, OF z(3,2), of u l] by simp
    have hc: "c \<noteq> []" "hd c \<noteq> C_SLASH" using Elem(2) by (cases c; auto simp: elem_def)+
    have "comps (c @ take 1 q) = [c]" using Elem(3) comps_elem [OF Elem(2)] by (cases q) (auto simp: follows_def)
    then have tc: "comps (t @ c @ take 1 q) = comps t @ [c]" using comps_closed [OF 1(3), of "c @ take 1 q"] by simp
    have ta: "(str_at (t @ c @ take 1 q) 0 = C_SLASH) = a" using 1(4) hc by (cases t; cases c) auto
    have copy: "\<exists>r. clean_loop fl a l (t @ c @ take 1 q) (tl q) = Some r \<and> lexnorm a (comps r) = lexnorm a (comps t @ comps f) \<and> (str_at r 0 = C_SLASH) = a"
      if "q \<noteq> [] \<longrightarrow> l = 0 \<longrightarrow> dotdot \<notin> set (comps t @ [c]) \<and> dot \<notin> set (comps t @ [c])" for l
    proof (cases "q = []")
      case True
      then show ?thesis using tc ta cf by (simp add: clean_loop.simps)
    next
      case False
      then show ?thesis using IH [OF closed_copy [OF Elem(3) False, of t c] ta, of l, unfolded tc] that cf by simp
    qed
    note here = assms(1-3) Elem(1)
    consider (skip) "c = dot" "q \<noteq> []" | (stop) "c = dot" "q = []" "CFN_DROP_TRAILING_DOT_DIR fl"
      | (root) "c = dotdot" "length t = 1" a | (first) "c = dotdot" "\<not> (length t = 1 \<and> a)" "collapse_here limit t"
      | (up) "c = dotdot" "\<not> (length t = 1 \<and> a)" "\<not> collapse_here limit t"
      | (other) "c \<noteq> dotdot" "c = dot \<longrightarrow> q = [] \<and> \<not> CFN_DROP_TRAILING_DOT_DIR fl" by blast
    then show ?thesis
    proof cases
      case skip
      then have "clean_loop fl a limit t f = clean_loop fl a limit t (tl q)" using step here by simp
      then show ?thesis using IH [OF 1(3,4,5)] cf skip by (simp add: lex_step_def)
    next
      case stop
      then have "clean_loop fl a limit t f = Some t" using step here by simp
      then show ?thesis using cf stop 1(4) by (simp add: lex_step_def)
    next
      case root
      then have "clean_loop fl a limit t f = clean_loop fl a limit t (tl q)" using step here clean_follows [OF Elem(3)] by simp
      moreover have "comps t = []" using root 1(3) by (cases t) (auto simp: closed_def comps_def)
      ultimately show ?thesis using IH [OF 1(3,4,5)] cf root by (simp add: lex_step_def lexnorm_def)
    next
      case first
      obtain e where e: "t = e @ [C_SLASH]" "elem e" "limit = 0" "back_pos limit t = 0"
        using collapse_only_first [OF first(3) 1(3)] by blast
      have "clean_loop fl a limit t f = clean_loop fl a limit (take (if back_pos limit t = 0 then 0 else nat (back_pos limit t) + 1) t) q"
        unfolding Elem(1) step using here first by auto
      then have "clean_loop fl a limit t f = clean_loop fl a limit [] (tl q)" using e(4) clean_follows [OF Elem(3)] by simp
      moreover have "comps t = [e]" using e comps_elem by simp
      moreover have "e \<noteq> dotdot" "e \<noteq> dot" "\<not> a" using 1(4,5) e \<open>comps t = [e]\<close> by (cases e; auto simp: elem_def)+
      ultimately show ?thesis using IH [of "[]" 0] cf first(1) e(3) by (simp add: lex_step_def closed_def lexnorm_def)
    next
      case up
      have "clean_loop fl a limit t f = clean_loop fl a (length t + 2) (t @ c @ take 1 q) (tl q)"
        unfolding Elem(1) step using here up by auto
      then show ?thesis using copy [of "length t + 2"] by simp
    next
      case other
      have "clean_loop fl a limit t f = clean_loop fl a limit (t @ c @ take 1 q) (tl q)"
        unfolding Elem(1) step using here other by auto
      then show ?thesis using copy [of limit] other 1(5) by auto
    qed
  qed
qed

lemma clean_end_ok:
  assumes "(str_at t 0 = C_SLASH) = a"
  shows "nodots (comps (clean_end fl a t)) = nodots (comps t)" and "(str_at (clean_end fl a t) 0 = C_SLASH) = a"
proof -
  obtain u where u: "clean_end fl a t = (if u = [] then dot else u)" "u = t \<or> t = u @ [C_SLASH] \<and> (a \<longrightarrow> u \<noteq> [])"
  proof (cases "length t > (if a then 1 else 0) \<and> last t = C_SLASH \<and> \<not> CFN_KEEP_TRAILING_SLASH fl")
    case True
    then have "t \<noteq> []" by auto
    then have "t = butlast t @ [C_SLASH]" using True append_butlast_last_id [of t] by metis
    moreover have "a \<longrightarrow> butlast t \<noteq> []" using True by (cases t; cases "tl t") auto
    ultimately show thesis using that [of "butlast t"] True by (simp add: clean_end_def)
  next
    case False
    then show thesis using that [of t] by (auto simp: clean_end_def Let_def)
  qed
  show "nodots (comps (clean_end fl a t)) = nodots (comps t)"
    using u comps_elem [OF elem_dots(1)] by auto
  show "(str_at (clean_end fl a t) 0 = C_SLASH) = a"
    using u assms by (cases u) auto
qed

text \<open>How \<^verbatim>\<open>clean_fname\<close> starts.\<close>

lemma clean_start:
  assumes "0 \<notin> set name" "a = (str_at name 0 = C_SLASH)"
  obtains (refused) "clean_fname fl name = None" "CFN_REFUSE_DOT_DOT_DIRS fl" "dotdot \<in> set (comps name)"
  | (start) t f where "clean_fname fl name = map_option (clean_end fl a) (clean_loop fl a 0 t f)" "name = t @ f" "0 \<notin> set f" "closed t"
      "(str_at t 0 = C_SLASH) = a" "nodots (comps t) = []" "comps name = comps t @ comps f"
      "\<not> CFN_KEEP_DOT_DIRS fl \<longrightarrow> comps t = []"
proof (cases name)
  case Nil
  then show thesis using start [of "[]" "[]"] assms by (simp add: clean_fname_def closed_def)
next
  case (Cons c n)
  consider (slash) "c = C_SLASH" | (keep) "c = C_DOT" "CFN_KEEP_DOT_DIRS fl" "str_at n 0 = C_SLASH"
    | (refuse) "c = C_DOT" "\<not> (CFN_KEEP_DOT_DIRS fl \<and> str_at n 0 = C_SLASH)" "CFN_REFUSE_DOT_DOT_DIRS fl" "DOT_IS_DOT_DOT_DIR name"
    | (plain) "c \<noteq> C_SLASH" "\<not> (c = C_DOT \<and> CFN_KEEP_DOT_DIRS fl \<and> str_at n 0 = C_SLASH)"
        "\<not> (CFN_REFUSE_DOT_DOT_DIRS fl \<and> c = C_DOT \<and> DOT_IS_DOT_DOT_DIR name)" by blast
  then show thesis
  proof cases
    case slash
    then show thesis using start [of "[C_SLASH]" n] Cons assms by (simp add: clean_fname_def closed_def comps_slash [of "[]" "[]", simplified])
  next
    case keep
    then obtain m where m: "n = C_SLASH # m" by (cases n) auto
    have "comps (C_DOT # C_SLASH # m) = dot # comps m" "comps [C_DOT, C_SLASH] = [dot]"
      using comps_slash [of dot m] comps_trail [of dot] comps_elem [OF elem_dots(1)] by simp_all
    then show thesis using start [of "[C_DOT, C_SLASH]" m] Cons keep m assms
      by (simp add: clean_fname_def closed_def numeral_2_eq_2)
  next
    case refuse
    have "name \<noteq> []" "name \<noteq> C_SLASH # r" for r using Cons refuse(1) by auto
    then obtain e q where e: "name = e @ q" "elem e" "follows q" using path_cases [of name] by metis
    have "hd e = C_DOT" using e Cons refuse by (cases e) (auto simp: elem_def)
    then have "e = dotdot" using dot_head(3) [OF e(2,3)] assms(1) e(1) refuse by simp
    then have "dotdot \<in> set (comps name)" using comps_head [OF e(2,3)] e(1) by simp
    then show thesis using refused refuse Cons by (simp add: clean_fname_def)
  next
    case plain
    then have "clean_fname fl name = map_option (clean_end fl a) (clean_loop fl a 0 [] name)"
      using Cons assms(2) by (auto simp: clean_fname_def)
    then show thesis using start [of "[]" name] plain(1) Cons assms by (simp add: closed_def)
  qed
qed

lemma nodots_dotdot: "nodots xs = nodots ys \<Longrightarrow> dotdot \<in> set xs \<longleftrightarrow> dotdot \<in> set ys"
proof -
  assume "nodots xs = nodots ys"
  then have "dotdot \<in> set (nodots xs) \<longleftrightarrow> dotdot \<in> set (nodots ys)" by simp
  then show ?thesis by simp
qed

section \<open>Properties of cleaned names\<close>

text \<open>
  C38: A name from the file list of the peer is refused exactly when it has a \<^verbatim>\<open>..\<close> element. Otherwise the cleaned name has the same elements, dots
  left out, and is absolute exactly when the name was.
\<close>

theorem clean_fname_refuses:
  assumes "0 \<notin> set name" and "CFN_REFUSE_DOT_DOT_DIRS flags"
  shows "case clean_fname flags name of
      None \<Rightarrow> dotdot \<in> set (comps name)
    | Some r \<Rightarrow> dotdot \<notin> set (comps r) \<and> nodots (comps r) = nodots (comps name) \<and> (str_at r 0 = C_SLASH \<longleftrightarrow> str_at name 0 = C_SLASH)"
proof -
  from assms(1) refl show ?thesis
  proof (cases rule: clean_start [where fl = flags])
    case refused
    then show ?thesis by simp
  next
    case (start t f)
    note k = clean_loop_kept [of flags f t "str_at name 0 = C_SLASH" 0, OF disjI2 [OF assms(2)] start(3,4)]
    show ?thesis
    proof (cases "clean_loop flags (str_at name 0 = C_SLASH) 0 t f")
      case None
      then show ?thesis using k start(1,7) by (simp add: kept_def)
    next
      case (Some r)
      have "(str_at r 0 = C_SLASH) = (str_at name 0 = C_SLASH)" using k Some start(5) by (cases t) (auto simp: kept_def)
      note e = clean_end_ok [OF this, of flags]
      have "nodots (comps r) = nodots (comps name)" "dotdot \<notin> set (comps f)" using k Some assms(2) start(7) by (simp_all add: kept_def)
      moreover from this have "dotdot \<notin> set (nodots (comps name))" using start(6,7) by auto
      ultimately show ?thesis using Some e start(1) nodots_dotdot [of "comps (clean_end flags (str_at name 0 = C_SLASH) r)" "comps name"] by simp
    qed
  qed
qed

definition ex_name :: "byte list" where "ex_name = bytes_of ''/a/./b''"

definition cfn :: "bool \<Rightarrow> bool \<Rightarrow> bool \<Rightarrow> cfn_flags" where
  "cfn keep collapse refuse = \<lparr>CFN_KEEP_DOT_DIRS = keep, CFN_KEEP_TRAILING_SLASH = False, CFN_DROP_TRAILING_DOT_DIR = False,
     CFN_COLLAPSE_DOT_DOT_DIRS = collapse, CFN_REFUSE_DOT_DOT_DIRS = refuse\<rparr>"

lemma ex_clean: "clean_fname (cfn False False True) ex_name = Some (bytes_of ''/a/b'')" "0 \<notin> set ex_name"
  "CFN_REFUSE_DOT_DOT_DIRS (cfn False False True)"
  by code_simp+

theorem clean_fname_refuses_witness:
  "clean_fname (cfn False False True) ex_name = Some (bytes_of ''/a/b'') \<and> dotdot \<notin> set (comps (bytes_of ''/a/b''))"
  using clean_fname_refuses [OF ex_clean(2,3)] by (simp add: ex_clean(1))

text \<open>
  C39: Without refusing, \<^verbatim>\<open>clean_fname\<close> always gives a name, and it means the same path: the same elements are left when every \<^verbatim>\<open>..\<close> is worked
  out. This leaves out collapsing together with kept dot elements.
\<close>

theorem clean_fname_same_path:
  assumes "0 \<notin> set name" and "\<not> CFN_REFUSE_DOT_DOT_DIRS flags" and "\<not> (CFN_KEEP_DOT_DIRS flags \<and> CFN_COLLAPSE_DOT_DOT_DIRS flags)"
  shows "\<exists>r. clean_fname flags name = Some r \<and> (str_at r 0 = C_SLASH \<longleftrightarrow> str_at name 0 = C_SLASH)
    \<and> lexnorm (str_at name 0 = C_SLASH) (comps r) = lexnorm (str_at name 0 = C_SLASH) (comps name)"
proof -
  define a where "a = (str_at name 0 = C_SLASH)"
  from assms(1) a_def
  have "\<exists>r. clean_fname flags name = Some r \<and> (str_at r 0 = C_SLASH) = a \<and> lexnorm a (comps r) = lexnorm a (comps name)"
  proof (cases rule: clean_start [where fl = flags])
    case refused
    then show ?thesis using assms(2) by simp
  next
    case (start t f)
    obtain r where r: "clean_loop flags a 0 t f = Some r" "lexnorm a (comps r) = lexnorm a (comps name)" "(str_at r 0 = C_SLASH) = a"
    proof (cases "CFN_COLLAPSE_DOT_DOT_DIRS flags")
      case True
      then have "comps t = []" using start(8) assms(3) by blast
      then show thesis
        using that clean_loop_collapses [OF assms(2) _ True start(3,4,5), of 0] assms(3) True start(7) by auto
    next
      case False
      have k: "kept flags t f (clean_loop flags a 0 t f)" using clean_loop_kept [OF disjI1 [OF False] start(3,4)] .
      then obtain r where r: "clean_loop flags a 0 t f = Some r" "nodots (comps r) = nodots (comps name)" "\<exists>x. r = t @ x \<and> str_at x 0 \<noteq> C_SLASH"
        using assms(2) start(7) by (auto simp: kept_def split: option.splits)
      have "(str_at r 0 = C_SLASH) = a" using r(3) start(5) by (cases t) auto
      then show thesis using that r(1) lexnorm_nodots [OF r(2)] by blast
    qed
    note e = clean_end_ok [OF r(3), of flags]
    show ?thesis using start(1) r e(2) lexnorm_nodots [OF e(1)] by auto
  qed
  then show ?thesis unfolding a_def .
qed

lemma ex_collapse: "clean_fname (cfn False True False) (bytes_of ''a/../b'') = Some (bytes_of ''b'')" "0 \<notin> set (bytes_of ''a/../b'')"
  "\<not> CFN_REFUSE_DOT_DOT_DIRS (cfn False True False)"
  "\<not> (CFN_KEEP_DOT_DIRS (cfn False True False) \<and> CFN_COLLAPSE_DOT_DOT_DIRS (cfn False True False))"
  by code_simp+

theorem clean_fname_same_path_witness:
  "clean_fname (cfn False True False) (bytes_of ''a/../b'') = Some (bytes_of ''b'') \<and>
   lexnorm (str_at (bytes_of ''a/../b'') 0 = C_SLASH) (comps (bytes_of ''b'')) =
   lexnorm (str_at (bytes_of ''a/../b'') 0 = C_SLASH) (comps (bytes_of ''a/../b''))"
  using clean_fname_same_path [OF ex_collapse(2-4)] by (simp add: ex_collapse(1))

text \<open>Elements that stand for themselves are copied.\<close>

definition plain_elem :: "byte list \<Rightarrow> bool" where
  "plain_elem c \<longleftrightarrow> elem c \<and> c \<noteq> dot \<and> c \<noteq> dotdot \<and> 0 \<notin> set c"

lemma clean_plain:
  "list_all plain_elem cs \<Longrightarrow> 0 \<notin> set r \<Longrightarrow> clean_loop fl a limit t (flat cs @ r) = clean_loop fl a limit (t @ flat cs) r"
proof (induction cs arbitrary: t)
  case (Cons c cs)
  have "0 \<notin> set (flat cs)" using Cons.prems(1) by (auto simp: flat_def plain_elem_def list_all_iff)
  then have "clean_loop fl a limit t (c @ C_SLASH # flat cs @ r) = clean_loop fl a limit (t @ c @ [C_SLASH]) (flat cs @ r)"
    using Cons.prems clean_elem [of c "C_SLASH # flat cs @ r" fl a limit t] by (simp add: plain_elem_def follows_def)
  then show ?case using Cons.IH [of "t @ c @ [C_SLASH]"] Cons.prems by simp
qed simp

lemma clean_plain_end:
  assumes "list_all plain_elem es" "plain_elem e"
  shows "map_option (clean_end fl a) (clean_loop fl a limit t (flat es @ e)) = Some (t @ flat es @ e)"
proof -
  have e: "elem e" "0 \<notin> set e" "e \<noteq> dot" "e \<noteq> dotdot" "e \<noteq> []" "C_SLASH \<notin> set e"
    using assms(2) by (auto simp: plain_elem_def elem_def)
  then have "last e \<noteq> C_SLASH" using last_in_set by metis
  moreover have "clean_loop fl a limit t (flat es @ e) = Some (t @ flat es @ e)"
    using clean_plain [OF assms(1) e(2)] clean_elem [of e "[]" fl a limit "t @ flat es"] e by (simp add: follows_def clean_loop.simps)
  ultimately show ?thesis using e by (simp add: clean_end_def)
qed

text \<open>A \<^verbatim>\<open>..\<close> that is not collapsed is copied, and what follows as well.\<close>

lemma clean_dotdot_kept:
  assumes "\<not> CFN_REFUSE_DOT_DOT_DIRS fl" "CFN_COLLAPSE_DOT_DOT_DIRS fl" "list_all plain_elem es" "plain_elem e"
    and "\<not> collapse_here limit t" "\<not> (length t = 1 \<and> a)"
  shows "map_option (clean_end fl a) (clean_loop fl a limit t (dotdot @ C_SLASH # flat es @ e)) = Some (t @ dotdot @ C_SLASH # flat es @ e)"
proof -
  have z: "0 \<notin> set (flat es @ e)" using assms(3,4) by (auto simp: flat_def plain_elem_def list_all_iff)
  have "clean_loop fl a limit t (dotdot @ C_SLASH # flat es @ e) = clean_loop fl a (length t + 2) (t @ dotdot @ [C_SLASH]) (flat es @ e)"
    using clean_elem [OF elem_dots(2), of "C_SLASH # flat es @ e" fl a limit t] z assms(1,2,5,6) by (auto simp: follows_def)
  then show ?thesis using clean_plain_end [OF assms(3,4), of fl a "length t + 2" "t @ dotdot @ [C_SLASH]"] by simp
qed

text \<open>
  C40: The limits of collapsing. A \<^verbatim>\<open>..\<close> is collapsed only behind the first element of a relative name: behind two or more elements, and in an absolute
  name behind one or more, \<^verbatim>\<open>clean_fname\<close> leaves the name as it is. And when dot elements are kept as well, a \<^verbatim>\<open>..\<close> behind a leading dot removes
  that dot, so that \<^verbatim>\<open>./../x\<close> becomes \<^verbatim>\<open>x\<close>, which is another path.
\<close>

theorem clean_fname_collapse_limits:
  assumes fl: "\<not> CFN_REFUSE_DOT_DOT_DIRS fl" "CFN_COLLAPSE_DOT_DOT_DIRS fl"
    and plain: "list_all plain_elem cs" "list_all plain_elem es" "plain_elem e"
  shows "(2 \<le> length cs \<longrightarrow> clean_fname fl (flat (cs @ dotdot # es) @ e) = Some (flat (cs @ dotdot # es) @ e))
    \<and> (1 \<le> length cs \<longrightarrow> clean_fname fl (C_SLASH # flat (cs @ dotdot # es) @ e) = Some (C_SLASH # flat (cs @ dotdot # es) @ e))
    \<and> (CFN_KEEP_DOT_DIRS fl \<longrightarrow> clean_fname fl (flat (dot # dotdot # es) @ e) = Some (flat es @ e))"
proof (intro conjI impI)
  let ?rest = "dotdot @ C_SLASH # flat es @ e"
  have z: "0 \<notin> set ?rest" using plain by (auto simp: flat_def plain_elem_def list_all_iff)
  have elems: "list_all elem cs" using plain(1) by (auto simp: list_all_iff plain_elem_def)
  have closed: "closed (x @ flat cs)" if "cs \<noteq> []" for x using flat_last [OF that] by (simp add: closed_def)
  {
    assume two: "2 \<le> length cs"
    obtain c cs' where c: "cs = c # cs'" "plain_elem c" using two plain(1) by (cases cs) auto
    have "\<not> collapse_here 0 (flat cs)"
    proof
      assume "collapse_here 0 (flat cs)"
      then obtain d where "flat cs = d @ [C_SLASH]" "elem d" using collapse_only_first closed [of "[]"] c(1) by (metis append_Nil list.distinct(1))
      then have "cs = [d]" using comps_flat [OF elems, of "[]"] comps_elem [of d] by simp
      then show False using two by simp
    qed
    moreover have "str_at (flat cs @ ?rest) 0 \<noteq> C_SLASH" "\<not> (str_at (flat cs @ ?rest) 0 = C_DOT \<and> str_at (flat cs @ ?rest) 1 = C_SLASH)"
      using c by (cases c; cases "tl c"; auto simp: plain_elem_def elem_def)+
    then have "clean_fname fl (flat cs @ ?rest) = map_option (clean_end fl False) (clean_loop fl False 0 [] (flat cs @ ?rest))"
      using fl(1) by (simp only: clean_fname_def Let_def) auto
    ultimately show "clean_fname fl (flat (cs @ dotdot # es) @ e) = Some (flat (cs @ dotdot # es) @ e)"
      using clean_plain [OF plain(1) z] clean_dotdot_kept [OF fl plain(2,3), of 0 "flat cs" False] by simp
  next
    assume one: "1 \<le> length cs"
    have "\<not> collapse_here 0 (C_SLASH # flat cs)"
    proof
      assume "collapse_here 0 (C_SLASH # flat cs)"
      then obtain d where "C_SLASH # flat cs = d @ [C_SLASH]" "elem d" using collapse_only_first closed [of "[C_SLASH]"] one by (metis append_Cons append_Nil length_0_conv not_one_le_zero)
      then show False by (cases d) (auto simp: elem_def)
    qed
    moreover have "clean_fname fl (C_SLASH # flat cs @ ?rest) = map_option (clean_end fl True) (clean_loop fl True 0 [C_SLASH] (flat cs @ ?rest))"
      by (simp add: clean_fname_def)
    moreover have "length (C_SLASH # flat cs) \<noteq> 1" using flat_length(2) [OF elems] one by auto
    ultimately show "clean_fname fl (C_SLASH # flat (cs @ dotdot # es) @ e) = Some (C_SLASH # flat (cs @ dotdot # es) @ e)"
      using clean_plain [OF plain(1) z] clean_dotdot_kept [OF fl plain(2,3), of 0 "C_SLASH # flat cs" True] by simp
  next
    assume keep: "CFN_KEEP_DOT_DIRS fl"
    have "back_pos 0 [C_DOT, C_SLASH] = 0" by (simp add: back_pos_def back_comp.simps)
    then have "clean_loop fl False 0 [C_DOT, C_SLASH] ?rest = clean_loop fl False 0 [] (flat es @ e)"
      using clean_elem [OF elem_dots(2), of "C_SLASH # flat es @ e" fl False 0 "[C_DOT, C_SLASH]"] z fl
      by (simp add: follows_def collapse_here_def clean_slash)
    then show "clean_fname fl (flat (dot # dotdot # es) @ e) = Some (flat es @ e)"
      using keep clean_plain_end [OF plain(2,3), of fl False 0 "[]"] by (simp add: clean_fname_def numeral_2_eq_2)
  }
qed

theorem clean_fname_collapse_limits_witness:
  "clean_fname (cfn True True False) (flat ([bytes_of ''a'', bytes_of ''b''] @ dotdot # []) @ bytes_of ''c'') = Some (bytes_of ''a/b/../c'')
   \<and> clean_fname (cfn True True False) (C_SLASH # flat ([bytes_of ''a'', bytes_of ''b''] @ dotdot # []) @ bytes_of ''c'') = Some (bytes_of ''/a/b/../c'')
   \<and> clean_fname (cfn True True False) (flat (dot # dotdot # []) @ bytes_of ''c'') = Some (bytes_of ''c'')"
proof -
  have p: "\<not> CFN_REFUSE_DOT_DOT_DIRS (cfn True True False)" "CFN_COLLAPSE_DOT_DOT_DIRS (cfn True True False)"
    "list_all plain_elem [bytes_of ''a'', bytes_of ''b'']" "list_all plain_elem []" "plain_elem (bytes_of ''c'')"
    "flat ([bytes_of ''a'', bytes_of ''b''] @ dotdot # []) @ bytes_of ''c'' = bytes_of ''a/b/../c''" "CFN_KEEP_DOT_DIRS (cfn True True False)"
    "C_SLASH # bytes_of ''a/b/../c'' = bytes_of ''/a/b/../c''" "flat [] @ bytes_of ''c'' = bytes_of ''c''" by code_simp+
  show ?thesis using clean_fname_collapse_limits [OF p(1-5)] p(7) unfolding p(6,8,9) by (simp only: list.size)
qed

section \<open>Joining and counting\<close>

lemma pathjoin_fits:
  assumes "1 \<le> destsize"
  shows "length (fst (pathjoin destsize p1 p2)) < destsize \<and> (snd (pathjoin destsize p1 p2) < destsize \<longrightarrow>
      fst (pathjoin destsize p1 p2) = p1 @ (if p1 = [] \<or> last p1 \<noteq> C_SLASH then [C_SLASH] else []) @ p2)"
proof (cases "length p1 < destsize - 1")
  case False
  then show ?thesis using assms by (auto simp: pathjoin_def)
next
  case True
  define dest where "dest = (if p1 = [] \<or> last p1 \<noteq> C_SLASH then p1 @ [C_SLASH] else p1)"
  have d: "p1 @ (if p1 = [] \<or> last p1 \<noteq> C_SLASH then [C_SLASH] else []) @ p2 = dest @ p2" "length dest < destsize"
    using True by (auto simp: dest_def)
  have "pathjoin destsize p1 p2 = (if length dest < destsize - 1 then (dest @ take (destsize - length dest - 1) p2, length dest + length p2)
      else (dest, length dest + length p2))"
    using True by (simp add: pathjoin_def Let_def dest_def)
  moreover have "length dest + length p2 < destsize \<Longrightarrow> \<not> length dest < destsize - 1 \<Longrightarrow> p2 = []" by (cases p2) auto
  ultimately show ?thesis using d by auto
qed

lemma count_elements_elem: "elem c \<Longrightarrow> count_elements (c @ q) n = (if n then 1 else 0) + count_elements q False"
proof -
  have inner: "C_SLASH \<notin> set b \<Longrightarrow> count_elements (b @ q) False = count_elements q False" for b by (induction b) auto
  assume "elem c"
  then show ?thesis using inner by (cases c) (auto simp: elem_def)
qed

lemma count_elements_comps:
  assumes "0 \<notin> set p"
  shows "count_elements p (str_at p 0 \<noteq> C_DOT \<or> str_at p 1 \<noteq> C_SLASH \<and> str_at p 1 \<noteq> 0) = length (nodots (comps p))"
  using assms
proof (induction p rule: length_induct)
  case (1 p)
  show ?case
  proof (cases p rule: path_cases)
    case (Slash r)
    then show ?thesis using 1 by simp
  next
    case (Elem c q)
    have z: "0 \<notin> set (c @ q)" "0 \<notin> set (tl q)" "length (tl q) < length p"
      using 1(2) Elem by (cases q; cases c; auto simp: elem_def)+
    have "(str_at p 0 \<noteq> C_DOT \<or> str_at p 1 \<noteq> C_SLASH \<and> str_at p 1 \<noteq> 0) = (c \<noteq> dot)"
      using dot_head(1,2) [OF Elem(2,3) z(1)] head_char [OF Elem(2,3)] Elem(1) by auto
    moreover have "count_elements q False = length (nodots (comps (tl q)))"
      using Elem(3) 1(1) z by (cases q) (auto simp: follows_def)
    ultimately show ?thesis using count_elements_elem [OF Elem(2)] comps_head [OF Elem(2,3)] Elem(1) by simp
  qed simp
qed

text \<open>The depth of a directory below the module, for a path that does not start with a dot element.\<close>

lemma count_dir_elements_comps:
  assumes "0 \<notin> set p" "str_at p 0 \<noteq> C_DOT \<or> str_at p 1 \<noteq> C_SLASH \<and> str_at p 1 \<noteq> 0"
  shows "count_dir_elements p = length (nodots (comps p))"
  using count_elements_comps [OF assms(1)] assms(2) by (simp add: count_dir_elements_def)

end
