(* ===== verification/Spec2Isabelle.thy ===== *)
theory Spec2Isabelle
  imports RdmaSetup Receiver MdDigest Wildmatch Paths
begin

text \<open>
  Verification of rdmasync, an rsync that can move file data over RDMA.

  \<^bold>\<open>The program.\<close> For each file the generator (\<^verbatim>\<open>generator.c\<close>) cuts the receiver's old file, the basis, into blocks and sends
  a weak and a strong checksum of each. The sender (\<^verbatim>\<open>sender.c\<close>, \<^verbatim>\<open>match.c\<close>) receives this signature, slides a window over the new
  file, and emits literal bytes and numbers of blocks that it found, as calls of \<^verbatim>\<open>send_token\<close>. \<^verbatim>\<open>token.c\<close> carries these calls: plain,
  compressed, or with the literal bytes on RDMA queue pairs (\<^verbatim>\<open>rdma.c\<close>), striped over one or two rails. The receiver (\<^verbatim>\<open>receiver.c\<close>)
  rebuilds the file from the tokens and the basis, through a read window and a buffered or sparse writer (\<^verbatim>\<open>fileio.c\<close>), and compares a
  checksum of the whole file. Around this, names are checked before they are used (\<^verbatim>\<open>util1.c\<close>), filter patterns are matched
  (\<^verbatim>\<open>lib/wildmatch.c\<close>), and the two ends negotiate RDMA over the control connection (\<^verbatim>\<open>rdma.c\<close>).

  \<^bold>\<open>Conventions.\<close> A byte is an \<open>8 word\<close>, and unsigned 32- and 64-bit values are words of their width, so that they wrap. A C \<^verbatim>\<open>int\<close>, \<^verbatim>\<open>int32\<close> or
  \<^verbatim>\<open>OFF_T\<close> is an \<open>int\<close>, with \<open>to_int32\<close> where the code narrows and a range as hypothesis where it must fit. A buffer, a file or a stream is a list of
  bytes. A routine that can end the process returns a sum whose left value is the exit code (\<open>rerr\<close>); one that may not return has \<open>option\<close>
  around it (\<open>run\<close>), by fuel or \<open>partial_function\<close>. The globals that a routine reads are a record and its first argument. The kernel, libibverbs, LZ4,
  OpenSSL, xxhash and the devices of a host are arguments; what is relied on is a named hypothesis (\<open>progress\<close>, \<open>full_writes\<close>, \<open>reads_file\<close>,
  \<open>lz4_good\<close>, \<open>cand_ok\<close> and others).

  \<^bold>\<open>The theories.\<close>
  \<^item> \<open>Prelude\<close>: types, readers, slices of lists, and the locale of codecs.
  \<^item> \<open>WireIO\<close> (\<^verbatim>\<open>byteorder.h\<close>, \<^verbatim>\<open>io.c\<close>): each integer, string and index writer and reader. The round trips hold for all values of the types; file-list
    indexes are proved over whole sequences, for they are coded by differences.
  \<^item> \<open>Exchange\<close>: programs that write, flush and read, two of them in any interleaving, and the fact that their steps commute, so that one run to an end decides
    all runs. Used for the negotiation.
  \<^item> \<open>Checksum\<close> (\<^verbatim>\<open>checksum.c\<close>): the weak sum, its unrolled loop and its sliding, against the sum of a window from scratch.
  \<^item> \<open>Sums\<close> (\<^verbatim>\<open>generator.c\<close>, \<^verbatim>\<open>sender.c\<close>, \<^verbatim>\<open>io.c\<close>): block geometry, and the signature on its way from generator to sender; what is received describes the
    basis block by block, and nothing out of bounds is accepted.
  \<^item> \<open>Match\<close> (\<^verbatim>\<open>match.c\<close>): the hash table and \<^verbatim>\<open>hash_search\<close> with its in-place rules. The calls made rebuild the new file from the basis, and, replayed on the basis
    itself, update it in place. The file is seen through \<open>map_win\<close>, a read without errors, which \<open>Fileio\<close> shows of \<^verbatim>\<open>map_ptr\<close>.
  \<^item> \<open>Fileio\<close> (\<^verbatim>\<open>fileio.c\<close>): \<^verbatim>\<open>map_file\<close>, \<^verbatim>\<open>map_ptr\<close> in its four modes and \<^verbatim>\<open>unmap_file\<close>; a locale states what a window promises.
  \<^item> \<open>FileWrite\<close> (\<^verbatim>\<open>fileio.c\<close>, \<^verbatim>\<open>syscall.c\<close>): \<^verbatim>\<open>write_file\<close>, \<^verbatim>\<open>write_sparse\<close>, \<^verbatim>\<open>skip_matched\<close>, \<^verbatim>\<open>do_punch_hole\<close> and the end of an output file; the
    file holds exactly the bytes given. A locale states what a writer promises.
  \<^item> \<open>Rdma\<close> (\<^verbatim>\<open>rdma.c\<close>): framing, the send ring under all interleavings with the adapter, striping, and the receive ring.
  \<^item> \<open>RdmaSetup\<close> (\<^verbatim>\<open>rdma.c\<close>): \<^verbatim>\<open>rdma_preflight\<close> with the programs of client and server, the choice of rails, the queue-pair messages. The negotiation ends in
    agreement under all interleavings, and what a server accepts is in bounds.
  \<^item> \<open>Token\<close> (\<^verbatim>\<open>token.c\<close>): the locale \<open>token_channel\<close>, a sender and a receiver of which the latter reads what the former sent, interpreted for plain tokens, for
    tokens with literals on the rails, and for LZ4 tokens with runs of block numbers.
  \<^item> \<open>Receiver\<close> (\<^verbatim>\<open>receiver.c\<close>): \<^verbatim>\<open>receive_data\<close> over any channel, into a new file, in place, in append mode, or discarding.
  \<^item> \<open>MdDigest\<close> (\<^verbatim>\<open>lib/mdfour.c\<close>, \<^verbatim>\<open>lib/md5.c\<close>, \<^verbatim>\<open>checksum.c\<close>): both digests and the accumulator over them, against padding and chaining over the
    source's own block functions, which published test vectors tie to the standards.
  \<^item> \<open>Wildmatch\<close> (\<^verbatim>\<open>lib/wildmatch.c\<close>): \<^verbatim>\<open>dowild\<close> with its early ends accepts exactly the texts that a pattern stands for.
  \<^item> \<open>Paths\<close> (\<^verbatim>\<open>util1.c\<close>): \<^verbatim>\<open>clean_fname\<close>, \<^verbatim>\<open>sanitize_path\<close> and \<^verbatim>\<open>unsafe_symlink\<close> confine paths as they claim, with the exceptions that are stated.

  This theory composes generator, sender, channel and receiver.

  \<^bold>\<open>Fuel and bounds.\<close> \<^verbatim>\<open>match_sums\<close> has fuel, and one step more than the bytes of the file is enough: each round moves forward. The writer's loops have
  fuel computed from the length of their data. \<^verbatim>\<open>recv_loop\<close> follows an input of any length and is a partial function; that it returns is proved for each kind of
  stream. The RDMA results hold for up to \<open>2^32\<close> messages on a connection, where the slot counter wraps; past that a queue depth that does not divide \<open>2^32\<close> loses
  a message, which is proved as well. Requests to \<^verbatim>\<open>map_ptr\<close> leave room for alignment in the read size, as those of the callers do.

  \<^bold>\<open>Hypotheses on checksums.\<close> Weak sums collide and strong sums could; the exactness of the search is stated for files of which no window collides with a block of
  the basis (\<open>no_collision\<close>), and, for updates in place, where full windows of weak sum 0 are equal (\<open>zero_windows\<close>), as the code takes them to be.

  \<^bold>\<open>Not modelled.\<close> Descriptors, processes, signals, the multiplexing of \<^verbatim>\<open>io.c\<close>, the file list, filter files, the daemon, ownership and attributes; progress, debugging and
  statistics output; the zlib and zstd bodies of \<^verbatim>\<open>token.c\<close>; the state changes of queue pairs. A \<^verbatim>\<open>write\<close> interrupted by a signal is retried in the code and is not seen.
  Whether holes can be punched is one property of a file system, not of each call, and a seek forward succeeds. The receive queue takes every slot that is posted to it. Lengths in
  \<^verbatim>\<open>get_checksum2\<close> are below \<open>2^31 - 68\<close>, where the sums of \<^verbatim>\<open>int32\<close> values do not overflow. The character classes are those of the C locale.
\<close>

section \<open>The whole delta transfer\<close>

text \<open>
  The two ends of a transfer: they agree on the protocol and on the digests, which are as long as
  negotiated; the receiver's basis file is the file that the generator read.
\<close>

definition ends_ok :: "sum_conf \<Rightarrow> menv \<Rightarrow> recv_env \<Rightarrow> rd_env \<Rightarrow> byte list \<Rightarrow> bool" where
  "ends_ok cf me re rd B \<longleftrightarrow> conf_ok cf \<and> append_mode cf \<le> 0 \<and> 30 \<le> protocol_version cf
     \<and> me_cf me = cf \<and> rc_cf re = cf \<and> me_len me = int (length (me_file me)) \<and> me_file me \<noteq> []
     \<and> (\<forall>x. nat (xfer_sum_len cf) \<le> length (me_csum2 me x)) \<and> (\<forall>x. nat (xfer_sum_len cf) \<le> length (rc_digest re x))
     \<and> new_file_env re rd \<and> \<not> mc_am_sender (rc_map re) \<and> disk_read_size (rc_map re) \<le> 2 ^ 29
     \<and> reads_file B rd \<and> page_of rd \<le> 4096"

lemma ends_signature:
  assumes "ends_ok cf me re rd B" "B \<noteq> []" "int (length B) < 2 ^ 63"
    "generate_and_send_sums cf (me_csum2 me) B (int (length B)) False = Some (out, cp)" "receive_sums cf (out @ q) = Inr (s, q')"
  shows "describes (me_cf me) (me_csum2 me) s B" "head_ok (me_cf me) s" "basis_ok re rd True (head_of s) B" "0 < ss_count s"
    "ss_blength s \<le> OLD_MAX_BLOCK_SIZE" "ss_count s < 2 ^ 31"
proof -
  have cf: "me_cf me = cf" "conf_ok cf" "append_mode cf \<le> 0" "\<And>x. nat (xfer_sum_len cf) \<le> length (me_csum2 me x)"
    using assms(1) by (simp_all add: ends_ok_def)
  obtain s' where "receive_sums cf (out @ q) = Inr (s', q)" "describes cf (me_csum2 me) s' B" "head_ok cf s'"
    using receive_generated [OF cf(2,3) assms(3) cf(4) assms(4), of q] assms(2) by auto
  then show d: "describes (me_cf me) (me_csum2 me) s B" and h: "head_ok (me_cf me) s" using assms(5) cf(1) by auto
  have "max_blength (protocol_version cf) = MAX_BLOCK_SIZE" using assms(1) by (simp add: ends_ok_def max_blength_def)
  then have b: "0 \<le> ss_blength s" "ss_blength s \<le> MAX_BLOCK_SIZE" using h cf(1) by (simp_all add: head_ok_def)
  have t: "tiles s (length B)" using d by (simp add: describes_def)
  show "basis_ok re rd True (head_of s) B"
    by (rule basis_ok_reads) (use assms(1) b t in \<open>simp_all add: ends_ok_def head_of_def tiles_def\<close>)
  show "0 < ss_count s" using tiles_count [OF t, of 0] assms(2) by simp
  show "ss_blength s \<le> OLD_MAX_BLOCK_SIZE" using b(2) by (simp add: MAX_BLOCK_SIZE_def OLD_MAX_BLOCK_SIZE_def)
  show "ss_count s < 2 ^ 31" using h by (simp add: head_ok_def)
qed

text \<open>
  C1: The delta transfer from end to end. The generator reads the basis file and sends its signature; the sender receives it, searches the
  new file and sends tokens over the control connection; the receiver reads them into a new file. If no window of the new file
  collides with a block of the basis (\<open>no_collision\<close>, and \<open>zero_windows\<close> when the file is updated in place), each step succeeds, the receiver's
  file is the sender's file, the final checksum agrees, and the streams are consumed exactly.
\<close>

theorem delta_sync_exact:
  assumes "ends_ok cf me re rd B" "B \<noteq> []" "int (length B) < 2 ^ 63"
    and "generate_and_send_sums cf (me_csum2 me) B (int (length B)) False = Some (out, cp)" "receive_sums cf (out @ q) = Inr (s, q')"
    and "no_collision me s B" "zero_windows me s" "length (me_file me) < fuel"
  shows "\<exists>st w t'. match_sums fuel me literal_step s = Some (Inr st)
    \<and> send_calls (simple_send_token \<lparr>se_rdma = False, se_chunk = ch, se_depth = dep, se_synthetic = sy\<rparr>) (me_file me) t (ms_calls st) = Some (Inr (w, t'))
    \<and> (\<forall>r rest. residue r = 0 \<longrightarrow> (\<exists>rs r'. receive_data re (simple_recv_token False) True (int (length B)) tsize (fresh_output [] p) r
          (write_sum_head cf (Some s) @ w @ sender_file_sum (nat (xfer_sum_len cf)) False (rc_digest re (ms_fed st)) @ rest)
        = Some (Inr (True, rs, r', rest)) \<and> wf_data (rs_out rs) = me_file me))"
proof -
  note g = ends_signature [OF assms(1-5)]
  have e: "me_len me = int (length (me_file me))" "append_mode (me_cf me) \<le> 0" "me_file me \<noteq> []" "new_file_env re rd" "rc_cf re = me_cf me"
    "nat (xfer_sum_len (me_cf me)) \<le> length (rc_digest re (me_file me))" "me_cf me = cf" using assms(1) by (auto simp: ends_ok_def)
  show ?thesis
    using plain_channel.delta_over_channel [OF g(1) e(1,2) g(4,5) assms(6,7) e(3) assms(8) g(2) e(4) g(3) e(5,6),
        of literal_step "ss_count s" t ch dep sy tsize p] g(6)
    by (simp add: plain_ready_def e(7))
qed

lemma length_call_pieces: "length (call_pieces n F cs) \<le> length (recon s F B cs)"
proof (induction cs)
  case (Cons c cs)
  have "length (pieces n (literal F c)) \<le> length (recon_call s F B c)"
    using length_pieces [of n "literal F c"] by (simp add: recon_call_def literal_def)
  then show ?case using Cons by (simp add: call_pieces_simps recon_def)
qed (simp add: call_pieces_simps)

text \<open>
  C2: The same transfer with the literal data on RDMA rails. With at most \<open>2^32\<close> messages in the life of the connection and no failing
  library call, the sender sends everything. A receiver with the sender's number of rails and chunk size, that has taken all earlier
  messages, and to which each rail brings exactly what the sender has put on that rail since, ends with the sender's file.
\<close>

theorem rdma_delta_sync_exact:
  assumes "ends_ok cf me re rd B" "B \<noteq> []" "int (length B) < 2 ^ 63"
    and "generate_and_send_sums cf (me_csum2 me) B (int (length B)) False = Some (out, cp)" "receive_sums cf (out @ q) = Inr (s, q')"
    and "no_collision me s B" "zero_windows me s" "length (me_file me) < fuel"
    and "rdma_env se t" "tx_inv (sx_rdma t) ds" "length ds + length (me_file me) \<le> 2 ^ 32"
  shows "\<exists>st w t'. match_sums fuel me literal_step s = Some (Inr st)
    \<and> send_calls (simple_send_token se) (me_file me) t (ms_calls st) = Some (Inr (w, t'))
    \<and> (\<forall>r rest. rails_link t t' r \<longrightarrow> (\<exists>rs r'. receive_data re (simple_recv_token True) True (int (length B)) tsize (fresh_output [] p) r
          (write_sum_head cf (Some s) @ w @ sender_file_sum (nat (xfer_sum_len cf)) False (rc_digest re (ms_fed st)) @ rest)
        = Some (Inr (True, rs, r', rest)) \<and> wf_data (rs_out rs) = me_file me))"
proof -
  note g = ends_signature [OF assms(1-5)]
  have e: "me_len me = int (length (me_file me))" "append_mode (me_cf me) \<le> 0" "me_file me \<noteq> []" "new_file_env re rd" "rc_cf re = me_cf me"
    "nat (xfer_sum_len (me_cf me)) \<le> length (rc_digest re (me_file me))" "me_cf me = cf" using assms(1) by (auto simp: ends_ok_def)
  have rdy: "rails_ready se (ss_count s) (me_file me) t (ms_calls st)"
    if "calls_ok (me_file me) (ss_count s) (ms_calls st)" "recon s (me_file me) B (ms_calls st) = me_file me" for st
  proof -
    have "length (ds @ call_pieces (nat (se_chunk se)) (me_file me) (ms_calls st)) \<le> 2 ^ 32"
      using length_call_pieces [of "nat (se_chunk se)" "me_file me" "ms_calls st" s B] that(2) assms(11) by simp
    then show ?thesis using g(6) that(1) assms(9,10) by (auto simp: rails_ready_def)
  qed
  show ?thesis
    using rails_channel.delta_over_channel [OF g(1) e(1,2) g(4,5) assms(6,7) e(3) assms(8) g(2) e(4) g(3) e(5,6), OF rdy,
        of literal_step tsize p] by (simp add: e(7))
qed

definition ex_ends :: recv_env where
  "ex_ends = ex_recv\<lparr>rc_cf := \<lparr>protocol_version = 31, xfer_sum_len = 3, csum_length = 3, block_size = 2, append_mode = 0\<rparr>,
     rc_digest := (\<lambda>x. take 3 (x @ [0, 0, 0]))\<rparr>"

definition ex_sender :: menv where
  "ex_sender = (ex_menv False [9, 3, 4, 1, 2, 5])\<lparr>me_cf := rc_cf ex_ends\<rparr>"

definition ex_generated :: "byte list" where
  "ex_generated = [3, 0, 0, 0, 2, 0, 0, 0, 3, 0, 0, 0, 1, 0, 0, 0, 3, 0, 4, 0, 2, 1, 2, 7, 0, 10, 0, 2, 3, 4, 5, 0, 5, 0, 1, 5, 0]"

definition ex_received :: sum_struct where
  "ex_received = \<lparr>ss_flength = 5, ss_sums = [\<lparr>sb_offset = 0, sb_len = 2, sb_sum1 = 262147, sb_chain = 0, sb_flags = False\<rparr>,
     \<lparr>sb_offset = 2, sb_len = 2, sb_sum1 = 655367, sb_chain = 0, sb_flags = False\<rparr>,
     \<lparr>sb_offset = 4, sb_len = 1, sb_sum1 = 327685, sb_chain = 0, sb_flags = False\<rparr>],
     ss_sum2_array = [2, 1, 2, 2, 3, 4, 1, 5, 0], ss_count = 3, ss_blength = 2, ss_remainder = 1, ss_s2length = 3\<rparr>"

lemma ex_ends_ok: "ends_ok (rc_cf ex_ends) ex_sender ex_ends (short_reads 3 [1, 2, 3, 4, 5]) [1, 2, 3, 4, 5]"
proof -
  have "new_file_env ex_ends (short_reads 3 [1, 2, 3, 4, 5])" using ex_env
    by (simp add: new_file_env_def separate_def ex_ends_def prealloc_ok_def ex_recv_def)
  moreover have "page_of (short_reads 3 [1, 2, 3, 4, 5]) = 4096" by (simp add: page_of_def short_reads_def)
  ultimately show ?thesis
    by (simp add: ends_ok_def ex_sender_def ex_ends_def ex_menv_def ex_recv_def conf_ok_def SUM_LENGTH_def max_blength_def MAX_BLOCK_SIZE_def
        short_reads_file ex_csum2_def min_def)
qed

lemma ex_signature:
  "generate_and_send_sums (rc_cf ex_ends) (me_csum2 ex_sender) [1, 2, 3, 4, 5] (int (length [1, 2, 3, 4, 5 :: byte])) False = Some (ex_generated, [])"
  "receive_sums (rc_cf ex_ends) (ex_generated @ []) = Inr (ex_received, [])"
proof -
  have "generate_and_send_sums \<lparr>protocol_version = 31, xfer_sum_len = 3, csum_length = 3, block_size = 2, append_mode = 0\<rparr> ex_csum2
      [1, 2, 3, 4, 5] 5 False = Some (ex_generated, [])"
    "receive_sums \<lparr>protocol_version = 31, xfer_sum_len = 3, csum_length = 3, block_size = 2, append_mode = 0\<rparr> ex_generated = Inr (ex_received, [])"
    by code_simp+
  then show "generate_and_send_sums (rc_cf ex_ends) (me_csum2 ex_sender) [1, 2, 3, 4, 5] (int (length [1, 2, 3, 4, 5 :: byte])) False = Some (ex_generated, [])"
    "receive_sums (rc_cf ex_ends) (ex_generated @ []) = Inr (ex_received, [])" by (simp_all add: ex_ends_def ex_sender_def ex_menv_def)
qed

lemma ex_search: "no_collision ex_sender ex_received [1, 2, 3, 4, 5]" "zero_windows ex_sender ex_received"
  by (rule no_collisionI) (simp add: ex_received_def ex_sender_def ex_menv_def ex_csum2_inj,
      simp add: zero_windows_def ex_sender_def ex_menv_def)

lemma ex_sizes: "[1, 2, 3, 4, 5 :: byte] \<noteq> []" "int (length [1, 2, 3, 4, 5 :: byte]) < 2 ^ 63" "length (me_file ex_sender) < 7"
  by (simp_all add: ex_sender_def ex_menv_def)

theorem delta_sync_exact_witness:
  "\<exists>st w t' rs r'. match_sums 7 ex_sender 32768 ex_received = Some (Inr st)
    \<and> send_calls (simple_send_token \<lparr>se_rdma = False, se_chunk = 0, se_depth = 0, se_synthetic = False\<rparr>) [9, 3, 4, 1, 2, 5]
        \<lparr>sx_rdma = \<lparr>tx_chunk = 4, tx_depth = 2, tx_rails = 1, tx_paths = \<lambda>_. fresh_path, send_seq = 0, tx_data_bytes = 0, tx_data_messages = 0\<rparr>,
         rdma_control_pending = 0, sx_flushes = 0\<rparr> (ms_calls st) = Some (Inr (w, t'))
    \<and> receive_data ex_ends (simple_recv_token False) True (int (length [1, 2, 3, 4, 5 :: byte])) 6 (fresh_output [] 0) ex_rx
          (write_sum_head (rc_cf ex_ends) (Some ex_received) @ w @ sender_file_sum (nat (xfer_sum_len (rc_cf ex_ends))) False (rc_digest ex_ends (ms_fed st)) @ [])
        = Some (Inr (True, rs, r', [])) \<and> wf_data (rs_out rs) = [9, 3, 4, 1, 2, 5]"
proof -
  have F: "me_file ex_sender = [9, 3, 4, 1, 2, 5]" by (simp add: ex_sender_def ex_menv_def)
  have r: "residue ex_rx = 0" by (simp add: ex_rx_def)
  show ?thesis
    using delta_sync_exact [OF ex_ends_ok ex_sizes(1,2) ex_signature ex_search ex_sizes(3), of 32768 0 0 False
      "\<lparr>sx_rdma = \<lparr>tx_chunk = 4, tx_depth = 2, tx_rails = 1, tx_paths = \<lambda>_. fresh_path, send_seq = 0, tx_data_bytes = 0, tx_data_messages = 0\<rparr>,
         rdma_control_pending = 0, sx_flushes = 0\<rparr>" 6 0] r unfolding F by blast
qed

theorem rdma_delta_sync_exact_witness:
  "\<exists>st w t' rs r'. let t = \<lparr>sx_rdma = \<lparr>tx_chunk = 4, tx_depth = 2, tx_rails = 2, tx_paths = \<lambda>_. fresh_path, send_seq = 0, tx_data_bytes = 0, tx_data_messages = 0\<rparr>,
         rdma_control_pending = 0, sx_flushes = 0\<rparr> in match_sums 7 ex_sender 32768 ex_received = Some (Inr st)
    \<and> send_calls (simple_send_token \<lparr>se_rdma = True, se_chunk = 4, se_depth = 2, se_synthetic = False\<rparr>) [9, 3, 4, 1, 2, 5] t (ms_calls st) = Some (Inr (w, t'))
    \<and> rails_link t t' (linked_rx 2 t t')
    \<and> receive_data ex_ends (simple_recv_token True) True (int (length [1, 2, 3, 4, 5 :: byte])) 6 (fresh_output [] 0) (linked_rx 2 t t')
          (write_sum_head (rc_cf ex_ends) (Some ex_received) @ w @ sender_file_sum (nat (xfer_sum_len (rc_cf ex_ends))) False (rc_digest ex_ends (ms_fed st)) @ [])
        = Some (Inr (True, rs, r', [])) \<and> wf_data (rs_out rs) = [9, 3, 4, 1, 2, 5]"
proof -
  let ?me = "ex_sender" and ?se = "\<lparr>se_rdma = True, se_chunk = 4, se_depth = 2, se_synthetic = False\<rparr>"
  let ?t = "\<lparr>sx_rdma = \<lparr>tx_chunk = 4, tx_depth = 2, tx_rails = 2, tx_paths = \<lambda>_. fresh_path, send_seq = 0, tx_data_bytes = 0, tx_data_messages = 0\<rparr>,
         rdma_control_pending = 0, sx_flushes = 0\<rparr>"
  have F: "me_file ?me = [9, 3, 4, 1, 2, 5]" "me_len ?me = int (length (me_file ?me))" "append_mode (me_cf ?me) \<le> 0" "me_file ?me \<noteq> []" by (simp_all add: ex_sender_def ex_menv_def ex_ends_def)
  have inv: "rdma_env ?se ?t" "tx_inv (sx_rdma ?t) []" by (simp_all add: rdma_env_def tx_inv_def fresh_path_inv rail_msgs_def data_msgs_def)
  have small: "length ([] :: byte list list) + length (me_file ex_sender) \<le> 2 ^ 32" by (simp add: F(1))
  note g = ends_signature [OF ex_ends_ok ex_sizes(1,2) ex_signature]
  obtain st w t' where st: "match_sums 7 ?me 32768 ex_received = Some (Inr st)"
    "send_calls (simple_send_token ?se) (me_file ?me) ?t (ms_calls st) = Some (Inr (w, t'))"
    and rx: "\<And>r rest. rails_link ?t t' r \<Longrightarrow> \<exists>rs r'. receive_data ex_ends (simple_recv_token True) True (int (length [1, 2, 3, 4, 5 :: byte])) 6 (fresh_output [] 0) r
          (write_sum_head (rc_cf ex_ends) (Some ex_received) @ w @ sender_file_sum (nat (xfer_sum_len (rc_cf ex_ends))) False (rc_digest ex_ends (ms_fed st)) @ rest)
        = Some (Inr (True, rs, r', rest)) \<and> wf_data (rs_out rs) = me_file ?me"
    using rdma_delta_sync_exact [OF ex_ends_ok ex_sizes(1,2) ex_signature ex_search ex_sizes(3) inv small, of 32768 6 0] by blast
  obtain st2 where "match_sums 7 ?me 32768 ex_received = Some (Inr st2)" "sent_ok ?me [1, 2, 3, 4, 5] st2" "last_match st2 = me_len ?me"
    "ss_blength (ms_s st2) = ss_blength ex_received" "calls_ok (me_file ?me) (ss_count ex_received) (ms_calls st2)"
    using match_sums_search [OF g(1) F(2,3) g(4,5) ex_search F(4) ex_sizes(3), of 32768] by blast
  then have "calls_ok (me_file ?me) (ss_count ex_received) (ms_calls st)" "recon ex_received (me_file ?me) [1, 2, 3, 4, 5] (ms_calls st) = me_file ?me"
    using st(1) F(2) recon_cong [of "ms_s st2" ex_received] by (simp_all add: sent_ok_def Let_def)
  then have "rails_ready ?se (ss_count ex_received) (me_file ?me) ?t (ms_calls st)"
    using length_call_pieces [of 4 "me_file ?me" "ms_calls st" ex_received "[1, 2, 3, 4, 5]"] F(1) g(6) inv
    by (auto simp: rails_ready_def intro!: exI [of _ "[]"])
  from rails_link_exists [OF this _ st(2), of 2] have "rails_link ?t t' (linked_rx 2 ?t t')" by simp
  then show ?thesis using st rx [of "linked_rx 2 ?t t'" "[]"] unfolding F(1) Let_def by blast
qed

end
